(* ===== verification/DA_Prelude.thy ===== *)
theory DA_Prelude
  imports Main "HOL-Library.Word"
begin

text \<open>
  Shared material of the development: the machine types of the program, the result type
  of operations that can fail, the little-endian image of a 32-bit integer that
  \<^verbatim>\<open>std::copy\<close> through a \<^verbatim>\<open>char *\<close> produces, the decimal text that
  \<^verbatim>\<open>std::stringstream\<close> writes for an unsigned integer, and the generic contracts
  (locales) that the components implement.
\<close>

section \<open>Machine types\<close>

type_synonym u8 = "8 word"
type_synonym u16 = "16 word"
type_synonym u32 = "32 word"
type_synonym u64 = "64 word"
type_synonym bytes = "u8 list"

text \<open>\<^verbatim>\<open>std::time_t\<close>: whole seconds.\<close>

type_synonym time = int

section \<open>Results of operations that can fail\<close>

text \<open>
  What stops an operation: a write past the end of a stack buffer, a use of a destroyed
  object or of an uninitialised pointer, a call of
  \<^verbatim>\<open>std::terminate\<close> (a joinable \<^verbatim>\<open>std::thread\<close> overwritten, an exception that
  leaves a \<^verbatim>\<open>noexcept\<close> function), a call of \<^verbatim>\<open>std::exit(EXIT_FAILURE)\<close>, or an exception
  with its message.
\<close>

datatype failure =
    Buffer_Overflow
  | Dangling_Pointer
  | Uninitialised_Pointer
  | Terminate
  | Exit_Failure
  | Runtime_Error string
  | Invalid_Argument string

type_synonym 'a result = "failure + 'a"

fun bind_result :: "'a result \<Rightarrow> ('a \<Rightarrow> 'b result) \<Rightarrow> 'b result" where
  "bind_result (Inl e) f = Inl e"
| "bind_result (Inr x) f = f x"

text \<open>A loop whose body can fail: the first failure ends it.\<close>

fun fold_result :: "('a \<Rightarrow> 's \<Rightarrow> 's result) \<Rightarrow> 'a list \<Rightarrow> 's \<Rightarrow> 's result" where
  "fold_result f [] s = Inr s"
| "fold_result f (x # xs) s = bind_result (f x s) (fold_result f xs)"

fun_cases bind_result_InrE: "bind_result r f = Inr y"

lemma bind_result_eq_Inr [simp]:
  "bind_result r f = Inr y \<longleftrightarrow> (\<exists>x. r = Inr x \<and> f x = Inr y)"
  by (cases r) auto

lemma bind_result_cong [fundef_cong]:
  "r = r' \<Longrightarrow> (\<And>x. r' = Inr x \<Longrightarrow> f x = g x) \<Longrightarrow> bind_result r f = bind_result r' g"
  by (cases r') auto

lemma fold_result_append:
  "fold_result f (xs @ ys) s = bind_result (fold_result f xs s) (fold_result f ys)"
proof (induction xs arbitrary: s)
  case (Cons x xs)
  show ?case by (cases "f x s") (simp_all add: Cons.IH)
qed simp

lemma fold_result_invariant:
  assumes "fold_result f xs s = Inr s'"
    and "P s"
    and "\<And>x s s'. x \<in> set xs \<Longrightarrow> P s \<Longrightarrow> f x s = Inr s' \<Longrightarrow> P s'"
  shows "P s'"
  using assms by (induction xs arbitrary: s) auto

lemma fold_result_total:
  assumes "P s"
    and "\<And>x s. x \<in> set xs \<Longrightarrow> P s \<Longrightarrow> \<exists>s'. f x s = Inr s' \<and> P s'"
  shows "\<exists>s'. fold_result f xs s = Inr s' \<and> P s'"
  using assms
proof (induction xs arbitrary: s)
  case Nil
  then show ?case by simp
next
  case (Cons x xs)
  from Cons.prems obtain s1 where s1: "f x s = Inr s1" "P s1" by fastforce
  then have "\<exists>s'. fold_result f xs s1 = Inr s' \<and> P s'"
    using Cons.IH Cons.prems(2) by simp
  with s1 show ?case by simp
qed

section \<open>The object representation of an unsigned int\<close>

text \<open>
  \<^verbatim>\<open>std::copy(p, p + sizeof(x), buffer)\<close> with \<^verbatim>\<open>p = static_cast<const char *>(&x)\<close>
  writes the four bytes of an \<^verbatim>\<open>unsigned int\<close> in memory order; the target is a
  little-endian 64-bit machine, so the least significant byte comes first. The opposite
  copy reads four bytes back.
\<close>

definition u32_bytes :: "u32 \<Rightarrow> bytes" where
  "u32_bytes w = [ucast w, ucast (drop_bit 8 w), ucast (drop_bit 16 w), ucast (drop_bit 24 w)]"

fun u32_of_bytes :: "bytes \<Rightarrow> u32" where
  "u32_of_bytes [] = 0"
| "u32_of_bytes (b # bs) = or (ucast b) (push_bit 8 (u32_of_bytes bs))"

lemma length_u32_bytes [simp]: "length (u32_bytes w) = 4"
  by (simp add: u32_bytes_def)

lemma u32_of_bytes_u32_bytes [simp]: "u32_of_bytes (u32_bytes w) = w"
  by (rule bit_word_eqI)
    (auto simp: u32_bytes_def bit_or_iff bit_push_bit_iff bit_ucast_iff bit_drop_bit_eq not_le
      le_add_diff_inverse split: nat_diff_split)

lemma not_bit_u8 [simp]: "8 \<le> n \<Longrightarrow> \<not> bit (b :: u8) n"
  using bit_imp_le_length [of b n] by auto

lemma u32_bytes_u32_of_bytes:
  assumes "length bs = 4"
  shows "u32_bytes (u32_of_bytes bs) = bs"
proof -
  from assms obtain a b c d where bs: "bs = [a, b, c, d]"
    by (auto simp: numeral_eq_Suc length_Suc_conv)
  show ?thesis
    by (auto simp: bs u32_bytes_def bit_or_iff bit_push_bit_iff bit_ucast_iff bit_drop_bit_eq
        intro!: bit_word_eqI)
qed

lemma u32_bytes_inj [simp]: "u32_bytes v = u32_bytes w \<longleftrightarrow> v = w"
  by (metis u32_of_bytes_u32_bytes)

section \<open>Decimal text\<close>

text \<open>
  \<^verbatim>\<open>std::stringstream << unsigned\<close> writes the decimal digits without padding;
  \<open>read_nat\<close> is the value of a digit string.
\<close>

definition digit_char :: "nat \<Rightarrow> char" where
  "digit_char d = char_of (48 + d)"

fun show_nat :: "nat \<Rightarrow> string" where
  "show_nat n = (if n < 10 then [digit_char n] else show_nat (n div 10) @ [digit_char (n mod 10)])"

declare show_nat.simps [simp del]

definition show_u32 :: "u32 \<Rightarrow> string" where
  "show_u32 w = show_nat (unat w)"

definition is_digit :: "char \<Rightarrow> bool" where
  "is_digit c \<longleftrightarrow> 48 \<le> (of_char c :: nat) \<and> of_char c \<le> (57 :: nat)"

definition digit_value :: "char \<Rightarrow> nat" where
  "digit_value c = of_char c - 48"

definition read_nat :: "string \<Rightarrow> nat" where
  "read_nat s = foldl (\<lambda>n c. 10 * n + digit_value c) 0 s"

lemma of_char_digit_char [simp]: "d < 10 \<Longrightarrow> (of_char (digit_char d) :: nat) = 48 + d"
  by (simp add: digit_char_def)

lemma is_digit_digit_char [simp]: "d < 10 \<Longrightarrow> is_digit (digit_char d)"
  by (simp add: is_digit_def)

lemma digit_value_digit_char [simp]: "d < 10 \<Longrightarrow> digit_value (digit_char d) = d"
  by (simp add: digit_value_def)

lemma show_nat_not_Nil [simp]: "show_nat n \<noteq> []"
  by (subst show_nat.simps) simp

lemma show_nat_digits: "c \<in> set (show_nat n) \<Longrightarrow> is_digit c"
  by (induction n rule: show_nat.induct) (subst (asm) (2) show_nat.simps, auto split: if_splits)

lemma read_nat_snoc [simp]: "read_nat (s @ [c]) = 10 * read_nat s + digit_value c"
  by (simp add: read_nat_def)

lemma read_nat_show_nat [simp]: "read_nat (show_nat n) = n"
proof (induction n rule: show_nat.induct)
  case (1 n)
  show ?case
  proof (cases "n < 10")
    case True
    then show ?thesis by (simp add: show_nat.simps [of n] read_nat_def)
  next
    case False
    then show ?thesis using 1 by (simp add: show_nat.simps [of n])
  qed
qed

lemma show_u32_inj [simp]: "show_u32 a = show_u32 b \<longleftrightarrow> a = b"
  by (metis show_u32_def read_nat_show_nat word_unat_eq_iff)

lemma show_u32_no_space: "CHR '' '' \<notin> set (show_u32 w)"
  using show_nat_digits [of "CHR '' ''" "unat w"] by (auto simp: show_u32_def is_digit_def)

section \<open>Ordered sets of sequence numbers\<close>

text \<open>
  A \<^verbatim>\<open>std::set<unsigned>\<close> is its in-order sequence: a strictly increasing list, so that
  a range-\<^verbatim>\<open>for\<close> over the set is a recursion over the list. \<^verbatim>\<open>insert\<close> is
  \<open>insort_insert\<close> of the list library and \<^verbatim>\<open>erase\<close> is \<open>remove1\<close>.
\<close>

type_synonym 'a oset = "'a list"

definition oset :: "'a :: linorder oset \<Rightarrow> bool" where
  "oset xs \<longleftrightarrow> sorted xs \<and> distinct xs"

definition oset_insert :: "'a :: linorder \<Rightarrow> 'a oset \<Rightarrow> 'a oset" where
  "oset_insert x xs = insort_insert x xs"

definition oset_erase_all :: "'a list \<Rightarrow> 'a oset \<Rightarrow> 'a oset" where
  "oset_erase_all rs xs = fold remove1 rs xs"

lemma oset_Nil [simp]: "oset []"
  by (simp add: oset_def)

lemma oset_insert_oset [simp, intro]: "oset xs \<Longrightarrow> oset (oset_insert x xs)"
  by (simp add: oset_def oset_insert_def sorted_insort_insert distinct_insort_insert)

lemma set_oset_insert [simp]: "set (oset_insert x xs) = insert x (set xs)"
  by (simp add: oset_insert_def set_insort_insert)

lemma oset_Cons: "oset (x # xs) \<longleftrightarrow> oset xs \<and> (\<forall>y \<in> set xs. x < y)"
  by (auto simp: oset_def less_le)

lemma oset_append: "oset (xs @ ys) \<longleftrightarrow> oset xs \<and> oset ys \<and> (\<forall>x \<in> set xs. \<forall>y \<in> set ys. x < y)"
  by (induction xs) (auto simp: oset_Cons)

text \<open>The loops of the program erase a prefix of the set: what is left is the rest.\<close>

lemma oset_erase_prefix [simp]: "oset_erase_all xs (xs @ ys) = ys"
  by (induction xs) (auto simp: oset_erase_all_def)

section \<open>Contracts\<close>

text \<open>
  A byte codec: decoding undoes encoding, so that the encoder is injective and a receiver
  sees exactly what the sender wrote. A canonical codec also encodes every decoded value
  to the bytes it came from: nothing the decoder accepts is lost when it is relayed.
\<close>

locale byte_codec =
  fixes enc :: "'a \<Rightarrow> bytes"
    and dec :: "bytes \<Rightarrow> 'a option"
  assumes dec_enc: "dec (enc x) = Some x"
begin

lemma enc_inj: "enc x = enc y \<longleftrightarrow> x = y"
  by (metis dec_enc option.inject)

lemma dec_image_enc: "dec ` enc ` A = Some ` A"
  by (auto simp: image_iff dec_enc)

end

locale canonical_codec = byte_codec +
  assumes enc_dec: "dec bs = Some x \<Longrightarrow> enc x = bs"
begin

lemma dec_inj: "dec bs = Some x \<Longrightarrow> dec bs' = Some x \<Longrightarrow> bs = bs'"
  by (metis enc_dec)

lemma dec_Some_iff: "dec bs = Some x \<longleftrightarrow> bs = enc x"
  by (metis dec_enc enc_dec)

end

text \<open>
  A set implemented by a concrete state: \<open>abs\<close> is the set it stands for, \<open>invar\<close> its
  well-formedness, \<open>valid\<close> the elements it is about and \<open>fits s x\<close> the inputs that
  \<open>ins\<close> is designed for.
\<close>

locale set_impl =
  fixes emp :: 's
    and ins :: "'x \<Rightarrow> 's \<Rightarrow> 's"
    and mem :: "'s \<Rightarrow> 'x \<Rightarrow> bool"
    and abs :: "'s \<Rightarrow> 'x set"
    and invar :: "'s \<Rightarrow> bool"
    and valid :: "'x \<Rightarrow> bool"
    and fits :: "'s \<Rightarrow> 'x \<Rightarrow> bool"
  assumes invar_emp: "invar emp"
    and abs_emp: "abs emp = {}"
    and mem_abs: "invar s \<Longrightarrow> valid x \<Longrightarrow> mem s x \<longleftrightarrow> x \<in> abs s"
    and abs_ins: "invar s \<Longrightarrow> fits s x \<Longrightarrow> abs (ins x s) = insert x (abs s)"
    and invar_ins: "invar s \<Longrightarrow> fits s x \<Longrightarrow> invar (ins x s)"
begin

text \<open>A history of insertions, each one designed for the state it meets.\<close>

fun fits_all :: "'x list \<Rightarrow> 's \<Rightarrow> bool" where
  "fits_all [] s \<longleftrightarrow> True"
| "fits_all (x # xs) s \<longleftrightarrow> fits s x \<and> fits_all xs (ins x s)"

lemma fold_ins:
  "invar s \<Longrightarrow> fits_all xs s \<Longrightarrow> invar (fold ins xs s) \<and> abs (fold ins xs s) = set xs \<union> abs s"
  by (induction xs arbitrary: s) (auto simp: invar_ins abs_ins)

lemma mem_fold_ins:
  "fits_all xs emp \<Longrightarrow> valid x \<Longrightarrow> mem (fold ins xs emp) x \<longleftrightarrow> x \<in> set xs"
  using fold_ins [OF invar_emp] by (simp add: mem_abs abs_emp)

lemma mem_ins:
  "invar s \<Longrightarrow> fits s x \<Longrightarrow> valid x \<Longrightarrow> valid y \<Longrightarrow> mem (ins x s) y \<longleftrightarrow> y = x \<or> mem s y"
  by (simp add: mem_abs abs_ins invar_ins)

end

text \<open>
  Reachable states of a transition system, and the rule for safety properties: what holds
  at the start and is kept by every step holds in every reachable state.
\<close>

inductive reachable :: "('s \<Rightarrow> bool) \<Rightarrow> ('s \<Rightarrow> 's \<Rightarrow> bool) \<Rightarrow> 's \<Rightarrow> bool"
  for init step where
  reachable_init: "init s \<Longrightarrow> reachable init step s"
| reachable_step: "reachable init step s \<Longrightarrow> step s t \<Longrightarrow> reachable init step t"

lemma reachable_steps:
  assumes "reachable init step s" and "step\<^sup>*\<^sup>* s t"
  shows "reachable init step t"
  using assms(2,1) by (induction rule: rtranclp_induct) (auto intro: reachable_step)

locale invariant =
  fixes init :: "'s \<Rightarrow> bool"
    and step :: "'s \<Rightarrow> 's \<Rightarrow> bool"
    and inv :: "'s \<Rightarrow> bool"
  assumes inv_init: "init s \<Longrightarrow> inv s"
    and inv_step: "inv s \<Longrightarrow> step s t \<Longrightarrow> inv t"
begin

lemma reachable_inv: "reachable init step s \<Longrightarrow> inv s"
  by (induction rule: reachable.induct) (auto intro: inv_init inv_step)

lemma steps_inv: "step\<^sup>*\<^sup>* s t \<Longrightarrow> inv s \<Longrightarrow> inv t"
  by (induction rule: rtranclp_induct) (auto intro: inv_step)

end

text \<open>
  A finer system implements a coarser one: every step, seen through \<open>view\<close>, is a run of the coarser
  system. Then so is every run, and what holds in all reachable states of the coarser system holds
  of the views.
\<close>

locale simulation = invariant +
  fixes ainit :: "'a \<Rightarrow> bool"
    and astep :: "'a \<Rightarrow> 'a \<Rightarrow> bool"
    and view :: "'s \<Rightarrow> 'a"
  assumes view_init: "init s \<Longrightarrow> reachable ainit astep (view s)"
    and view_step: "inv s \<Longrightarrow> step s t \<Longrightarrow> astep\<^sup>*\<^sup>* (view s) (view t)"
begin

lemma view_reachable: "reachable init step s \<Longrightarrow> reachable ainit astep (view s)"
proof (induction rule: reachable.induct)
  case (reachable_step s t)
  with view_step [OF reachable_inv [OF reachable_step.hyps(1)]] show ?case by (blast intro: reachable_steps)
qed (rule view_init)

lemma view_inv:
  assumes "reachable init step s" and "invariant ainit astep P"
  shows "P (view s)"
  using invariant.reachable_inv [OF assms(2) view_reachable [OF assms(1)]] .

end

end
