(* ===== verification/UDP.thy ===== *)
theory UDP
  imports DA_Prelude
begin

text \<open>
  The datagram layer: \<^verbatim>\<open>Machine\<close>, \<^verbatim>\<open>UDPServer\<close> (\<^verbatim>\<open>udp_server.hpp/.cpp\<close>) and
  \<^verbatim>\<open>UDPClient\<close> (\<^verbatim>\<open>udp_client.hpp/.cpp\<close>). The results of the socket calls
  (\<^verbatim>\<open>socket\<close>, \<^verbatim>\<open>bind\<close>, \<^verbatim>\<open>recvfrom\<close>, \<^verbatim>\<open>sendto\<close>) and of \<^verbatim>\<open>std::hash\<close> are
  parameters. An observer is a pointer of an arbitrary type \<open>'o\<close>; its virtual
  \<^verbatim>\<open>Notify\<close> is the argument \<open>notify\<close> of the operations that call it.
\<close>

section \<open>Machine\<close>

datatype machine = Machine (ip: u32) (port: u16)

lemma machine_eq_fields: "m1 = m2 \<longleftrightarrow> ip m1 = ip m2 \<and> port m1 = port m2"
  by (cases m1; cases m2) auto

definition machine_less :: "machine \<Rightarrow> machine \<Rightarrow> bool" where
  "machine_less m1 m2 \<longleftrightarrow> (if ip m1 \<noteq> ip m2 then ip m1 < ip m2 else port m1 < port m2)"

instantiation machine :: linorder
begin

definition less_machine :: "machine \<Rightarrow> machine \<Rightarrow> bool" where
  "less_machine = machine_less"

definition less_eq_machine :: "machine \<Rightarrow> machine \<Rightarrow> bool" where
  "less_eq_machine m1 m2 \<longleftrightarrow> m1 < m2 \<or> m1 = m2"

instance
  by standard
    (auto simp: less_machine_def machine_less_def less_eq_machine_def machine_eq_fields split: if_splits)

end

definition machine_eq :: "machine \<Rightarrow> machine \<Rightarrow> bool" where
  "machine_eq m1 m2 \<longleftrightarrow> ip m1 = ip m2 \<and> port m1 = port m2"

definition machine_hash :: "(u32 \<Rightarrow> u64) \<Rightarrow> (u16 \<Rightarrow> u64) \<Rightarrow> machine \<Rightarrow> u64" where
  "machine_hash hash_addr hash_port m =
     (let h1 = hash_addr (ip m); h2 = hash_port (port m)
      in xor h1 (if h2 < 1 then 1 else 0))"

lemma machine_eq_iff [simp]: "machine_eq m1 m2 \<longleftrightarrow> m1 = m2"
  by (simp add: machine_eq_def machine_eq_fields [of m1 m2])

section \<open>UDPServer\<close>

definition UDP_SERVER_MAX_MSG_SIZE :: nat where
  "UDP_SERVER_MAX_MSG_SIZE = 14"

abbreviation kMaxSendSize :: nat where
  "kMaxSendSize \<equiv> UDP_SERVER_MAX_MSG_SIZE"

record 'o udp_server =
  srv_sockfd :: int
  server_addr :: machine
  srv_on :: bool
  receive_thread :: bool
  observers :: "machine \<rightharpoonup> 'o list"

definition UDPClient_Address :: "u32 \<Rightarrow> u16 \<Rightarrow> machine" where
  "UDPClient_Address a p = Machine a p"

definition UDPServer_ctor :: "int \<Rightarrow> int \<Rightarrow> u32 \<Rightarrow> u16 \<Rightarrow> 'o udp_server result" where
  "UDPServer_ctor socket_res bind_res a p =
     (if socket_res < 0 then Inl (Runtime_Error ''Cannot create socket.'')
      else if bind_res < 0 then Inl (Runtime_Error ''Could not bind to socket.'')
      else Inr \<lparr>srv_sockfd = socket_res, server_addr = UDPClient_Address a p, srv_on = False,
                receive_thread = False, observers = Map.empty\<rparr>)"

text \<open>Assigning to a joinable \<^verbatim>\<open>std::thread\<close> calls \<^verbatim>\<open>std::terminate\<close>.\<close>

definition UDPServer_Start :: "'o udp_server \<Rightarrow> 'o udp_server result" where
  "UDPServer_Start s =
     (if receive_thread s then Inl Terminate else Inr (s\<lparr>srv_on := True, receive_thread := True\<rparr>))"

definition UDPServer_Stop :: "'o udp_server \<Rightarrow> 'o udp_server" where
  "UDPServer_Stop s = (if srv_on s then s\<lparr>srv_on := False, receive_thread := False\<rparr> else s)"

definition UDPServer_Attach :: "'o \<Rightarrow> machine \<Rightarrow> 'o udp_server \<Rightarrow> 'o udp_server" where
  "UDPServer_Attach obs addr s =
     s\<lparr>observers := (observers s)(addr \<mapsto>
         (case observers s addr of None \<Rightarrow> [] | Some os \<Rightarrow> os) @ [obs])\<rparr>"

text \<open>
  \<^verbatim>\<open>observers_.data[m]\<close> on the unordered map creates an empty entry for an unknown
  machine.
\<close>

definition observers_at :: "'o udp_server \<Rightarrow> machine \<Rightarrow> 'o list" where
  "observers_at s m = (case observers s m of None \<Rightarrow> [] | Some os \<Rightarrow> os)"

definition UDPServer_NotifyAll ::
  "('o \<Rightarrow> bytes \<Rightarrow> 's \<Rightarrow> 's result) \<Rightarrow> bytes \<Rightarrow> machine \<Rightarrow> 'o udp_server \<times> 's
     \<Rightarrow> ('o udp_server \<times> 's) result" where
  "UDPServer_NotifyAll notify bs addr st =
     (let obs = observers_at (fst st) addr;
          srv = (fst st)\<lparr>observers := (observers (fst st))(addr \<mapsto> obs)\<rparr>
      in bind_result (fold_result (\<lambda>obs. notify obs bs) obs (snd st)) (\<lambda>s. Inr (srv, s)))"

text \<open>
  One turn of the loop of \<^verbatim>\<open>Receive\<close>. The outcome of \<^verbatim>\<open>recvfrom\<close> is \<open>None\<close> when it
  returns an error, and the datagram with its source otherwise; the kernel copies at most
  \<^verbatim>\<open>sizeof(buffer)\<close> bytes of a datagram and discards the rest.
\<close>

definition UDPServer_Receive ::
  "('o \<Rightarrow> bytes \<Rightarrow> 's \<Rightarrow> 's result) \<Rightarrow> (bytes \<times> machine) option \<Rightarrow> 'o udp_server \<times> 's
     \<Rightarrow> ('o udp_server \<times> 's) result" where
  "UDPServer_Receive notify received st =
     (if srv_on (fst st) then
        (case received of
           None \<Rightarrow> Inr st
         | Some (dgram, addr) \<Rightarrow>
             (let payload = take kMaxSendSize dgram
              in if length payload > 0 then UDPServer_NotifyAll notify payload addr st else Inr st))
      else Inr st)"

section \<open>UDPClient\<close>

record udp_client =
  cl_sockfd :: int
  sock_owner :: bool

text \<open>
  The constructors build an exception object for a bad descriptor but do not throw it:
  both branches give the same client.
\<close>

definition UDPClient_ctor :: "int \<Rightarrow> udp_client result" where
  "UDPClient_ctor socket_res =
     (let c = \<lparr>cl_sockfd = socket_res, sock_owner = True\<rparr>
      in if socket_res < 0 then Inr c else Inr c)"

definition UDPClient_ctor_fd :: "int \<Rightarrow> bool \<Rightarrow> udp_client result" where
  "UDPClient_ctor_fd fd owner =
     (let c = \<lparr>cl_sockfd = fd, sock_owner = owner\<rparr>
      in if fd < 0 then Inr c else Inr c)"

text \<open>The descriptors the destructor closes.\<close>

definition UDPClient_dtor :: "udp_client \<Rightarrow> int list" where
  "UDPClient_dtor c = (if sock_owner c then [cl_sockfd c] else [])"

definition UDPClient_Send ::
  "(int \<Rightarrow> bytes \<Rightarrow> machine \<Rightarrow> int) \<Rightarrow> udp_client \<Rightarrow> bytes \<Rightarrow> machine \<Rightarrow> int result" where
  "UDPClient_Send sendto c bs to_addr =
     (let res = sendto (cl_sockfd c) bs to_addr
      in if res < 0 then Inl (Runtime_Error ''Error sending message.'') else Inr res)"

section \<open>Lemmas\<close>

lemma observers_at_Attach [simp]:
  "observers_at (UDPServer_Attach obs addr s) m =
     (if m = addr then observers_at s m @ [obs] else observers_at s m)"
  by (simp add: observers_at_def UDPServer_Attach_def)

lemma observers_at_ctor [simp]:
  "UDPServer_ctor a b c d = Inr s \<Longrightarrow> observers_at s m = []"
  by (auto simp: UDPServer_ctor_def observers_at_def split: if_splits)

lemma NotifyAll_eq:
  "UDPServer_NotifyAll notify bs addr (srv, s) = Inr (srv', s') \<longleftrightarrow>
     fold_result (\<lambda>obs. notify obs bs) (observers_at srv addr) s = Inr s' \<and>
     srv' = srv\<lparr>observers := (observers srv)(addr \<mapsto> observers_at srv addr)\<rparr>"
  by (auto simp: UDPServer_NotifyAll_def Let_def)

lemma NotifyAll_routing:
  assumes "UDPServer_NotifyAll notify bs addr (srv, s) = Inr (srv', s')"
  shows "observers_at srv' m = observers_at srv m"
  using assms by (auto simp: NotifyAll_eq observers_at_def split: option.splits)

lemma observers_at_Attach_all:
  "observers_at (fold (\<lambda>(obs, addr). UDPServer_Attach obs addr) subs s) m =
     observers_at s m @ map fst (filter (\<lambda>(obs, addr). addr = m) subs)"
  by (induction subs arbitrary: s) auto

lemma srv_on_Attach [simp]: "srv_on (UDPServer_Attach obs addr s) = srv_on s"
  by (simp add: UDPServer_Attach_def)

lemma srv_on_Attach_all:
  "srv_on (fold (\<lambda>(obs, a). UDPServer_Attach obs a) subs srv) = srv_on srv"
  by (induction subs arbitrary: srv) (simp_all add: case_prod_beta)

lemma map_sum_pair: "map_sum id snd (bind_result r (\<lambda>s. Inr (x, s))) = r"
  by (cases r) simp_all

section \<open>Properties\<close>

text \<open>
  Routing of datagrams. A running server with the subscriptions \<open>subs\<close> (observer and
  peer address, attached in this order) hands a non-empty datagram from \<open>addr\<close>, cut to the
  14 bytes of its buffer, to exactly the observers attached under \<open>addr\<close>, in the order of
  attachment and each as often as it was attached.
\<close>

lemma UDPServer_routes:
  assumes "srv_on srv" and "observers srv = Map.empty" and "dgram \<noteq> []"
  shows "map_sum id snd (UDPServer_Receive notify (Some (dgram, addr))
      (fold (\<lambda>(obs, a). UDPServer_Attach obs a) subs srv, s)) =
    fold_result (\<lambda>obs. notify obs (take 14 dgram)) (map fst (filter (\<lambda>(obs, a). a = addr) subs)) s"
proof -
  let ?srv = "fold (\<lambda>(obs, a). UDPServer_Attach obs a) subs srv"
  have "observers_at ?srv addr = map fst (filter (\<lambda>(obs, a). a = addr) subs)"
    using assms(2) by (simp add: observers_at_Attach_all) (simp add: observers_at_def)
  then show ?thesis
    using assms(1,3)
    by (simp add: UDPServer_Receive_def UDPServer_NotifyAll_def Let_def UDP_SERVER_MAX_MSG_SIZE_def
        srv_on_Attach_all map_sum_pair)
qed

definition ex_udp_server :: "nat udp_server" where
  "ex_udp_server = \<lparr>srv_sockfd = 3, server_addr = Machine 0 0, srv_on = True, receive_thread = True,
     observers = Map.empty\<rparr>"

text \<open>
  The hash of \<^verbatim>\<open>Machine\<close> does not see the port: with a standard hash that maps no used port
  to 0 (the identity of the common implementations), all ports of one address collide, because
  \<^verbatim>\<open>h2 < 1\<close> is a comparison.
\<close>

lemma machine_hash_ignores_port:
  assumes "hash_port p \<noteq> 0" and "hash_port q \<noteq> 0"
  shows "machine_hash hash_addr hash_port (Machine a p) = machine_hash hash_addr hash_port (Machine a q)"
  using assms by (simp add: machine_hash_def word_less_1)

text \<open>A bad descriptor is accepted by both constructors of the client.\<close>

lemma UDPClient_bad_descriptor:
  "UDPClient_ctor (- 1) = Inr \<lparr>cl_sockfd = - 1, sock_owner = True\<rparr>"
  "UDPClient_ctor_fd (- 1) False = Inr \<lparr>cl_sockfd = - 1, sock_owner = False\<rparr>"
  by (simp_all add: UDPClient_ctor_def UDPClient_ctor_fd_def Let_def)

end
