(* ===== verification/Output_Logger.thy ===== *)
theory Output_Logger
  imports DA_Prelude
begin

text \<open>
  The output log (\<^verbatim>\<open>logger.hpp\<close>, \<^verbatim>\<open>logger.cpp\<close>): a \<^verbatim>\<open>std::ofstream\<close> that
  receives one line per event, and is flushed when the process is stopped. The state keeps
  the lines written to the open stream and the contents of the files on disk; whether the
  operating system lets a file be opened is the parameter \<open>can_open\<close>.
\<close>

record logger =
  lg_path :: string
  lg_is_open :: bool
  lg_lines :: "string list"
  lg_disk :: "string \<rightharpoonup> string list"

definition Logger_file_open :: "(string \<Rightarrow> bool) \<Rightarrow> string \<Rightarrow> logger \<Rightarrow> logger" where
  "Logger_file_open can_open fname l =
     (if can_open fname
      then l\<lparr>lg_path := fname, lg_is_open := True, lg_lines := [], lg_disk := (lg_disk l)(fname \<mapsto> [])\<rparr>
      else l\<lparr>lg_is_open := False, lg_lines := []\<rparr>)"

definition Logger_Flush :: "logger \<Rightarrow> logger" where
  "Logger_Flush l = (if lg_is_open l then l\<lparr>lg_disk := (lg_disk l)(lg_path l \<mapsto> lg_lines l)\<rparr> else l)"

definition Logger_file_close :: "logger \<Rightarrow> logger" where
  "Logger_file_close l = (Logger_Flush l)\<lparr>lg_is_open := False\<rparr>"

definition Logger_ctor :: "(string \<Rightarrow> bool) \<Rightarrow> (string \<rightharpoonup> string list) \<Rightarrow> string \<Rightarrow> logger" where
  "Logger_ctor can_open disk fname =
     Logger_file_open can_open fname
       \<lparr>lg_path = [], lg_is_open = False, lg_lines = [], lg_disk = disk\<rparr>"

definition Logger_dtor :: "logger \<Rightarrow> logger" where
  "Logger_dtor l = Logger_file_close l"

definition Logger_Open :: "(string \<Rightarrow> bool) \<Rightarrow> string \<Rightarrow> logger \<Rightarrow> logger" where
  "Logger_Open can_open fname l =
     Logger_file_open can_open fname (if lg_is_open l then Logger_file_close l else l)"

definition Logger_write :: "logger \<Rightarrow> string \<Rightarrow> logger" where
  "Logger_write l line = (if lg_is_open l then l\<lparr>lg_lines := lg_lines l @ [line]\<rparr> else l)"

lemmas Logger_defs = Logger_file_open_def Logger_Flush_def Logger_file_close_def Logger_ctor_def
  Logger_dtor_def Logger_Open_def Logger_write_def

lemma Logger_write_open [simp]: "lg_is_open (Logger_write l x) = lg_is_open l"
  by (simp add: Logger_write_def)

lemma Logger_write_lines:
  "lg_lines (Logger_write l x) = (if lg_is_open l then lg_lines l @ [x] else lg_lines l)"
  by (simp add: Logger_write_def)

lemma Logger_write_path [simp]: "lg_path (Logger_write l x) = lg_path l"
  by (simp add: Logger_write_def)

lemma fold_Logger_write:
  "fold (\<lambda>x l. Logger_write l x) xs l =
     (if lg_is_open l then l\<lparr>lg_lines := lg_lines l @ xs\<rparr> else l)"
  by (induction xs arbitrary: l) (auto simp: Logger_write_def)

end
