(* ===== verification/Perfect_Link.thy ===== *)
theory Perfect_Link
  imports Complex_Main UDP Output_Logger
begin

text \<open>
  \<^verbatim>\<open>PerfectLink\<close>, \<^verbatim>\<open>PerfectLink::Manager\<close> and \<^verbatim>\<open>PerfectLink::BasicManager\<close>
  (\<^verbatim>\<open>perfect_link.hpp\<close>, \<^verbatim>\<open>perfect_link.cpp\<close>): a stubborn sender with acknowledgements
  and a receiver that suppresses duplicates, over datagrams that can be lost, repeated and
  reordered. A manager owns the links of a process; a link calls back into its managers,
  which may use the same link again, so \<^verbatim>\<open>PerfectLink::Notify\<close> works on the state of the
  manager with the link addressed by the identifier of its peer.

  The unordered containers are sets and maps. Where a loop over one of them has an
  observable order, the order is an argument (\<open>ord\<close>), so every theorem holds for any order.
\<close>

section \<open>Packets\<close>

record pl_message =
  pm_seq :: u32
  pm_payload :: bytes

datatype packet = Msg pl_message | Ack u32

definition kACK :: u8 where "kACK = 0"
definition kMSG :: u8 where "kMSG = 1"

text \<open>\<^verbatim>\<open>sizeof(PacketType) + sizeof(Message::Seq)\<close>.\<close>

definition kPacketPrefixSize :: nat where
  "kPacketPrefixSize = 1 + 4"

definition PL_Serialize :: "pl_message \<Rightarrow> bytes" where
  "PL_Serialize msg = [kMSG] @ u32_bytes (pm_seq msg) @ pm_payload msg"

definition PL_ack_packet :: "u32 \<Rightarrow> bytes" where
  "PL_ack_packet ack_id = [kACK] @ u32_bytes ack_id"

definition PL_Parse :: "bytes \<Rightarrow> packet option" where
  "PL_Parse bs =
     (if length bs < kPacketPrefixSize then None
      else if bs ! 0 = kMSG then
        Some (Msg \<lparr>pm_seq = u32_of_bytes (take 4 (drop 1 bs)), pm_payload = drop kPacketPrefixSize bs\<rparr>)
      else if bs ! 0 = kACK then
        Some (Ack (u32_of_bytes (take 4 (drop 1 bs))))
      else None)"

text \<open>Filling a stack buffer of \<open>cap\<close> bytes.\<close>

definition write_buffer :: "nat \<Rightarrow> bytes \<Rightarrow> bytes result" where
  "write_buffer cap bs = (if length bs \<le> cap then Inr bs else Inl Buffer_Overflow)"

section \<open>The link\<close>

text \<open>The manager object of a process; a link keeps a pointer to it per subscription.\<close>

datatype manager_ptr = This_Manager

record perfect_link =
  pl_id :: u32
  pl_target_id :: u32
  pl_target_addr :: machine
  pl_n_messages_sent :: u32
  acks_to_send :: "u32 set"
  messages_to_send :: "u32 \<rightharpoonup> bytes"
  messages_delivered :: "u32 \<rightharpoonup> time"
  managers :: "manager_ptr list"

definition kFinishSendingAllMsgsMs :: rat where
  "kFinishSendingAllMsgsMs = 100"

definition kStopSendingAcksTimeoutSec :: rat where
  "kStopSendingAcksTimeoutSec = (kFinishSendingAllMsgsMs + 250 + 100) / 1000"

definition kRemoveFromDelivered :: rat where
  "kRemoveFromDelivered = kStopSendingAcksTimeoutSec * 20"

definition difftime :: "time \<Rightarrow> time \<Rightarrow> rat" where
  "difftime t1 t0 = of_int (t1 - t0)"

text \<open>The constructor attaches the link to the server under the address of its peer.\<close>

definition PerfectLink_ctor ::
  "u32 \<Rightarrow> u32 \<Rightarrow> u32 \<Rightarrow> u16 \<Rightarrow> u32 udp_server \<Rightarrow> perfect_link \<times> u32 udp_server" where
  "PerfectLink_ctor i target_id target_ip target_port srv =
     (let addr = UDPClient_Address target_ip target_port
      in (\<lparr>pl_id = i, pl_target_id = target_id, pl_target_addr = addr, pl_n_messages_sent = 1,
           acks_to_send = {}, messages_to_send = Map.empty, messages_delivered = Map.empty,
           managers = []\<rparr>,
          UDPServer_Attach target_id addr srv))"

text \<open>
  \<^verbatim>\<open>messages_to_send_\<close> is a set of messages whose equality compares the sequence number
  only: a map from sequence number to payload, in which \<^verbatim>\<open>insert\<close> keeps an old entry.
\<close>

definition PL_Send :: "bytes \<Rightarrow> perfect_link \<Rightarrow> u32 \<times> perfect_link" where
  "PL_Send payload pl =
     (let i = pl_n_messages_sent pl
      in (i, pl\<lparr>pl_n_messages_sent := i + 1,
               messages_to_send :=
                 (if messages_to_send pl i = None then (messages_to_send pl)(i \<mapsto> payload)
                  else messages_to_send pl)\<rparr>))"

definition string_bytes :: "string \<Rightarrow> bytes" where
  "string_bytes s = map of_char s"

definition PL_Send_string :: "string \<Rightarrow> perfect_link \<Rightarrow> u32 \<times> perfect_link" where
  "PL_Send_string msg pl = PL_Send (string_bytes msg) pl"

definition PL_Subscribe :: "manager_ptr \<Rightarrow> perfect_link \<Rightarrow> perfect_link" where
  "PL_Subscribe mgr pl = pl\<lparr>managers := managers pl @ [mgr]\<rparr>"

type_synonym dgram = "bytes \<times> machine"

text \<open>
  \<^verbatim>\<open>client_.Send\<close> inside a \<^verbatim>\<open>try\<close>: a send that throws is reported on the error stream and
  the loop goes on. The result is what left the process.
\<close>

definition try_send :: "(bytes \<Rightarrow> machine \<Rightarrow> int result) \<Rightarrow> dgram \<Rightarrow> dgram list" where
  "try_send send d = (case send (fst d) (snd d) of Inl e \<Rightarrow> [] | Inr n \<Rightarrow> [d])"

text \<open>
  \<^verbatim>\<open>CleanAcks\<close>: \<open>ord\<close> is the order in which \<^verbatim>\<open>messages_delivered_\<close> is traversed,
  \<open>strong\<close> tells whether \<^verbatim>\<open>PERFECT_LINKS_STRONG\<close> is defined.
\<close>

definition acks_to_remove :: "time \<Rightarrow> u32 list \<Rightarrow> (u32 \<rightharpoonup> time) \<Rightarrow> (u32 \<times> bool) list" where
  "acks_to_remove now ord delivered =
     concat (map (\<lambda>s. case delivered s of
         None \<Rightarrow> []
       | Some t \<Rightarrow>
           (let delta = difftime now t
            in if delta \<ge> kStopSendingAcksTimeoutSec then [(s, delta \<ge> kRemoveFromDelivered)] else []))
       ord)"

definition PL_CleanAcks :: "bool \<Rightarrow> time \<Rightarrow> u32 list \<Rightarrow> perfect_link \<Rightarrow> perfect_link" where
  "PL_CleanAcks strong now ord pl =
     (let rm = acks_to_remove now ord (messages_delivered pl);
          delivered = (if strong then messages_delivered pl
             else fold (\<lambda>(s, remove_from_delivered) m. if remove_from_delivered then m(s := None) else m)
                    rm (messages_delivered pl))
      in pl\<lparr>messages_delivered := delivered,
            acks_to_send := fold (\<lambda>(s, _) A. A - {s}) rm (acks_to_send pl)\<rparr>)"

definition PL_SendAcks ::
  "(bytes \<Rightarrow> machine \<Rightarrow> int result) \<Rightarrow> bool \<Rightarrow> time \<Rightarrow> u32 list \<Rightarrow> u32 list \<Rightarrow> perfect_link
     \<Rightarrow> dgram list \<times> perfect_link" where
  "PL_SendAcks send strong now ord_acks ord_delivered pl =
     (if acks_to_send pl = {} then ([], pl)
      else (concat (map (\<lambda>a. try_send send (PL_ack_packet a, pl_target_addr pl)) ord_acks),
            PL_CleanAcks strong now ord_delivered pl))"

fun PL_send_loop ::
  "(bytes \<Rightarrow> machine \<Rightarrow> int result) \<Rightarrow> perfect_link \<Rightarrow> u32 list \<Rightarrow> dgram list result" where
  "PL_send_loop send pl [] = Inr []"
| "PL_send_loop send pl (s # ord) =
     (case messages_to_send pl s of
        None \<Rightarrow> PL_send_loop send pl ord
      | Some payload \<Rightarrow>
          bind_result (write_buffer kMaxSendSize (PL_Serialize \<lparr>pm_seq = s, pm_payload = payload\<rparr>))
            (\<lambda>buffer. bind_result (PL_send_loop send pl ord)
               (\<lambda>rest. Inr (try_send send (take (kPacketPrefixSize + length payload) buffer,
                                              pl_target_addr pl) @ rest))))"

text \<open>
  \<open>ord\<close> enumerates \<^verbatim>\<open>messages_to_send_\<close>, so the set is empty when the enumeration is.
\<close>

definition PL_SendMessages ::
  "(bytes \<Rightarrow> machine \<Rightarrow> int result) \<Rightarrow> u32 list \<Rightarrow> perfect_link \<Rightarrow> dgram list result" where
  "PL_SendMessages send ord pl =
     (if ord = [] then Inr [] else PL_send_loop send pl ord)"

section \<open>The manager\<close>

record manager =
  n_processes :: u32
  ack_thread :: bool
  send_thread :: bool
  on :: bool
  mgr_logger :: logger
  perfect_links :: "u32 \<rightharpoonup> perfect_link"

definition Manager_init :: "logger \<Rightarrow> manager" where
  "Manager_init l = \<lparr>n_processes = 1, ack_thread = False, send_thread = False, on = False,
     mgr_logger = l, perfect_links = Map.empty\<rparr>"

definition log_line :: "string \<Rightarrow> 'a manager_scheme \<Rightarrow> 'a manager_scheme" where
  "log_line s m = m\<lparr>mgr_logger := Logger_write (mgr_logger m) s\<rparr>"

definition update_link :: "u32 \<Rightarrow> (perfect_link \<Rightarrow> perfect_link) \<Rightarrow> 'a manager_scheme \<Rightarrow> 'a manager_scheme" where
  "update_link i f m = m\<lparr>perfect_links := (perfect_links m)(i := map_option f (perfect_links m i))\<rparr>"

definition Manager_Start :: "'a manager_scheme \<Rightarrow> 'a manager_scheme result" where
  "Manager_Start m =
     (if ack_thread m \<or> send_thread m then Inl Terminate
      else Inr (m\<lparr>on := True, ack_thread := True, send_thread := True\<rparr>))"

definition Manager_Stop :: "'a manager_scheme \<Rightarrow> 'a manager_scheme" where
  "Manager_Stop m = (if on m then m\<lparr>on := False, ack_thread := False, send_thread := False\<rparr> else m)"

definition Manager_Add :: "perfect_link \<Rightarrow> 'a manager_scheme \<Rightarrow> 'a manager_scheme" where
  "Manager_Add pl m =
     m\<lparr>perfect_links := (perfect_links m)(pl_target_id pl \<mapsto> PL_Subscribe This_Manager pl),
       n_processes := n_processes m + 1\<rparr>"

text \<open>
  One turn of the loops of the two sender threads. \<open>links\<close> is the order of
  \<^verbatim>\<open>perfect_links_\<close>; the orders inside a link are given per link.
\<close>

definition Manager_SendAcks ::
  "(bytes \<Rightarrow> machine \<Rightarrow> int result) \<Rightarrow> bool \<Rightarrow> time \<Rightarrow> u32 list \<Rightarrow> (u32 \<Rightarrow> u32 list) \<Rightarrow> (u32 \<Rightarrow> u32 list)
     \<Rightarrow> 'a manager_scheme \<Rightarrow> dgram list \<times> 'a manager_scheme" where
  "Manager_SendAcks send strong now links ord_acks ord_delivered m =
     (if on m then
        fold (\<lambda>i (out, m).
            case perfect_links m i of
              None \<Rightarrow> (out, m)
            | Some pl \<Rightarrow>
                (let r = PL_SendAcks send strong now (ord_acks i) (ord_delivered i) pl
                 in (out @ fst r, update_link i (\<lambda>_. snd r) m)))
          links ([], m)
      else ([], m))"

fun Manager_send_loop ::
  "(bytes \<Rightarrow> machine \<Rightarrow> int result) \<Rightarrow> u32 list \<Rightarrow> (u32 \<Rightarrow> u32 list) \<Rightarrow> 'a manager_scheme \<Rightarrow> dgram list result" where
  "Manager_send_loop send [] ord m = Inr []"
| "Manager_send_loop send (i # links) ord m =
     (case perfect_links m i of
        None \<Rightarrow> Manager_send_loop send links ord m
      | Some pl \<Rightarrow>
          bind_result (PL_SendMessages send (ord i) pl)
            (\<lambda>out. bind_result (Manager_send_loop send links ord m) (\<lambda>rest. Inr (out @ rest))))"

definition Manager_SendMessages ::
  "(bytes \<Rightarrow> machine \<Rightarrow> int result) \<Rightarrow> u32 list \<Rightarrow> (u32 \<Rightarrow> u32 list) \<Rightarrow> 'a manager_scheme \<Rightarrow> dgram list result" where
  "Manager_SendMessages send links ord m =
     (if on m then Manager_send_loop send links ord m else Inr [])"

text \<open>
  \<^verbatim>\<open>PerfectLink::Notify\<close> on the link to \<open>this\<close>. \<open>notify\<close> is the virtual
  \<^verbatim>\<open>Manager::Notify\<close>, \<open>now\<close> the value of \<^verbatim>\<open>std::time(nullptr)\<close>.
\<close>

type_synonym 's notify = "u32 \<Rightarrow> pl_message \<Rightarrow> 's \<Rightarrow> 's result"

definition PL_Notify ::
  "'a manager_scheme notify \<Rightarrow> time \<Rightarrow> u32 \<Rightarrow> bytes \<Rightarrow> 'a manager_scheme \<Rightarrow> 'a manager_scheme result" where
  "PL_Notify notify now this bs m =
     (case perfect_links m this of
        None \<Rightarrow> Inl Dangling_Pointer
      | Some pl \<Rightarrow>
          (case PL_Parse bs of
             None \<Rightarrow> Inr m
           | Some (Msg message) \<Rightarrow>
               (let m1 = update_link this (\<lambda>pl. pl\<lparr>acks_to_send := insert (pm_seq message) (acks_to_send pl)\<rparr>) m;
                    unseen = (messages_delivered pl (pm_seq message) = None)
                in bind_result
                     (if unseen
                      then fold_result (\<lambda>manager. notify (pl_target_id pl) message) (managers pl) m1
                      else Inr m1)
                     (\<lambda>m2. Inr (update_link this
                        (\<lambda>pl. pl\<lparr>messages_delivered := (messages_delivered pl)(pm_seq message \<mapsto> now)\<rparr>) m2)))
           | Some (Ack ack_id) \<Rightarrow>
               Inr (update_link this (\<lambda>pl. pl\<lparr>messages_to_send := (messages_to_send pl)(ack_id := None)\<rparr>) m)))"

section \<open>BasicManager\<close>

definition deliver_line :: "u32 \<Rightarrow> u32 \<Rightarrow> string" where
  "deliver_line sender s = ''d '' @ show_u32 sender @ '' '' @ show_u32 s"

definition broadcast_line :: "u32 \<Rightarrow> string" where
  "broadcast_line s = ''b '' @ show_u32 s"

definition BasicManager_Send :: "u32 \<Rightarrow> string \<Rightarrow> 'a manager_scheme \<Rightarrow> 'a manager_scheme" where
  "BasicManager_Send receiver_id msg m =
     (case perfect_links m receiver_id of
        None \<Rightarrow> m
      | Some pl \<Rightarrow>
          (let r = PL_Send_string msg pl
           in log_line (broadcast_line (fst r)) (update_link receiver_id (\<lambda>_. snd r) m)))"

definition BasicManager_Notify :: "'a manager_scheme notify" where
  "BasicManager_Notify sender_id msg m = Inr (log_line (deliver_line sender_id (pm_seq msg)) m)"

section \<open>Specifications\<close>

text \<open>The image of a packet on the wire.\<close>

fun packet_bytes :: "packet \<Rightarrow> bytes" where
  "packet_bytes (Msg m) = PL_Serialize m"
| "packet_bytes (Ack a) = PL_ack_packet a"

text \<open>What happens to the links of an application that uses \<^verbatim>\<open>BasicManager\<close>.\<close>

datatype link_event =
    Ev_Recv time u32 bytes
  | Ev_Acks time "u32 list" "u32 \<Rightarrow> u32 list" "u32 \<Rightarrow> u32 list"
  | Ev_Send u32 string

fun link_step ::
  "(bytes \<Rightarrow> machine \<Rightarrow> int result) \<Rightarrow> bool \<Rightarrow> link_event \<Rightarrow> manager \<Rightarrow> manager result" where
  "link_step send strong (Ev_Recv now i bs) m = PL_Notify BasicManager_Notify now i bs m"
| "link_step send strong (Ev_Acks now links oa od) m =
     Inr (snd (Manager_SendAcks send strong now links oa od m))"
| "link_step send strong (Ev_Send i msg) m = Inr (BasicManager_Send i msg m)"

abbreviation link_run ::
  "(bytes \<Rightarrow> machine \<Rightarrow> int result) \<Rightarrow> bool \<Rightarrow> link_event list \<Rightarrow> manager \<Rightarrow> manager result" where
  "link_run send strong \<equiv> fold_result (link_step send strong)"

text \<open>
  A timely history: time does not go backwards and, in a build that forgets delivered
  messages, no copy of a message arrives nine seconds or more after the previous copy.
  \<open>seen\<close> holds the time of the seen copy.
\<close>

fun timely :: "bool \<Rightarrow> (u32 \<times> u32 \<rightharpoonup> time) \<Rightarrow> time \<Rightarrow> link_event list \<Rightarrow> bool" where
  "timely strong seen t [] \<longleftrightarrow> True"
| "timely strong seen t (Ev_Recv now i bs # evs) \<longleftrightarrow>
     t \<le> now \<and>
     (case PL_Parse bs of
        Some (Msg m) \<Rightarrow>
          (case seen (i, pm_seq m) of None \<Rightarrow> True | Some t' \<Rightarrow> strong \<or> now - t' < 9) \<and>
          timely strong (seen((i, pm_seq m) \<mapsto> now)) now evs
      | _ \<Rightarrow> timely strong seen now evs)"
| "timely strong seen t (Ev_Acks now links oa od # evs) \<longleftrightarrow> t \<le> now \<and> timely strong seen now evs"
| "timely strong seen t (Ev_Send i msg # evs) \<longleftrightarrow> timely strong seen t evs"

text \<open>The links as the driver creates them: one subscription each, nothing received yet.\<close>

definition fresh_links :: "'a manager_scheme \<Rightarrow> bool" where
  "fresh_links m \<longleftrightarrow> (\<forall>i pl. perfect_links m i = Some pl \<longrightarrow>
     pl_target_id pl = i \<and> managers pl = [This_Manager] \<and> messages_delivered pl = Map.empty)"

section \<open>Codec\<close>

lemma kPacketPrefixSize_5 [simp]: "kPacketPrefixSize = 5"
  by (simp add: kPacketPrefixSize_def)

lemma kMaxSendSize_14 [simp]: "kMaxSendSize = 14"
  by (simp add: UDP_SERVER_MAX_MSG_SIZE_def)

lemma length_PL_Serialize [simp]: "length (PL_Serialize m) = kPacketPrefixSize + length (pm_payload m)"
  by (simp add: PL_Serialize_def)

lemma PL_Parse_Serialize [simp]: "PL_Parse (PL_Serialize m) = Some (Msg m)"
  by (simp add: PL_Parse_def PL_Serialize_def)

lemma PL_Parse_ack_packet [simp]: "PL_Parse (PL_ack_packet a) = Some (Ack a)"
  by (simp add: PL_Parse_def PL_ack_packet_def kMSG_def kACK_def)

interpretation pl_codec: byte_codec packet_bytes PL_Parse
proof unfold_locales
  fix p show "PL_Parse (packet_bytes p) = Some p"
    by (cases p) simp_all
qed

lemma PL_Parse_MsgD:
  assumes "PL_Parse bs = Some (Msg m)"
  shows "bs = PL_Serialize m"
proof -
  from assms have len: "5 \<le> length bs" and hd: "bs ! 0 = kMSG"
    and m: "m = \<lparr>pm_seq = u32_of_bytes (take 4 (drop 1 bs)), pm_payload = drop 5 bs\<rparr>"
    by (auto simp: PL_Parse_def split: if_splits)
  from len obtain b bs' where bs: "bs = b # bs'" by (cases bs) auto
  with len have "u32_bytes (u32_of_bytes (take 4 bs')) = take 4 bs'"
    by (intro u32_bytes_u32_of_bytes) simp
  with m hd bs show ?thesis
    by (simp add: PL_Serialize_def)
qed

lemma PL_Parse_Msg_iff: "PL_Parse bs = Some (Msg m) \<longleftrightarrow> bs = PL_Serialize m"
  using PL_Parse_MsgD by auto

lemma PL_Parse_None_iff:
  "PL_Parse bs = None \<longleftrightarrow> length bs < 5 \<or> bs ! 0 \<notin> {kMSG, kACK}"
  by (auto simp: PL_Parse_def)

section \<open>Frame lemmas\<close>

lemma perfect_links_update_link [simp]:
  "perfect_links (update_link i f m) j =
     (if j = i then map_option f (perfect_links m i) else perfect_links m j)"
  by (simp add: update_link_def)

lemma update_link_frame [simp]:
  "mgr_logger (update_link i f m) = mgr_logger m"
  "on (update_link i f m) = on m"
  "n_processes (update_link i f m) = n_processes m"
  "manager.more (update_link i f m) = manager.more m"
  by (simp_all add: update_link_def)

lemma log_line_frame [simp]:
  "perfect_links (log_line s m) = perfect_links m"
  "on (log_line s m) = on m"
  "n_processes (log_line s m) = n_processes m"
  "mgr_logger (log_line s m) = Logger_write (mgr_logger m) s"
  "manager.more (log_line s m) = manager.more m"
  by (simp_all add: log_line_def)

lemma PL_CleanAcks_frame [simp]:
  "pl_id (PL_CleanAcks strong now ord pl) = pl_id pl"
  "pl_target_id (PL_CleanAcks strong now ord pl) = pl_target_id pl"
  "pl_target_addr (PL_CleanAcks strong now ord pl) = pl_target_addr pl"
  "messages_to_send (PL_CleanAcks strong now ord pl) = messages_to_send pl"
  "pl_n_messages_sent (PL_CleanAcks strong now ord pl) = pl_n_messages_sent pl"
  "managers (PL_CleanAcks strong now ord pl) = managers pl"
  by (simp_all add: PL_CleanAcks_def Let_def)

lemma PL_SendAcks_frame [simp]:
  "pl_target_id (snd (PL_SendAcks send strong now oa od pl)) = pl_target_id pl"
  "pl_target_addr (snd (PL_SendAcks send strong now oa od pl)) = pl_target_addr pl"
  "messages_to_send (snd (PL_SendAcks send strong now oa od pl)) = messages_to_send pl"
  "pl_n_messages_sent (snd (PL_SendAcks send strong now oa od pl)) = pl_n_messages_sent pl"
  "managers (snd (PL_SendAcks send strong now oa od pl)) = managers pl"
  by (simp_all add: PL_SendAcks_def)

lemma PL_Send_frame [simp]:
  "pl_target_id (snd (PL_Send p pl)) = pl_target_id pl"
  "pl_target_addr (snd (PL_Send p pl)) = pl_target_addr pl"
  "messages_delivered (snd (PL_Send p pl)) = messages_delivered pl"
  "acks_to_send (snd (PL_Send p pl)) = acks_to_send pl"
  "managers (snd (PL_Send p pl)) = managers pl"
  "fst (PL_Send p pl) = pl_n_messages_sent pl"
  "pl_n_messages_sent (snd (PL_Send p pl)) = pl_n_messages_sent pl + 1"
  by (simp_all add: PL_Send_def Let_def)

lemma PL_Send_messages:
  "messages_to_send (snd (PL_Send p pl)) s =
     (if s = pl_n_messages_sent pl \<and> messages_to_send pl s = None then Some p
      else messages_to_send pl s)"
  by (auto simp: PL_Send_def Let_def)

section \<open>Cleaning the acknowledgements\<close>

text \<open>
  \<^verbatim>\<open>std::time_t\<close> counts whole seconds, so the time-outs of 0.45 s and 9 s compare as one
  second and nine seconds.
\<close>

lemma stop_acks_iff: "kStopSendingAcksTimeoutSec \<le> difftime now t \<longleftrightarrow> 1 \<le> now - t"
proof -
  have "(9 / 20 :: rat) \<le> of_int (now - t) \<longleftrightarrow> 1 \<le> now - t"
  proof
    assume "(9 / 20 :: rat) \<le> of_int (now - t)"
    then have "0 < (of_int (now - t) :: rat)" by linarith
    then show "1 \<le> now - t" by (simp only: of_int_0_less_iff)
  next
    assume "1 \<le> now - t"
    then have "(1 :: rat) \<le> of_int (now - t)" by (simp only: of_int_1_le_iff)
    then show "(9 / 20 :: rat) \<le> of_int (now - t)" by linarith
  qed
  then show ?thesis
    by (simp add: kStopSendingAcksTimeoutSec_def kFinishSendingAllMsgsMs_def difftime_def)
qed

lemma remove_delivered_iff: "kRemoveFromDelivered \<le> difftime now t \<longleftrightarrow> 9 \<le> now - t"
proof -
  have "(9 :: rat) \<le> of_int (now - t) \<longleftrightarrow> 9 \<le> now - t"
    by (metis of_int_numeral of_int_le_iff)
  then show ?thesis
    by (simp add: kRemoveFromDelivered_def kStopSendingAcksTimeoutSec_def kFinishSendingAllMsgsMs_def
        difftime_def)
qed

lemma set_acks_to_remove:
  "(s, r) \<in> set (acks_to_remove now ord D) \<longleftrightarrow>
     s \<in> set ord \<and> (\<exists>t. D s = Some t \<and> 1 \<le> now - t \<and> r = (9 \<le> now - t))"
proof -
  have *: "(s, r) \<in> set (case D x of None \<Rightarrow> []
        | Some t \<Rightarrow> if 1 \<le> now - t then [(x, 9 \<le> now - t)] else []) \<longleftrightarrow>
      x = s \<and> (\<exists>t. D s = Some t \<and> 1 \<le> now - t \<and> r = (9 \<le> now - t))" for x
    by (cases "D x") auto
  show ?thesis
    unfolding acks_to_remove_def stop_acks_iff remove_delivered_iff Let_def
    by (simp only: set_concat set_map image_image UN_iff *) blast
qed

lemma fold_forget:
  "fold (\<lambda>(s, r) m. if r then m(s := None) else m) rm D s =
     (if (s, True) \<in> set rm then None else D s)"
  by (induction rm arbitrary: D) (auto split: prod.splits)

lemma fold_erase_acks: "fold (\<lambda>(s, _) A. A - {s}) rm A = A - fst ` set rm"
  by (induction rm arbitrary: A) (auto split: prod.splits)

lemma PL_CleanAcks_delivered:
  "messages_delivered (PL_CleanAcks strong now ord pl) s =
     (case messages_delivered pl s of
        None \<Rightarrow> None
      | Some t \<Rightarrow> if \<not> strong \<and> s \<in> set ord \<and> 9 \<le> now - t then None else Some t)"
  by (auto simp: PL_CleanAcks_def Let_def fold_forget set_acks_to_remove split: option.splits)

lemma PL_CleanAcks_acks:
  "a \<in> acks_to_send (PL_CleanAcks strong now ord pl) \<longleftrightarrow>
     a \<in> acks_to_send pl \<and>
     (a \<in> set ord \<longrightarrow> (case messages_delivered pl a of None \<Rightarrow> True | Some t \<Rightarrow> now - t < 1))"
proof -
  have "a \<in> fst ` set (acks_to_remove now ord D) \<longleftrightarrow>
      a \<in> set ord \<and> (\<exists>t. D a = Some t \<and> 1 \<le> now - t)" for D
    by (auto simp: set_acks_to_remove image_iff Bex_def simp del: split_paired_Ex)
      (auto simp: set_acks_to_remove)
  then show ?thesis
    by (auto simp: PL_CleanAcks_def Let_def fold_erase_acks split: option.splits)
qed

lemma PL_CleanAcks_spec:
  assumes "set ord = dom (messages_delivered pl)"
  shows "PL_CleanAcks strong now ord pl =
      pl\<lparr>messages_delivered := (\<lambda>s. case messages_delivered pl s of None \<Rightarrow> None
           | Some t \<Rightarrow> if \<not> strong \<and> 9 \<le> now - t then None else Some t),
         acks_to_send := {a \<in> acks_to_send pl.
           case messages_delivered pl a of None \<Rightarrow> True | Some t \<Rightarrow> now - t < 1}\<rparr>"
proof -
  have "messages_delivered (PL_CleanAcks strong now ord pl) =
     (\<lambda>s. case messages_delivered pl s of None \<Rightarrow> None
       | Some t \<Rightarrow> if \<not> strong \<and> 9 \<le> now - t then None else Some t)"
    by (rule ext) (auto simp: PL_CleanAcks_delivered assms split: option.splits)
  moreover have "acks_to_send (PL_CleanAcks strong now ord pl) = {a \<in> acks_to_send pl.
      case messages_delivered pl a of None \<Rightarrow> True | Some t \<Rightarrow> now - t < 1}"
    by (auto simp: PL_CleanAcks_acks assms split: option.splits)
  ultimately show ?thesis
    by (intro perfect_link.equality) simp_all
qed

lemma PL_SendAcks_delivered:
  "messages_delivered (snd (PL_SendAcks send strong now oa od pl)) s =
     (case messages_delivered pl s of
        None \<Rightarrow> None
      | Some t \<Rightarrow> if acks_to_send pl \<noteq> {} \<and> \<not> strong \<and> s \<in> set od \<and> 9 \<le> now - t then None else Some t)"
  by (auto simp: PL_SendAcks_def PL_CleanAcks_delivered split: option.splits)

section \<open>Deliveries in the log\<close>

lemma space_split_inj:
  assumes "CHR '' '' \<notin> set a" "CHR '' '' \<notin> set b" "a @ '' '' @ x = b @ '' '' @ y"
  shows "a = b \<and> x = y"
proof -
  have "takeWhile (\<lambda>c. c \<noteq> CHR '' '') (p @ '' '' @ q) = p" if "CHR '' '' \<notin> set p" for p q
    using that by (subst takeWhile_append2) auto
  from this [OF assms(1)] this [OF assms(2)] assms(3) have "a = b" by metis
  with assms(3) show ?thesis by simp
qed

lemma deliver_line_inj [simp]: "deliver_line i s = deliver_line j t \<longleftrightarrow> i = j \<and> s = t"
proof
  assume "deliver_line i s = deliver_line j t"
  then have "show_u32 i @ '' '' @ show_u32 s = show_u32 j @ '' '' @ show_u32 t"
    by (simp add: deliver_line_def)
  from space_split_inj [OF show_u32_no_space show_u32_no_space this] show "i = j \<and> s = t"
    by simp
qed simp

lemma broadcast_line_neq_deliver_line [simp]:
  "broadcast_line s \<noteq> deliver_line i t" "deliver_line i t \<noteq> broadcast_line s"
  by (auto simp: broadcast_line_def deliver_line_def)

lemma broadcast_line_inj [simp]: "broadcast_line s = broadcast_line t \<longleftrightarrow> s = t"
  by (simp add: broadcast_line_def)

abbreviation deliveries :: "'a manager_scheme \<Rightarrow> u32 \<Rightarrow> u32 \<Rightarrow> nat" where
  "deliveries m i s \<equiv> count_list (lg_lines (mgr_logger m)) (deliver_line i s)"

lemma count_Logger_write:
  "count_list (lg_lines (Logger_write l x)) y =
     count_list (lg_lines l) y + (if lg_is_open l \<and> x = y then 1 else 0)"
  by (simp add: Logger_write_def)

section \<open>At most one delivery\<close>

lemma Manager_SendAcks_induct:
  assumes "P m"
    and "\<And>m i pl. P m \<Longrightarrow> perfect_links m i = Some pl \<Longrightarrow>
       P (update_link i (\<lambda>_. snd (PL_SendAcks send strong now (oa i) (od i) pl)) m)"
  shows "P (snd (Manager_SendAcks send strong now links oa od m))"
proof -
  let ?f = "\<lambda>i (out, m). case perfect_links m i of None \<Rightarrow> (out, m)
    | Some pl \<Rightarrow> (let r = PL_SendAcks send strong now (oa i) (od i) pl
                 in (out @ fst r, update_link i (\<lambda>_. snd r) m))"
  have "P (snd (fold ?f links (out, m)))" if "P m" for out m
    using that
  proof (induction links arbitrary: out m)
    case Nil
    then show ?case by simp
  next
    case (Cons i links)
    then show ?case
      by (cases "perfect_links m i") (auto simp: Let_def assms(2))
  qed
  with assms(1) show ?thesis
    by (simp add: Manager_SendAcks_def)
qed

definition link_seen_ok ::
  "bool \<Rightarrow> time \<Rightarrow> time option \<Rightarrow> time option \<Rightarrow> nat \<Rightarrow> bool" where
  "link_seen_ok strong t seen delivered n \<longleftrightarrow>
     n \<le> 1 \<and>
     (case seen of
        None \<Rightarrow> n = 0 \<and> delivered = None
      | Some t' \<Rightarrow> delivered = Some t' \<or> (\<not> strong \<and> delivered = None \<and> t' + 9 \<le> t))"

definition wf_links :: "'a manager_scheme \<Rightarrow> bool" where
  "wf_links m \<longleftrightarrow> (\<forall>i pl. perfect_links m i = Some pl \<longrightarrow>
     pl_target_id pl = i \<and> managers pl = [This_Manager])"

definition delivered_at :: "'a manager_scheme \<Rightarrow> u32 \<Rightarrow> u32 \<Rightarrow> time option" where
  "delivered_at m i s = Option.bind (perfect_links m i) (\<lambda>pl. messages_delivered pl s)"

definition dup_inv :: "bool \<Rightarrow> (u32 \<times> u32 \<rightharpoonup> time) \<Rightarrow> time \<Rightarrow> 'a manager_scheme \<Rightarrow> bool" where
  "dup_inv strong seen t m \<longleftrightarrow> wf_links m \<and>
     (\<forall>i s. link_seen_ok strong t (seen (i, s)) (delivered_at m i s) (deliveries m i s))"

lemma wf_links_update:
  assumes "wf_links m"
    and "\<And>pl. perfect_links m i = Some pl \<Longrightarrow>
       pl_target_id (f pl) = pl_target_id pl \<and> managers (f pl) = managers pl"
  shows "wf_links (update_link i f m)"
  using assms by (auto simp: wf_links_def)

lemma delivered_at_update:
  "delivered_at (update_link i f m) j s =
     (if j = i then Option.bind (perfect_links m i) (\<lambda>pl. messages_delivered (f pl) s)
      else delivered_at m j s)"
  by (cases "perfect_links m i") (simp_all add: delivered_at_def)

lemma delivered_at_log_line [simp]: "delivered_at (log_line x m) = delivered_at m"
  by (simp add: delivered_at_def fun_eq_iff)

lemma wf_links_log_line [simp]: "wf_links (log_line x m) = wf_links m"
  by (simp add: wf_links_def)

lemma delivered_at_link [simp]:
  "perfect_links m i = Some pl \<Longrightarrow> delivered_at m i s = messages_delivered pl s"
  by (simp add: delivered_at_def)

lemma link_seen_ok_later:
  "link_seen_ok strong t seen d n \<Longrightarrow> t \<le> t' \<Longrightarrow> link_seen_ok strong t' seen d n"
  by (auto simp: link_seen_ok_def split: option.splits)

lemma dup_inv_later: "dup_inv strong seen t m \<Longrightarrow> t \<le> t' \<Longrightarrow> dup_inv strong seen t' m"
  by (auto simp: dup_inv_def intro: link_seen_ok_later)

lemma dup_inv_fresh:
  assumes "fresh_links m" and "lg_lines (mgr_logger m) = []"
  shows "dup_inv strong Map.empty t m"
  using assms
  by (auto simp: dup_inv_def fresh_links_def wf_links_def link_seen_ok_def delivered_at_def bind_eq_None_conv)

lemma dup_inv_update:
  assumes inv: "dup_inv strong seen t m" and pl: "perfect_links m i = Some pl"
    and frame: "pl_target_id (f pl) = pl_target_id pl" "managers (f pl) = managers pl"
    and ok: "\<And>s. link_seen_ok strong t (seen (i, s)) (messages_delivered (f pl) s) (deliveries m i s)"
  shows "dup_inv strong seen t (update_link i f m)"
proof -
  from inv pl frame have "wf_links (update_link i f m)"
    by (intro wf_links_update) (auto simp: dup_inv_def)
  with inv pl ok show ?thesis by (simp add: dup_inv_def delivered_at_update)
qed

lemma dup_inv_link:
  assumes "dup_inv strong seen t m" and "perfect_links m i = Some pl"
  shows "pl_target_id pl = i" "managers pl = [This_Manager]"
    "link_seen_ok strong t (seen (i, s)) (messages_delivered pl s) (deliveries m i s)"
  using assms by (auto simp: dup_inv_def wf_links_def) (metis delivered_at_link)

lemma dup_inv_SendAcks:
  assumes "dup_inv strong seen t m"
  shows "dup_inv strong seen t (snd (Manager_SendAcks send strong t links oa od m))"
proof (rule Manager_SendAcks_induct [of "dup_inv strong seen t"])
  fix m i pl
  assume inv: "dup_inv strong seen t m" and pl: "perfect_links m i = Some pl"
  show "dup_inv strong seen t (update_link i (\<lambda>_. snd (PL_SendAcks send strong t (oa i) (od i) pl)) m)"
  proof (rule dup_inv_update [OF inv pl])
    fix s
    from dup_inv_link(3) [OF inv pl, of s]
    show "link_seen_ok strong t (seen (i, s))
        (messages_delivered (snd (PL_SendAcks send strong t (oa i) (od i) pl)) s) (deliveries m i s)"
      by (auto simp: link_seen_ok_def PL_SendAcks_delivered split: option.splits)
  qed simp_all
qed (fact assms)

lemma dup_inv_log:
  assumes "dup_inv strong seen t m" and "\<And>i s. x \<noteq> deliver_line i s"
  shows "dup_inv strong seen t (log_line x m)"
  using assms by (simp add: dup_inv_def count_Logger_write)

lemma dup_inv_Send:
  assumes inv: "dup_inv strong seen t m"
  shows "dup_inv strong seen t (BasicManager_Send i msg m)"
proof (cases "perfect_links m i")
  case None
  with inv show ?thesis by (simp add: BasicManager_Send_def)
next
  case (Some pl)
  have "dup_inv strong seen t (update_link i (\<lambda>_. snd (PL_Send (string_bytes msg) pl)) m)"
    using dup_inv_link(3) [OF inv Some] by (intro dup_inv_update [OF inv Some]) simp_all
  then show ?thesis
    by (simp add: BasicManager_Send_def PL_Send_string_def Some Let_def dup_inv_log)
qed

text \<open>\<^verbatim>\<open>Notify\<close> of a message when the application is a \<^verbatim>\<open>BasicManager\<close>.\<close>

lemma PL_Notify_Basic_Msg:
  assumes "perfect_links m i = Some pl" "managers pl = [This_Manager]" "PL_Parse bs = Some (Msg msg)"
  shows "PL_Notify BasicManager_Notify now i bs m =
    Inr (update_link i (\<lambda>pl. pl\<lparr>messages_delivered := (messages_delivered pl)(pm_seq msg \<mapsto> now)\<rparr>)
       (if messages_delivered pl (pm_seq msg) = None
        then log_line (deliver_line (pl_target_id pl) (pm_seq msg))
          (update_link i (\<lambda>pl. pl\<lparr>acks_to_send := insert (pm_seq msg) (acks_to_send pl)\<rparr>) m)
        else update_link i (\<lambda>pl. pl\<lparr>acks_to_send := insert (pm_seq msg) (acks_to_send pl)\<rparr>) m))"
  using assms by (simp add: PL_Notify_def BasicManager_Notify_def Let_def)

lemma dup_inv_Notify_Msg:
  assumes inv: "dup_inv strong seen now m" and pl: "perfect_links m i = Some pl"
    and run: "PL_Notify BasicManager_Notify now i bs m = Inr m'"
    and msg: "PL_Parse bs = Some (Msg msg)"
    and fresh: "messages_delivered pl (pm_seq msg) = None \<Longrightarrow> deliveries m i (pm_seq msg) = 0"
  shows "dup_inv strong (seen((i, pm_seq msg) \<mapsto> now)) now m'"
proof -
  let ?s = "pm_seq msg"
  let ?acks = "update_link i (\<lambda>pl. pl\<lparr>acks_to_send := insert ?s (acks_to_send pl)\<rparr>) m"
  let ?stamp = "update_link i (\<lambda>pl. pl\<lparr>messages_delivered := (messages_delivered pl)(?s \<mapsto> now)\<rparr>)"
  note link = dup_inv_link [OF inv pl]
  have m': "m' = ?stamp (if messages_delivered pl ?s = None then log_line (deliver_line i ?s) ?acks else ?acks)"
    using trans [OF run [symmetric] PL_Notify_Basic_Msg [OF pl link(2) msg]]
    by (simp only: sum.inject link(1))
  have wf: "wf_links m'"
    using inv by (simp add: m' dup_inv_def wf_links_update)
  have "link_seen_ok strong now ((seen((i, ?s) \<mapsto> now)) (j, s)) (delivered_at m' j s) (deliveries m' j s)"
    for j s
  proof (cases "j = i \<and> s = ?s")
    case True
    with link(3) [of ?s] fresh show ?thesis
      by (auto simp: m' delivered_at_update pl link_seen_ok_def count_Logger_write)
  next
    case False
    then have "delivered_at m' j s = delivered_at m j s" "deliveries m' j s = deliveries m j s"
      by (auto simp: m' delivered_at_update pl count_Logger_write)
    with False inv show ?thesis
      by (simp add: dup_inv_def) (metis prod.inject)
  qed
  with wf show ?thesis by (simp add: dup_inv_def)
qed

lemma dup_inv_Notify:
  assumes inv: "dup_inv strong seen t m"
    and run: "PL_Notify BasicManager_Notify now i bs m = Inr m'"
    and ok: "timely strong seen t (Ev_Recv now i bs # evs)"
  shows "\<exists>seen'. dup_inv strong seen' now m' \<and> timely strong seen' now evs"
proof -
  from run obtain pl where pl: "perfect_links m i = Some pl"
    by (auto simp: PL_Notify_def split: option.splits)
  from ok have t: "t \<le> now" by simp
  have inv': "dup_inv strong seen now m" using inv t by (rule dup_inv_later)
  note link = dup_inv_link [OF inv' pl]
  consider (bad) "PL_Parse bs = None" | (ack) a where "PL_Parse bs = Some (Ack a)"
    | (msg) msg where "PL_Parse bs = Some (Msg msg)"
    by (metis option.exhaust packet.exhaust)
  then show ?thesis
  proof cases
    case bad
    with run ok pl inv' show ?thesis by (auto simp: PL_Notify_def)
  next
    case ack
    have "dup_inv strong seen now
        (update_link i (\<lambda>pl. pl\<lparr>messages_to_send := (messages_to_send pl)(a := None)\<rparr>) m)"
      using link by (intro dup_inv_update [OF inv' pl]) simp_all
    with run ok pl ack show ?thesis by (auto simp: PL_Notify_def)
  next
    case msg
    from ok msg have "strong \<or> now - t' < 9" if "seen (i, pm_seq msg) = Some t'" for t'
      using that by auto
    then have "deliveries m i (pm_seq msg) = 0" if "messages_delivered pl (pm_seq msg) = None"
      using link(3) [of "pm_seq msg"] that by (auto simp: link_seen_ok_def split: option.splits)
    from dup_inv_Notify_Msg [OF inv' pl run msg this] ok msg show ?thesis by auto
  qed
qed

lemma dup_inv_run:
  assumes "link_run send strong evs m = Inr m'" and "dup_inv strong seen t m"
    and "timely strong seen t evs"
  shows "\<exists>seen' t'. dup_inv strong seen' t' m'"
  using assms
proof (induction evs arbitrary: m seen t)
  case Nil
  then show ?case by auto
next
  case (Cons ev evs)
  from Cons.prems(1) obtain m1 where m1: "link_step send strong ev m = Inr m1"
    and rest: "link_run send strong evs m1 = Inr m'" by auto
  show ?case
  proof (cases ev)
    case (Ev_Recv now i bs)
    with m1 have "PL_Notify BasicManager_Notify now i bs m = Inr m1" by simp
    from dup_inv_Notify [OF Cons.prems(2) this] Cons.prems(3) Ev_Recv
    show ?thesis using Cons.IH [OF rest] by blast
  next
    case (Ev_Acks now links oa od)
    with Cons.prems m1 have "dup_inv strong seen now m1"
      using dup_inv_SendAcks [OF dup_inv_later] by auto
    with Ev_Acks Cons.prems(3) show ?thesis using Cons.IH [OF rest] by auto
  next
    case (Ev_Send i msg)
    with Cons.prems m1 have "dup_inv strong seen t m1"
      using dup_inv_Send by auto
    with Ev_Send Cons.prems(3) show ?thesis using Cons.IH [OF rest] by auto
  qed
qed

section \<open>What a link asks of its manager\<close>

text \<open>
  The virtual \<^verbatim>\<open>Manager::Notify\<close> may send on any link, but it leaves the receiving side of
  the links alone. With this contract a link acknowledges and remembers what it received
  whatever the application above does.
\<close>

definition same_receiver :: "perfect_link \<Rightarrow> perfect_link \<Rightarrow> bool" where
  "same_receiver pl pl' \<longleftrightarrow>
     acks_to_send pl' = acks_to_send pl \<and> messages_delivered pl' = messages_delivered pl \<and>
     pl_id pl' = pl_id pl \<and> pl_target_id pl' = pl_target_id pl \<and>
     pl_target_addr pl' = pl_target_addr pl \<and> managers pl' = managers pl"

definition same_receivers :: "'a manager_scheme \<Rightarrow> 'a manager_scheme \<Rightarrow> bool" where
  "same_receivers m m' \<longleftrightarrow> (\<forall>i. rel_option same_receiver (perfect_links m i) (perfect_links m' i))"

lemma same_receiver_refl [simp]: "same_receiver pl pl"
  by (simp add: same_receiver_def)

lemma same_receiver_trans: "same_receiver a b \<Longrightarrow> same_receiver b c \<Longrightarrow> same_receiver a c"
  by (simp add: same_receiver_def)

lemma same_receivers_refl [simp]: "same_receivers m m"
  by (simp add: same_receivers_def option.rel_refl)

lemma same_receivers_trans:
  assumes "same_receivers a b" and "same_receivers b c"
  shows "same_receivers a c"
proof -
  have "rel_option same_receiver x z"
    if "rel_option same_receiver x y" "rel_option same_receiver y z" for x y z
    using that by (cases x; cases y; cases z) (auto dest: same_receiver_trans)
  with assms show ?thesis
    unfolding same_receivers_def by blast
qed

lemma same_receivers_link:
  assumes "same_receivers m m'" and "perfect_links m i = Some pl"
  shows "\<exists>pl'. perfect_links m' i = Some pl' \<and> same_receiver pl pl'"
proof -
  from assms(1) have "rel_option same_receiver (perfect_links m i) (perfect_links m' i)"
    by (simp add: same_receivers_def)
  with assms(2) show ?thesis by (auto simp: option_rel_Some1)
qed

lemma same_receivers_links_eq: "perfect_links m' = perfect_links m \<Longrightarrow> same_receivers m m'"
  by (simp add: same_receivers_def option.rel_refl)

locale link_client =
  fixes notify :: "'a manager_scheme notify"
  assumes notify_receivers: "notify k msg m = Inr m' \<Longrightarrow> same_receivers m m'"
begin

lemma fold_notify_receivers:
  "fold_result (\<lambda>_. notify k msg) mgrs m = Inr m' \<Longrightarrow> same_receivers m m'"
  by (induction mgrs arbitrary: m) (auto dest: notify_receivers same_receivers_trans)

lemma Notify_Msg_link:
  assumes run: "PL_Notify notify now i (PL_Serialize msg) m = Inr m'"
  shows "\<exists>pl pl'. perfect_links m i = Some pl \<and> perfect_links m' i = Some pl' \<and>
     acks_to_send pl' = insert (pm_seq msg) (acks_to_send pl) \<and>
     messages_delivered pl' = (messages_delivered pl)(pm_seq msg \<mapsto> now) \<and>
     pl_target_id pl' = pl_target_id pl \<and> pl_target_addr pl' = pl_target_addr pl \<and>
     managers pl' = managers pl"
proof -
  from run obtain pl where pl: "perfect_links m i = Some pl"
    by (auto simp: PL_Notify_def split: option.splits)
  let ?m1 = "update_link i (\<lambda>pl. pl\<lparr>acks_to_send := insert (pm_seq msg) (acks_to_send pl)\<rparr>) m"
  let ?stamp = "\<lambda>pl. pl\<lparr>messages_delivered := (messages_delivered pl)(pm_seq msg \<mapsto> now)\<rparr>"
  from run pl obtain m2 where m': "m' = update_link i ?stamp m2" and "same_receivers ?m1 m2"
    by (auto simp: PL_Notify_def Let_def dest: fold_notify_receivers split: if_splits)
  from same_receivers_link [OF this(2), of i] pl obtain pl2 where
    "perfect_links m2 i = Some pl2"
    "same_receiver (pl\<lparr>acks_to_send := insert (pm_seq msg) (acks_to_send pl)\<rparr>) pl2"
    by auto
  with pl m' show ?thesis by (auto simp: same_receiver_def)
qed

end

interpretation basic_client: link_client BasicManager_Notify
  by unfold_locales (auto simp: BasicManager_Notify_def intro: same_receivers_links_eq)

section \<open>Retransmission and acknowledgement\<close>

definition queued_at :: "'a manager_scheme \<Rightarrow> u32 \<Rightarrow> u32 \<Rightarrow> bytes option" where
  "queued_at m i s = Option.bind (perfect_links m i) (\<lambda>pl. messages_to_send pl s)"

text \<open>An event that hands the acknowledgement of message \<open>s\<close> to the link to \<open>i\<close>.\<close>

fun is_ack_for :: "u32 \<Rightarrow> u32 \<Rightarrow> link_event \<Rightarrow> bool" where
  "is_ack_for i s (Ev_Recv now j bs) \<longleftrightarrow> j = i \<and> PL_Parse bs = Some (Ack s)"
| "is_ack_for i s _ \<longleftrightarrow> False"

lemma queued_at_update:
  "queued_at (update_link i f m) j s =
     (if j = i then Option.bind (perfect_links m i) (\<lambda>pl. messages_to_send (f pl) s)
      else queued_at m j s)"
  by (cases "perfect_links m i") (simp_all add: queued_at_def)

lemma queued_at_other_field [simp]:
  "queued_at (update_link i (\<lambda>pl. pl\<lparr>messages_delivered := g pl\<rparr>) m) = queued_at m"
  "queued_at (update_link i (\<lambda>pl. pl\<lparr>acks_to_send := h pl\<rparr>) m) = queued_at m"
  by (cases "perfect_links m i"; auto simp: fun_eq_iff queued_at_update queued_at_def)+

lemma queued_at_log_line [simp]: "queued_at (log_line x m) = queued_at m"
  by (simp add: queued_at_def fun_eq_iff)

lemma queued_at_link [simp]:
  "perfect_links m i = Some pl \<Longrightarrow> queued_at m i s = messages_to_send pl s"
  by (simp add: queued_at_def)

lemma queued_at_SendAcks:
  "queued_at (snd (Manager_SendAcks send strong now links oa od m)) i s = queued_at m i s"
  by (rule Manager_SendAcks_induct [of "\<lambda>m'. queued_at m' i s = queued_at m i s"])
    (auto simp: queued_at_update)

lemma fold_result_const_inv:
  assumes "fold_result (\<lambda>_. f) xs s = Inr s'" and "P s"
    and "\<And>s s'. P s \<Longrightarrow> f s = Inr s' \<Longrightarrow> P s'"
  shows "P s'"
  using fold_result_invariant [OF assms(1), of P] assms(2,3) by blast

lemma queued_at_Notify:
  assumes "PL_Notify BasicManager_Notify now j bs m = Inr m'"
    and "\<not> (j = i \<and> PL_Parse bs = Some (Ack s))"
  shows "queued_at m' i s = queued_at m i s"
proof -
  have "queued_at m2 i s = queued_at m1 i s"
    if "fold_result (\<lambda>_. BasicManager_Notify k msg) mgrs m1 = Inr m2" for mgrs k msg and m1 m2 :: "'a manager_scheme"
    by (rule fold_result_const_inv [OF that, of "\<lambda>m'. queued_at m' i s = queued_at m1 i s"])
      (auto simp: BasicManager_Notify_def)
  note notify = this
  show ?thesis
    using assms
    by (cases "perfect_links m j")
      (auto simp: PL_Notify_def Let_def queued_at_update split: option.splits packet.splits if_splits
        dest!: notify dest: queued_at_link)
qed

lemma queued_at_step:
  assumes "link_step send strong ev m = Inr m'" and "\<not> is_ack_for i s ev"
    and "queued_at m i s = Some p"
  shows "queued_at m' i s = Some p"
proof (cases ev)
  case (Ev_Recv now j bs)
  with assms show ?thesis using queued_at_Notify by fastforce
next
  case (Ev_Acks now links oa od)
  with assms show ?thesis by (auto simp: queued_at_SendAcks)
next
  case (Ev_Send j msg)
  with assms show ?thesis
    by (cases "perfect_links m j")
      (auto simp: BasicManager_Send_def PL_Send_string_def Let_def queued_at_update PL_Send_messages)
qed

lemma queued_at_run:
  assumes "link_run send strong evs m = Inr m'" and "\<forall>ev \<in> set evs. \<not> is_ack_for i s ev"
    and "queued_at m i s = Some p"
  shows "queued_at m' i s = Some p"
  by (rule fold_result_invariant [OF assms(1), of "\<lambda>m. queued_at m i s = Some p"])
    (use assms queued_at_step in blast)+

lemma PL_send_loop_eq:
  assumes "\<forall>s \<in> set ord. \<forall>p. messages_to_send pl s = Some p \<longrightarrow> length p \<le> 9"
  shows "PL_send_loop send pl ord =
    Inr (concat (map (\<lambda>s. case messages_to_send pl s of None \<Rightarrow> []
      | Some p \<Rightarrow> try_send send (PL_Serialize \<lparr>pm_seq = s, pm_payload = p\<rparr>, pl_target_addr pl)) ord))"
  using assms by (induction ord) (auto simp: write_buffer_def split: option.splits)

lemma PL_SendMessages_eq:
  assumes "\<forall>s \<in> set ord. \<forall>p. messages_to_send pl s = Some p \<longrightarrow> length p \<le> 9"
  shows "PL_SendMessages send ord pl =
    Inr (concat (map (\<lambda>s. case messages_to_send pl s of None \<Rightarrow> []
      | Some p \<Rightarrow> try_send send (PL_Serialize \<lparr>pm_seq = s, pm_payload = p\<rparr>, pl_target_addr pl)) ord))"
  using PL_send_loop_eq [OF assms] by (simp add: PL_SendMessages_def)

text \<open>Whatever a sending turn emits is a queued message, sent to the peer of the link.\<close>

lemma PL_send_loop_sound:
  assumes "PL_send_loop send pl ord = Inr out" and "d \<in> set out"
  shows "\<exists>s p. messages_to_send pl s = Some p \<and>
     d = (PL_Serialize \<lparr>pm_seq = s, pm_payload = p\<rparr>, pl_target_addr pl) \<and> length p \<le> 9"
  using assms
  by (induction ord arbitrary: out)
    (fastforce simp: write_buffer_def try_send_def split: option.splits if_splits sum.splits)+

lemma PL_SendMessages_sound:
  assumes "PL_SendMessages send ord pl = Inr out" and "d \<in> set out"
  shows "\<exists>s p. messages_to_send pl s = Some p \<and>
     d = (PL_Serialize \<lparr>pm_seq = s, pm_payload = p\<rparr>, pl_target_addr pl) \<and> length p \<le> 9"
  using assms PL_send_loop_sound by (auto simp: PL_SendMessages_def split: if_splits)

text \<open>Sends of consecutive numbers.\<close>

lemma fold_PL_Send_number:
  "pl_n_messages_sent (fold (\<lambda>p pl. snd (PL_Send p pl)) ps pl) = pl_n_messages_sent pl + of_nat (length ps)"
  by (induction ps arbitrary: pl) (auto simp: algebra_simps)

lemma of_nat_u32_eq:
  "i < 2 ^ 32 \<Longrightarrow> j < 2 ^ 32 \<Longrightarrow> (of_nat i :: u32) = of_nat j \<longleftrightarrow> i = j"
  by (simp add: word_of_nat_eq_iff take_bit_eq_mod)

lemma fold_PL_Send_queue:
  assumes "length ps < 2 ^ 32 - 1" and "k < 2 ^ 32"
    and "pl_n_messages_sent pl = 1" and "messages_to_send pl = Map.empty"
  shows "messages_to_send (fold (\<lambda>p pl. snd (PL_Send p pl)) ps pl) (of_nat k) =
     (if 1 \<le> k \<and> k \<le> length ps then Some (ps ! (k - 1)) else None)"
  using assms(1)
proof (induction ps rule: rev_induct)
  case Nil
  with assms(4) show ?case by simp
next
  case (snoc p ps)
  have "pl_n_messages_sent (fold (\<lambda>p pl. snd (PL_Send p pl)) ps pl) = of_nat (Suc (length ps))"
    using assms(3) by (simp add: fold_PL_Send_number)
  moreover have "(of_nat k :: u32) = of_nat (Suc (length ps)) \<longleftrightarrow> k = Suc (length ps)"
    using assms(2) snoc.prems by (intro of_nat_u32_eq) auto
  ultimately show ?case
    using snoc by (auto simp: PL_Send_messages nth_append)
qed

section \<open>Properties\<close>

text \<open>
  C23: No duplication (perfect links). In any timely history of an application over
  \<^verbatim>\<open>BasicManager\<close> (receptions of arbitrary datagrams, acknowledgement turns and sends in
  any order), the log holds at most one delivery line for each pair of peer and sequence
  number. In a build with \<^verbatim>\<open>PERFECT_LINKS_STRONG\<close> no bound on the distance of copies is
  needed.
\<close>

theorem PL_at_most_once:
  assumes "link_run send strong evs m = Inr m'"
    and "fresh_links m" and "lg_lines (mgr_logger m) = []"
    and "timely strong Map.empty t evs"
  shows "count_list (lg_lines (mgr_logger m')) (deliver_line i s) \<le> 1"
proof -
  from dup_inv_run [OF assms(1) dup_inv_fresh [OF assms(2,3)] assms(4)]
  obtain seen' t' where "dup_inv strong seen' t' m'" by blast
  then show ?thesis by (auto simp: dup_inv_def link_seen_ok_def)
qed

definition ex_manager :: manager where
  "ex_manager = (Manager_Add (fst (PerfectLink_ctor 1 2 0 0
     \<lparr>srv_sockfd = 3, server_addr = Machine 0 0, srv_on = False, receive_thread = False,
      observers = Map.empty\<rparr>)) (Manager_init (Logger_ctor (\<lambda>_. True) Map.empty ''out'')))\<lparr>on := True\<rparr>"

definition socket_ok :: "(bytes \<Rightarrow> machine \<Rightarrow> int result) \<Rightarrow> bool" where
  "socket_ok send \<longleftrightarrow> (\<forall>bs a. \<exists>n. send bs a = Inr n)"

lemma in_try_send: "socket_ok send \<Longrightarrow> d \<in> set (try_send send d)"
  by (auto simp: socket_ok_def try_send_def split: sum.splits) (metis sum.distinct(1))

definition ex_aged_link :: perfect_link where
  "ex_aged_link = \<lparr>pl_id = 1, pl_target_id = 2, pl_target_addr = Machine 0 0, pl_n_messages_sent = 1,
     acks_to_send = {1, 2}, messages_to_send = Map.empty, messages_delivered = [1 \<mapsto> 0, 2 \<mapsto> 8],
     managers = [This_Manager]\<rparr>"

definition ex_send :: "bytes \<Rightarrow> machine \<Rightarrow> int result" where
  "ex_send bs a = Inr (int (length bs))"

lemma ex_send_ok: "socket_ok ex_send"
  by (simp add: socket_ok_def ex_send_def)

lemmas ex_defs = ex_manager_def ex_send_def Manager_Add_def PL_Subscribe_def
  PerfectLink_ctor_def Manager_init_def Logger_ctor_def Logger_file_open_def UDPClient_Address_def
  Let_def

lemma ex_manager_fresh: "fresh_links ex_manager" "lg_lines (mgr_logger ex_manager) = []"
  by (simp_all add: fresh_links_def ex_defs)

definition ex_msg :: "u32 \<Rightarrow> bytes" where
  "ex_msg s = PL_Serialize \<lparr>pm_seq = s, pm_payload = []\<rparr>"

lemma PL_Parse_ex_msg [simp]: "PL_Parse (ex_msg s) = Some (Msg \<lparr>pm_seq = s, pm_payload = []\<rparr>)"
  by (simp add: ex_msg_def)

definition ex_history :: "time \<Rightarrow> link_event list" where
  "ex_history t = [Ev_Recv 0 2 (ex_msg 7), Ev_Acks t [2] (\<lambda>_. [7]) (\<lambda>_. [7]), Ev_Recv t 2 (ex_msg 7)]"

definition ex_after :: "time \<Rightarrow> manager" where
  "ex_after t = projr (link_run ex_send False (ex_history t) ex_manager)"

lemmas ex_run_defs = ex_history_def ex_defs PL_Notify_def update_link_def BasicManager_Notify_def
  log_line_def Manager_SendAcks_def PL_SendAcks_def PL_CleanAcks_def acks_to_remove_def
  stop_acks_iff remove_delivered_iff Logger_write_def

lemma ex_run_ok: "\<exists>m'. link_run ex_send False (ex_history t) ex_manager = Inr m'"
  by (simp add: ex_run_defs)

theorem PL_at_most_once_witness:
  "count_list (lg_lines (mgr_logger (ex_after 5))) (deliver_line 2 7) \<le> 1"
proof -
  obtain m' where "link_run ex_send False (ex_history 5) ex_manager = Inr m'"
    using ex_run_ok by blast
  moreover have "timely False Map.empty 0 (ex_history 5)"
    by (simp add: ex_history_def)
  ultimately show ?thesis
    using PL_at_most_once [OF _ ex_manager_fresh, of ex_send False "ex_history 5" m' 0 2 7]
    by (simp add: ex_after_def)
qed

lemma Manager_SendAcks_link:
  assumes "on m" and "distinct links" and "i \<in> set links" and "perfect_links m i = Some pl"
  shows "perfect_links (snd (Manager_SendAcks send strong now links oa od m)) i =
      Some (snd (PL_SendAcks send strong now (oa i) (od i) pl))"
    "mgr_logger (snd (Manager_SendAcks send strong now links oa od m)) = mgr_logger m"
proof -
  let ?turn = "\<lambda>i (out, m). case perfect_links m i of None \<Rightarrow> (out, m)
      | Some pl \<Rightarrow> (let r = PL_SendAcks send strong now (oa i) (od i) pl in (out @ fst r, update_link i (\<lambda>_. snd r) m))"
  have other: "perfect_links (snd (fold ?turn ls (out, m))) i = perfect_links m i" if "i \<notin> set ls" for ls out m
    using that by (induction ls arbitrary: out m) (auto simp: Let_def update_link_def split: option.splits)
  have "perfect_links (snd (fold ?turn ls (out, m))) i = Some (snd (PL_SendAcks send strong now (oa i) (od i) pl))"
    if "distinct ls" "i \<in> set ls" "perfect_links m i = Some pl" for ls out m
    using that
  proof (induction ls arbitrary: out m)
    case (Cons j ls)
    show ?case
    proof (cases "j = i")
      case True
      with Cons.prems show ?thesis by (simp add: other Let_def update_link_def)
    next
      case False
      with Cons show ?thesis by (auto simp: Let_def update_link_def split: option.splits)
    qed
  qed simp
  with assms show "perfect_links (snd (Manager_SendAcks send strong now links oa od m)) i =
      Some (snd (PL_SendAcks send strong now (oa i) (od i) pl))"
    by (simp add: Manager_SendAcks_def)
  show "mgr_logger (snd (Manager_SendAcks send strong now links oa od m)) = mgr_logger m"
    by (rule Manager_SendAcks_induct [of "\<lambda>m'. mgr_logger m' = mgr_logger m"]) (simp_all add: update_link_def)
qed

text \<open>
  C40: When a link forgets. Take any subscribed link that has delivered message \<open>s\<close>, at time \<open>t0\<close>, and a copy of
  the message that arrives after a turn of the acknowledging thread at time \<open>now\<close>. The application
  delivers it a second time exactly when \<^verbatim>\<open>PERFECT_LINKS_STRONG\<close> is not defined, the link had some
  acknowledgement to send, so that \<^verbatim>\<open>SendAcks\<close> got to \<^verbatim>\<open>CleanAcks\<close>, and nine seconds or more had passed
  since \<open>t0\<close>; otherwise the copy leaves no trace in the log.
\<close>

theorem PL_forgets_after_nine_seconds:
  assumes "on m" and "lg_is_open (mgr_logger m)" and "distinct links" and "i \<in> set links"
    and "perfect_links m i = Some pl" and "managers pl = [This_Manager]"
    and "messages_delivered pl (pm_seq msg) = Some t0" and "set (od i) = dom (messages_delivered pl)"
    and "PL_Parse bs = Some (Msg msg)"
  shows "\<exists>m'. PL_Notify BasicManager_Notify later i bs (snd (Manager_SendAcks send strong now links oa od m)) = Inr m' \<and>
    lg_lines (mgr_logger m') = lg_lines (mgr_logger m) @
      (if \<not> strong \<and> acks_to_send pl \<noteq> {} \<and> 9 \<le> now - t0
       then [deliver_line (pl_target_id pl) (pm_seq msg)] else [])"
proof -
  define m1 where "m1 = snd (Manager_SendAcks send strong now links oa od m)"
  define pl1 where "pl1 = snd (PL_SendAcks send strong now (oa i) (od i) pl)"
  note link = Manager_SendAcks_link [OF assms(1,3,4,5), of send strong now oa od, folded m1_def pl1_def]
  have "pm_seq msg \<in> set (od i)" using assms(7,8) by auto
  then have "messages_delivered pl1 (pm_seq msg) =
      (if \<not> strong \<and> acks_to_send pl \<noteq> {} \<and> 9 \<le> now - t0 then None else Some t0)"
    using assms(7) by (simp add: pl1_def PL_SendAcks_delivered)
  moreover have "managers pl1 = [This_Manager]" "pl_target_id pl1 = pl_target_id pl" using assms(6) by (simp_all add: pl1_def)
  ultimately show ?thesis
    using assms(2,9) link unfolding m1_def [symmetric]
    by (simp add: PL_Notify_def Let_def update_link_def BasicManager_Notify_def log_line_def Logger_write_lines)
qed

definition ex_forgetful :: manager where
  "ex_forgetful = (Manager_init (Logger_ctor (\<lambda>_. True) Map.empty ''out''))\<lparr>on := True,
     perfect_links := [2 \<mapsto> ex_aged_link]\<rparr>"

theorem PL_forgets_after_nine_seconds_witness:
  "\<exists>m'. PL_Notify BasicManager_Notify 10 2 (ex_msg 1) (snd (Manager_SendAcks ex_send False 9 [2] (\<lambda>_. [1, 2]) (\<lambda>_. [2, 1]) ex_forgetful)) = Inr m' \<and>
     lg_lines (mgr_logger m') = [deliver_line 2 1]"
proof -
  have "on ex_forgetful" "perfect_links ex_forgetful 2 = Some ex_aged_link" "lg_is_open (mgr_logger ex_forgetful)"
    "lg_lines (mgr_logger ex_forgetful) = []"
    by (simp_all add: ex_forgetful_def Manager_init_def Logger_ctor_def Logger_file_open_def)
  moreover have "managers ex_aged_link = [This_Manager]" "messages_delivered ex_aged_link 1 = Some 0"
    "set [2, 1] = dom (messages_delivered ex_aged_link)" "pl_target_id ex_aged_link = 2" "acks_to_send ex_aged_link \<noteq> {}"
    by (auto simp: ex_aged_link_def)
  ultimately show ?thesis
    using PL_forgets_after_nine_seconds [of ex_forgetful "[2]" 2 ex_aged_link "\<lparr>pm_seq = 1, pm_payload = []\<rparr>" 0 "\<lambda>_. [2, 1]" "ex_msg 1"
        10 ex_send False 9 "\<lambda>_. [1, 2]"]
    by simp
qed

text \<open>
  C29: Round trip of the wire format: parsing the bytes written for a message or for an
  acknowledgement gives back the packet, for every sequence number and payload.
\<close>

theorem PL_codec_roundtrip: "PL_Parse (packet_bytes p) = Some p"
  by (rule pl_codec.dec_enc)

text \<open>
  \<^verbatim>\<open>Parse\<close> on every input: fewer than five bytes or an unknown type byte are rejected;
  otherwise the type byte selects message or acknowledgement, the next four bytes are the
  sequence number and, for a message, the rest is the payload and nothing is lost.
\<close>

lemma PL_Parse_cases:
  "case PL_Parse bs of
     None \<Rightarrow> length bs < 5 \<or> bs ! 0 \<notin> {kMSG, kACK}
   | Some (Msg m) \<Rightarrow> bs = PL_Serialize m
   | Some (Ack a) \<Rightarrow> \<exists>rest. bs = PL_ack_packet a @ rest"
proof -
  have "\<exists>rest. bs = PL_ack_packet a @ rest" if "PL_Parse bs = Some (Ack a)" for a
  proof -
    from that have "5 \<le> length bs" "bs ! 0 = kACK" "a = u32_of_bytes (take 4 (drop 1 bs))"
      by (auto simp: PL_Parse_def split: if_splits)
    moreover from this obtain b bs' where "bs = b # bs'" by (cases bs) auto
    ultimately have "bs = PL_ack_packet a @ drop 4 bs'"
      by (simp add: PL_ack_packet_def u32_bytes_u32_of_bytes)
    then show ?thesis ..
  qed
  then show ?thesis
    by (auto simp: PL_Parse_None_iff PL_Parse_MsgD split: option.splits packet.splits)
qed

text \<open>
  C24: Stubborn sending. Once a message is queued on a link it stays queued, with its
  payload, through any history that does not hand the link the acknowledgement of that
  message; and as long as the queued payloads fit a datagram, every sending turn that
  visits the message and whose socket accepts the datagrams emits it to the peer.
\<close>

theorem PL_stubborn:
  assumes "socket_ok send'" and "link_run send strong evs m = Inr m'"
    and "queued_at m i s = Some p"
    and "\<forall>ev \<in> set evs. \<not> is_ack_for i s ev"
  shows "\<exists>pl'. perfect_links m' i = Some pl' \<and> messages_to_send pl' s = Some p \<and>
    (\<forall>ord. s \<in> set ord \<and> (\<forall>s p. messages_to_send pl' s = Some p \<longrightarrow> length p \<le> 9) \<longrightarrow>
      (\<exists>out. PL_SendMessages send' ord pl' = Inr out \<and>
         (PL_Serialize \<lparr>pm_seq = s, pm_payload = p\<rparr>, pl_target_addr pl') \<in> set out))"
proof -
  from queued_at_run [OF assms(2,4,3)] obtain pl' where
    pl': "perfect_links m' i = Some pl'" "messages_to_send pl' s = Some p"
    by (auto simp: queued_at_def bind_eq_Some_conv)
  have "\<exists>out. PL_SendMessages send' ord pl' = Inr out \<and>
      (PL_Serialize \<lparr>pm_seq = s, pm_payload = p\<rparr>, pl_target_addr pl') \<in> set out"
    if "s \<in> set ord" "\<forall>s p. messages_to_send pl' s = Some p \<longrightarrow> length p \<le> 9" for ord
    using that pl'(2) in_try_send [OF assms(1)]
    by (subst PL_SendMessages_eq) (auto intro!: bexI [of _ s])
  with pl' show ?thesis by blast
qed

theorem PL_stubborn_witness:
  "\<exists>pl'. perfect_links (BasicManager_Send 2 ''x'' ex_manager) 2 = Some pl' \<and>
     messages_to_send pl' 1 = Some (string_bytes ''x'')"
proof -
  let ?m = "BasicManager_Send 2 ''x'' ex_manager"
  have "link_run ex_send False [] ?m = Inr ?m" by simp
  moreover have "queued_at ?m 2 1 = Some (string_bytes ''x'')"
    by (simp add: BasicManager_Send_def PL_Send_string_def PL_Send_def ex_defs queued_at_def update_link_def)
  moreover have "\<forall>ev \<in> set ([] :: link_event list). \<not> is_ack_for 2 1 ev" by simp
  ultimately show ?thesis using PL_stubborn [OF ex_send_ok] by blast
qed

text \<open>
  Every received copy is acknowledged. After \<^verbatim>\<open>Notify\<close> has handled a message, the next
  acknowledgement turn of the link emits its acknowledgement to the peer, whatever the
  times are; the turn stops acknowledging it only after a whole second has passed since
  the last copy, and the message is forgotten only after nine.
\<close>

lemma PL_acknowledges:
  assumes "socket_ok send"
    and "PL_Notify BasicManager_Notify now i (PL_Serialize msg) m = Inr m'"
    and "perfect_links m' i = Some pl'"
    and "pm_seq msg \<in> set oa" and "pm_seq msg \<in> set od"
  shows "(PL_ack_packet (pm_seq msg), pl_target_addr pl') \<in>
      set (fst (PL_SendAcks send strong later oa od pl')) \<and>
    (pm_seq msg \<in> acks_to_send (snd (PL_SendAcks send strong later oa od pl')) \<longleftrightarrow> later - now < 1) \<and>
    (messages_delivered (snd (PL_SendAcks send strong later oa od pl')) (pm_seq msg) = None \<longleftrightarrow>
       \<not> strong \<and> later - now \<ge> 9)"
proof -
  from basic_client.Notify_Msg_link [OF assms(2)] assms(3)
  have a: "pm_seq msg \<in> acks_to_send pl'" and d: "messages_delivered pl' (pm_seq msg) = Some now"
    by auto
  have "(PL_ack_packet (pm_seq msg), pl_target_addr pl') \<in>
      set (fst (PL_SendAcks send strong later oa od pl'))"
    using a assms(1,4)
    by (auto simp: PL_SendAcks_def intro!: bexI [of _ "pm_seq msg"] in_try_send)
  moreover have "snd (PL_SendAcks send strong later oa od pl') = PL_CleanAcks strong later od pl'"
    using a by (auto simp: PL_SendAcks_def)
  ultimately show ?thesis
    using a d assms(5) by (simp add: PL_CleanAcks_acks PL_CleanAcks_delivered)
qed

text \<open>
  \<^verbatim>\<open>CleanAcks\<close> does not depend on the order in which the unordered map is traversed:
  any two enumerations of \<^verbatim>\<open>messages_delivered_\<close> give the same link, in which the
  acknowledgements older than 0.45 s and, in the default build, the messages older than 9 s
  are gone and everything else is kept.
\<close>

lemma PL_CleanAcks_any_order:
  assumes "set ord = dom (messages_delivered pl)" and "set ord' = dom (messages_delivered pl)"
  shows "PL_CleanAcks strong now ord pl = PL_CleanAcks strong now ord' pl \<and>
    PL_CleanAcks strong now ord pl =
      pl\<lparr>messages_delivered := (\<lambda>s. case messages_delivered pl s of None \<Rightarrow> None
           | Some t \<Rightarrow> if \<not> strong \<and> 9 \<le> now - t then None else Some t),
         acks_to_send := {a \<in> acks_to_send pl.
           case messages_delivered pl a of None \<Rightarrow> True | Some t \<Rightarrow> now - t < 1}\<rparr>"
  using PL_CleanAcks_spec [OF assms(1)] PL_CleanAcks_spec [OF assms(2)] by simp

end
