(* ===== verification/Broadcast.thy ===== *)
theory Broadcast
  imports Perfect_Link
begin

text \<open>
  The broadcast classes \<^verbatim>\<open>Broadcast\<close> (\<^verbatim>\<open>broadcast.hpp/.cpp\<close>) and
  \<^verbatim>\<open>BestEffortBroadcast\<close> (\<^verbatim>\<open>best_effort_broadcast.hpp/.cpp\<close>). A class is a record that
  extends the record of its base class, and a method of a class works on every extension.
  The virtual methods of an object are the table \<open>'s vtable\<close> of its dynamic class; a method
  that calls a virtual method takes it (or the table) as an argument, and a qualified call \<^verbatim>\<open>Base::method\<close> is a call of the definition itself.
\<close>

section \<open>Messages\<close>

datatype msg_id = Msg_Id (id_seq: u32) (id_author: u32)

lemma msg_id_eq_fields: "a = b \<longleftrightarrow> id_seq a = id_seq b \<and> id_author a = id_author b"
  by (cases a; cases b) auto

definition msg_id_less :: "msg_id \<Rightarrow> msg_id \<Rightarrow> bool" where
  "msg_id_less a b \<longleftrightarrow> (if id_seq a \<noteq> id_seq b then id_seq a < id_seq b else id_author a < id_author b)"

instantiation msg_id :: linorder
begin

definition less_msg_id :: "msg_id \<Rightarrow> msg_id \<Rightarrow> bool" where
  "less_msg_id = msg_id_less"

definition less_eq_msg_id :: "msg_id \<Rightarrow> msg_id \<Rightarrow> bool" where
  "less_eq_msg_id a b \<longleftrightarrow> a < b \<or> a = b"

instance
  by standard (auto simp: less_msg_id_def msg_id_less_def less_eq_msg_id_def msg_id_eq_fields split: if_splits)

end

definition msg_id_eq :: "msg_id \<Rightarrow> msg_id \<Rightarrow> bool" where
  "msg_id_eq a b \<longleftrightarrow> id_author a = id_author b \<and> id_seq a = id_seq b"

definition msg_id_hash :: "(u32 \<Rightarrow> u64) \<Rightarrow> msg_id \<Rightarrow> u64" where
  "msg_id_hash hash i = xor (hash (id_author i)) (push_bit 1 (hash (id_seq i)))"

record bcast_message =
  bm_id :: msg_id
  bm_sender :: u32
  bm_payload :: bytes

text \<open>\<^verbatim>\<open>sizeof(PerfectLink::Id) + sizeof(Message::Id::Seq)\<close>.\<close>

definition Broadcast_kPacketPrefixSize :: nat where
  "Broadcast_kPacketPrefixSize = 4 + 4"

definition Broadcast_Serialize :: "bcast_message \<Rightarrow> bytes" where
  "Broadcast_Serialize msg =
     u32_bytes (id_author (bm_id msg)) @ u32_bytes (id_seq (bm_id msg)) @ bm_payload msg"

definition Broadcast_Parse :: "u32 \<Rightarrow> bytes \<Rightarrow> bcast_message option" where
  "Broadcast_Parse sender_id bs =
     (if length bs < Broadcast_kPacketPrefixSize then None
      else
        (let aid = u32_of_bytes (take 4 bs);
             seq = u32_of_bytes (take 4 (drop 4 bs));
             payload = drop Broadcast_kPacketPrefixSize bs
         in Some \<lparr>bm_id = Msg_Id seq aid, bm_sender = sender_id, bm_payload = payload\<rparr>))"

section \<open>Broadcast\<close>

record broadcast = manager +
  bc_id :: u32
  bc_n_messages_sent :: u32

record 's vtable =
  vt_SendInternal :: "bcast_message \<Rightarrow> 's \<Rightarrow> 's result"
  vt_NotifyInternal :: "bcast_message \<Rightarrow> 's \<Rightarrow> 's result"
  vt_DeliverInternal :: "msg_id \<Rightarrow> bool \<Rightarrow> 's \<Rightarrow> 's"

definition LogSend :: "u32 \<Rightarrow> 'a manager_scheme \<Rightarrow> 'a manager_scheme" where
  "LogSend seq b = log_line (''b '' @ show_u32 seq) b"

definition LogDeliver :: "msg_id \<Rightarrow> 'a manager_scheme \<Rightarrow> 'a manager_scheme" where
  "LogDeliver i b = log_line (''d '' @ show_u32 (id_author i) @ '' '' @ show_u32 (id_seq i)) b"

definition Broadcast_Send ::
  "'a broadcast_scheme vtable \<Rightarrow> string \<Rightarrow> 'a broadcast_scheme \<Rightarrow> 'a broadcast_scheme result" where
  "Broadcast_Send vt msg b =
     (let seq = bc_n_messages_sent b;
          b = b\<lparr>bc_n_messages_sent := seq + 1\<rparr>;
          message = \<lparr>bm_id = Msg_Id seq (bc_id b), bm_sender = bc_id b, bm_payload = string_bytes msg\<rparr>;
          b = LogSend seq b
      in vt_SendInternal vt message b)"

definition Broadcast_Notify :: "'a manager_scheme vtable \<Rightarrow> 'a manager_scheme notify" where
  "Broadcast_Notify vt sender_id msg b =
     (case Broadcast_Parse sender_id (pm_payload msg) of
        None \<Rightarrow> Inr b
      | Some message \<Rightarrow> vt_NotifyInternal vt message b)"

section \<open>BestEffortBroadcast\<close>

record beb = broadcast +
  deliver_to_upper_layer :: bool

text \<open>
  The loop \<^verbatim>\<open>for (pl : pls) pl->Send(buffer, len)\<close> over all links of the process; the
  links are distinct objects, so its result does not depend on their order
  (\<open>send_on_all_fold\<close> below).
\<close>

definition send_on_all :: "bytes \<Rightarrow> 'a manager_scheme \<Rightarrow> 'a manager_scheme" where
  "send_on_all buffer m =
     m\<lparr>perfect_links := (\<lambda>i. map_option (\<lambda>pl. snd (PL_Send buffer pl)) (perfect_links m i))\<rparr>"

definition BEB_SendInternal :: "bcast_message \<Rightarrow> 'a manager_scheme \<Rightarrow> 'a manager_scheme result" where
  "BEB_SendInternal msg b =
     bind_result (write_buffer (kMaxSendSize - kPacketPrefixSize) (Broadcast_Serialize msg))
       (\<lambda>buffer. Inr (send_on_all buffer b))"

definition BEB_DeliverInternal :: "msg_id \<Rightarrow> bool \<Rightarrow> 'a manager_scheme \<Rightarrow> 'a manager_scheme" where
  "BEB_DeliverInternal i do_log b = (if do_log then LogDeliver i b else b)"

definition BEB_NotifyInternal ::
  "(msg_id \<Rightarrow> bool \<Rightarrow> 'a beb_scheme \<Rightarrow> 'a beb_scheme) \<Rightarrow> bcast_message \<Rightarrow> 'a beb_scheme
     \<Rightarrow> 'a beb_scheme result" where
  "BEB_NotifyInternal deliver msg b =
     Inr (if deliver_to_upper_layer b then deliver (bm_id msg) True b
          else BEB_DeliverInternal (bm_id msg) False b)"

definition beb_vt :: "'a beb_scheme vtable" where
  "beb_vt = \<lparr>vt_SendInternal = BEB_SendInternal,
     vt_NotifyInternal = BEB_NotifyInternal BEB_DeliverInternal,
     vt_DeliverInternal = BEB_DeliverInternal\<rparr>"

section \<open>Codec\<close>

lemma Broadcast_kPacketPrefixSize_8 [simp]: "Broadcast_kPacketPrefixSize = 8"
  by (simp add: Broadcast_kPacketPrefixSize_def)

lemma length_Broadcast_Serialize [simp]:
  "length (Broadcast_Serialize m) = Broadcast_kPacketPrefixSize + length (bm_payload m)"
  by (simp add: Broadcast_Serialize_def)

lemma Broadcast_Parse_Serialize [simp]:
  "Broadcast_Parse k (Broadcast_Serialize m) = Some (m\<lparr>bm_sender := k\<rparr>)"
  by (simp add: Broadcast_Parse_def Broadcast_Serialize_def Let_def)

lemma Broadcast_Serialize_Parse:
  assumes "Broadcast_Parse k bs = Some m"
  shows "Broadcast_Serialize m = bs" "bm_sender m = k"
proof -
  from assms have len: "8 \<le> length bs"
    and m: "m = \<lparr>bm_id = Msg_Id (u32_of_bytes (take 4 (drop 4 bs))) (u32_of_bytes (take 4 bs)),
      bm_sender = k, bm_payload = drop 8 bs\<rparr>"
    by (auto simp: Broadcast_Parse_def Let_def split: if_splits)
  have "u32_bytes (u32_of_bytes (take 4 bs)) = take 4 bs"
    "u32_bytes (u32_of_bytes (take 4 (drop 4 bs))) = take 4 (drop 4 bs)"
    using len by (auto intro!: u32_bytes_u32_of_bytes)
  then show "Broadcast_Serialize m = bs"
    by (simp add: m Broadcast_Serialize_def) (metis append_take_drop_id drop_drop numeral_plus_numeral
        add_num_simps(4) semiring_norm(2,6))
  show "bm_sender m = k" by (simp add: m)
qed

text \<open>For a fixed sender the format is canonical on identifier and payload.\<close>

interpretation bc_codec: canonical_codec
  "\<lambda>(i, p). Broadcast_Serialize \<lparr>bm_id = i, bm_sender = k, bm_payload = p\<rparr>"
  "\<lambda>bs. map_option (\<lambda>m. (bm_id m, bm_payload m)) (Broadcast_Parse k bs)" for k
proof unfold_locales
  fix x show "map_option (\<lambda>m. (bm_id m, bm_payload m)) (Broadcast_Parse k
      (case x of (i, p) \<Rightarrow> Broadcast_Serialize \<lparr>bm_id = i, bm_sender = k, bm_payload = p\<rparr>)) = Some x"
    by (cases x) simp
next
  fix bs x assume "map_option (\<lambda>m. (bm_id m, bm_payload m)) (Broadcast_Parse k bs) = Some x"
  then show "(case x of (i, p) \<Rightarrow> Broadcast_Serialize \<lparr>bm_id = i, bm_sender = k, bm_payload = p\<rparr>) = bs"
    by (auto dest!: Broadcast_Serialize_Parse(1) simp: Broadcast_Serialize_def)
qed

section \<open>Sending on all links\<close>

lemma send_on_all_frame [simp]:
  "mgr_logger (send_on_all bs m) = mgr_logger m"
  "on (send_on_all bs m) = on m"
  "n_processes (send_on_all bs m) = n_processes m"
  "manager.more (send_on_all bs m) = manager.more m"
  "perfect_links (send_on_all bs m) i = map_option (\<lambda>pl. snd (PL_Send bs pl)) (perfect_links m i)"
  by (simp_all add: send_on_all_def)

lemma fold_update_link:
  assumes "distinct ord"
  shows "fold (\<lambda>i. update_link i f) ord m =
    m\<lparr>perfect_links := (\<lambda>i. if i \<in> set ord then map_option f (perfect_links m i) else perfect_links m i)\<rparr>"
  using assms
  by (induction ord arbitrary: m) (auto simp: update_link_def fun_eq_iff)

text \<open>Any enumeration of the links gives the same result.\<close>

lemma send_on_all_fold:
  assumes "distinct ord" and "set ord = dom (perfect_links m)"
  shows "fold (\<lambda>i. update_link i (\<lambda>pl. snd (PL_Send bs pl))) ord m = send_on_all bs m"
proof -
  have "(\<lambda>i. if i \<in> set ord then map_option (\<lambda>pl. snd (PL_Send bs pl)) (perfect_links m i)
      else perfect_links m i) = (\<lambda>i. map_option (\<lambda>pl. snd (PL_Send bs pl)) (perfect_links m i))"
    using assms(2) by (auto simp: fun_eq_iff domIff)
  then show ?thesis
    by (simp add: fold_update_link [OF assms(1)] send_on_all_def)
qed

lemma BEB_SendInternal_eq:
  "BEB_SendInternal msg b =
     (if length (bm_payload msg) \<le> 1 then Inr (send_on_all (Broadcast_Serialize msg) b)
      else Inl Buffer_Overflow)"
  by (auto simp: BEB_SendInternal_def write_buffer_def)

lemma same_receiver_PL_Send: "same_receiver pl (snd (PL_Send bs pl))"
  by (simp add: same_receiver_def PL_Send_def Let_def)

lemma same_receivers_send_on_all: "same_receivers m (send_on_all bs m)"
  by (simp add: same_receivers_def option.rel_map same_receiver_PL_Send option.rel_refl)

lemma BEB_SendInternal_receivers: "BEB_SendInternal msg m = Inr m' \<Longrightarrow> same_receivers m m'"
  by (auto simp: BEB_SendInternal_eq same_receivers_send_on_all split: if_splits)

lemma LogSend_line: "LogSend s b = log_line (broadcast_line s) b"
  by (simp add: LogSend_def broadcast_line_def)

lemma LogDeliver_line: "LogDeliver i b = log_line (deliver_line (id_author i) (id_seq i)) b"
  by (simp add: LogDeliver_def deliver_line_def)

section \<open>The contract of a broadcast class\<close>

text \<open>
  The virtual methods may send, but they do not touch the receiving side of the links. Then
  \<^verbatim>\<open>Broadcast::Notify\<close>, dispatched through the table, is a manager in the sense of the
  links.
\<close>

locale broadcast_layer =
  fixes vt :: "'a manager_scheme vtable"
  assumes send_receivers: "vt_SendInternal vt msg m = Inr m' \<Longrightarrow> same_receivers m m'"
    and notify_receivers: "vt_NotifyInternal vt msg m = Inr m' \<Longrightarrow> same_receivers m m'"
    and deliver_receivers: "same_receivers m (vt_DeliverInternal vt i l m)"

sublocale broadcast_layer \<subseteq> layer_client: link_client "Broadcast_Notify vt"
  by unfold_locales (auto simp: Broadcast_Notify_def notify_receivers split: option.splits)

lemma BEB_DeliverInternal_links [simp]:
  "perfect_links (BEB_DeliverInternal i l b) = perfect_links b"
  by (simp add: BEB_DeliverInternal_def LogDeliver_def)

interpretation beb_layer: broadcast_layer "beb_vt :: 'a beb_scheme vtable"
  by unfold_locales
    (auto simp: beb_vt_def BEB_NotifyInternal_def intro: BEB_SendInternal_receivers same_receivers_links_eq)

section \<open>Properties\<close>

text \<open>
  C28: The wire format of broadcast messages is canonical: \<^verbatim>\<open>Parse\<close> accepts a byte sequence
  as message \<open>m\<close> from \<open>k\<close> exactly when it is the serialisation of \<open>m\<close> and \<open>m\<close> is marked as
  sent by \<open>k\<close>. In particular what a process relays is byte for byte what it received.
\<close>

theorem Broadcast_codec_canonical:
  "Broadcast_Parse k bs = Some m \<longleftrightarrow> bs = Broadcast_Serialize m \<and> bm_sender m = k"
proof
  assume "Broadcast_Parse k bs = Some m"
  then show "bs = Broadcast_Serialize m \<and> bm_sender m = k"
    using Broadcast_Serialize_Parse by auto
next
  assume "bs = Broadcast_Serialize m \<and> bm_sender m = k"
  then show "Broadcast_Parse k bs = Some m" by auto
qed

text \<open>
  Relaying is within bounds. A broadcast message that arrived in a datagram (of which
  the server reads at most 14 bytes) has at most one byte of payload, so forwarding it with
  \<^verbatim>\<open>BestEffortBroadcast::SendInternal\<close> never overruns the stack buffer and queues the
  received bytes on every link.
\<close>

lemma relay_within_bounds:
  assumes "PL_Parse (take kMaxSendSize dgram) = Some (Msg pm)"
    and "Broadcast_Parse k (pm_payload pm) = Some bm"
  shows "BEB_SendInternal bm b = Inr (send_on_all (pm_payload pm) b)"
proof -
  from PL_Parse_MsgD [OF assms(1)] have "length (PL_Serialize pm) \<le> 14"
    by (metis kMaxSendSize_14 length_take min.cobounded2)
  then have "length (pm_payload pm) \<le> 9" by simp
  moreover from Broadcast_Serialize_Parse(1) [OF assms(2)] have "pm_payload pm = Broadcast_Serialize bm"
    by simp
  ultimately show ?thesis by (simp add: BEB_SendInternal_eq)
qed

definition ex_bm :: bcast_message where
  "ex_bm = \<lparr>bm_id = Msg_Id 7 3, bm_sender = 2, bm_payload = [9]\<rparr>"

text \<open>
  C27: Best-effort broadcast hands the message to every link exactly once: each link of the
  process gets the serialised message under its next sequence number, keeps everything it
  had queued, and nothing else of the process changes. It fails, by overrunning its stack
  buffer, exactly for payloads of more than one byte.
\<close>

theorem BEB_SendInternal_spec:
  "case BEB_SendInternal msg b of
     Inl e \<Rightarrow> e = Buffer_Overflow \<and> length (bm_payload msg) > 1
   | Inr b' \<Rightarrow> length (bm_payload msg) \<le> 1 \<and> manager.more b' = manager.more b \<and>
       mgr_logger b' = mgr_logger b \<and> dom (perfect_links b') = dom (perfect_links b) \<and>
       (\<forall>i pl. perfect_links b i = Some pl \<longrightarrow>
          (\<exists>pl'. perfect_links b' i = Some pl' \<and> same_receiver pl pl' \<and>
             pl_n_messages_sent pl' = pl_n_messages_sent pl + 1 \<and>
             (\<forall>s. messages_to_send pl' s =
                (if s = pl_n_messages_sent pl \<and> messages_to_send pl s = None
                 then Some (Broadcast_Serialize msg) else messages_to_send pl s))))"
  by (auto simp: BEB_SendInternal_eq same_receiver_PL_Send PL_Send_messages domIff)

theorem BEB_SendInternal_spec_witness:
  "\<exists>b' pl'. BEB_SendInternal ex_bm ex_manager = Inr b' \<and> perfect_links b' 2 = Some pl' \<and>
     messages_to_send pl' 1 = Some (Broadcast_Serialize ex_bm)"
proof -
  have "BEB_SendInternal ex_bm ex_manager = Inr (send_on_all (Broadcast_Serialize ex_bm) ex_manager)"
    by (simp add: BEB_SendInternal_eq ex_bm_def)
  moreover have "\<exists>pl. perfect_links ex_manager 2 = Some pl \<and> pl_n_messages_sent pl = 1 \<and>
      messages_to_send pl 1 = None"
    by (simp add: ex_defs)
  ultimately show ?thesis
    using BEB_SendInternal_spec [of ex_bm ex_manager] by fastforce
qed

end
