(* ===== verification/Delivered_Set.thy ===== *)
theory Delivered_Set
  imports Broadcast
begin

text \<open>
  \<^verbatim>\<open>UniformReliableBroadcast::DeliveredSet\<close> and its \<^verbatim>\<open>PeerState\<close>
  (\<^verbatim>\<open>uniform_reliable_broadcast.hpp\<close> lines 25 to 68, \<^verbatim>\<open>.cpp\<close> lines 5 to 46): the set
  of delivered message identifiers, stored per author as the first missing number and the
  numbers delivered out of order above it.
\<close>

section \<open>PeerState\<close>

record peer_state =
  bottom :: u32
  ps_delivered :: "u32 oset"

definition PeerState_init :: peer_state where
  "PeerState_init = \<lparr>bottom = 1, ps_delivered = []\<rparr>"

definition PeerState_Size :: "peer_state \<Rightarrow> nat" where
  "PeerState_Size ps = length (ps_delivered ps)"

definition PeerState_Contains :: "peer_state \<Rightarrow> u32 \<Rightarrow> bool" where
  "PeerState_Contains ps seq \<longleftrightarrow> seq < bottom ps \<or> seq \<in> set (ps_delivered ps)"

text \<open>The loop of \<^verbatim>\<open>Insert\<close>: the new \<^verbatim>\<open>bottom_\<close> and the vector \<^verbatim>\<open>to_remove\<close>.\<close>

fun PeerState_loop :: "u32 \<Rightarrow> u32 oset \<Rightarrow> u32 \<times> u32 list" where
  "PeerState_loop b [] = (b, [])"
| "PeerState_loop b (seq # rest) =
     (if seq = b then (let r = PeerState_loop (b + 1) rest in (fst r, seq # snd r)) else (b, []))"

definition PeerState_Insert :: "u32 \<Rightarrow> peer_state \<Rightarrow> peer_state" where
  "PeerState_Insert seq ps =
     (if seq = bottom ps then
        (let r = PeerState_loop (bottom ps + 1) (ps_delivered ps)
         in ps\<lparr>bottom := fst r, ps_delivered := oset_erase_all (snd r) (ps_delivered ps)\<rparr>)
      else ps\<lparr>ps_delivered := oset_insert seq (ps_delivered ps)\<rparr>)"

section \<open>DeliveredSet\<close>

type_synonym delivered_set = "u32 \<rightharpoonup> peer_state"

definition DeliveredSet_Contains :: "delivered_set \<Rightarrow> msg_id \<Rightarrow> bool" where
  "DeliveredSet_Contains d i =
     (case d (id_author i) of
        Some ps \<Rightarrow> PeerState_Contains ps (id_seq i)
      | None \<Rightarrow> False)"

definition DeliveredSet_Insert :: "msg_id \<Rightarrow> delivered_set \<Rightarrow> delivered_set" where
  "DeliveredSet_Insert i d =
     d(id_author i \<mapsto> PeerState_Insert (id_seq i)
         (case d (id_author i) of None \<Rightarrow> PeerState_init | Some ps \<Rightarrow> ps))"

text \<open>\<open>ord\<close> enumerates the authors.\<close>

definition DeliveredSet_Size :: "u32 list \<Rightarrow> delivered_set \<Rightarrow> nat" where
  "DeliveredSet_Size ord d =
     fold (\<lambda>a res. res + (case d a of None \<Rightarrow> 0 | Some ps \<Rightarrow> PeerState_Size ps)) ord 0"

section \<open>Specification\<close>

text \<open>
  A peer state stands for the numbers from 1 up to, not including, \<open>bottom\<close> and the numbers
  in the ordered set. It is well formed when the ordered set lies strictly above
  \<open>bottom\<close>; the largest number is never used, so that \<open>bottom\<close> does not wrap around.
\<close>

definition peer_abs :: "peer_state \<Rightarrow> u32 set" where
  "peer_abs ps = {s. 0 < s \<and> s < bottom ps} \<union> set (ps_delivered ps)"

definition peer_ok :: "peer_state \<Rightarrow> bool" where
  "peer_ok ps \<longleftrightarrow> 0 < bottom ps \<and> oset (ps_delivered ps) \<and>
     (\<forall>s \<in> set (ps_delivered ps). bottom ps < s \<and> s \<noteq> - 1)"

definition peer_fits :: "peer_state \<Rightarrow> u32 \<Rightarrow> bool" where
  "peer_fits ps s \<longleftrightarrow> s \<noteq> - 1 \<and> \<not> PeerState_Contains ps s"

definition set_abs :: "delivered_set \<Rightarrow> msg_id set" where
  "set_abs d = {i. \<exists>ps. d (id_author i) = Some ps \<and> id_seq i \<in> peer_abs ps}"

definition set_ok :: "delivered_set \<Rightarrow> bool" where
  "set_ok d \<longleftrightarrow> (\<forall>a ps. d a = Some ps \<longrightarrow> peer_ok ps)"

definition valid_id :: "msg_id \<Rightarrow> bool" where
  "valid_id i \<longleftrightarrow> 0 < id_seq i"

definition set_fits :: "delivered_set \<Rightarrow> msg_id \<Rightarrow> bool" where
  "set_fits d i \<longleftrightarrow> valid_id i \<and> id_seq i \<noteq> - 1 \<and> \<not> DeliveredSet_Contains d i"

section \<open>Consecutive numbers\<close>

lemma u32_less_succ: "(b :: u32) \<noteq> - 1 \<Longrightarrow> s < b + 1 \<longleftrightarrow> s \<le> b"
  using inc_less_eq_iff [of b s] by (auto simp: not_le [symmetric])

lemma u32_succ_le: "(b :: u32) < s \<Longrightarrow> b + 1 \<le> s"
  by (rule inc_le)

lemma u32_not_max: "(b :: u32) < s \<Longrightarrow> b \<noteq> - 1"
  by (metis not_less word_n1_ge)

text \<open>
  The loop takes the maximal run of consecutive numbers that starts at \<open>b\<close>: what it
  removes is a prefix of the set, what is left starts above the new bottom.
\<close>

lemma PeerState_loop_spec:
  assumes "oset xs" and "\<forall>x \<in> set xs. b \<le> x \<and> x \<noteq> - 1"
  shows "\<exists>rest. xs = snd (PeerState_loop b xs) @ rest \<and> b \<le> fst (PeerState_loop b xs) \<and>
    set (snd (PeerState_loop b xs)) = {s. b \<le> s \<and> s < fst (PeerState_loop b xs)} \<and>
    (\<forall>x \<in> set rest. fst (PeerState_loop b xs) < x)"
  using assms
proof (induction xs arbitrary: b)
  case Nil
  then show ?case by auto
next
  case (Cons x xs)
  show ?case
  proof (cases "x = b")
    case True
    with Cons.prems have b: "b \<noteq> - 1" and le: "\<forall>y \<in> set xs. b + 1 \<le> y \<and> y \<noteq> - 1"
      by (auto simp: oset_Cons u32_succ_le)
    from Cons.IH [of "b + 1"] Cons.prems(1) le obtain rest where
      IH: "xs = snd (PeerState_loop (b + 1) xs) @ rest" "b + 1 \<le> fst (PeerState_loop (b + 1) xs)"
      "set (snd (PeerState_loop (b + 1) xs)) = {s. b + 1 \<le> s \<and> s < fst (PeerState_loop (b + 1) xs)}"
      "\<forall>x \<in> set rest. fst (PeerState_loop (b + 1) xs) < x"
      by (auto simp: oset_Cons)
    have step: "b + 1 \<le> s \<longleftrightarrow> b < s" for s
      using u32_less_succ [OF b, of s] by (auto simp: not_less [symmetric])
    have "b < fst (PeerState_loop (b + 1) xs)" using IH(2) by (simp add: step)
    with IH(1,3,4) True show ?thesis
      by (intro exI [of _ rest]) (auto simp: Let_def step)
  next
    case False
    with Cons.prems show ?thesis
      by (auto simp: oset_Cons)
  qed
qed

section \<open>The implementation is a set\<close>

lemma peer_abs_init [simp]: "peer_abs PeerState_init = {}"
  by (auto simp: peer_abs_def PeerState_init_def word_less_1)

lemma peer_ok_init [simp]: "peer_ok PeerState_init"
  by (simp add: peer_ok_def PeerState_init_def)

lemma peer_Contains_abs: "0 < s \<Longrightarrow> PeerState_Contains ps s \<longleftrightarrow> s \<in> peer_abs ps"
  by (simp add: PeerState_Contains_def peer_abs_def)

lemma peer_Insert_bottom:
  assumes ok: "peer_ok ps" and fits: "bottom ps \<noteq> - 1"
  shows "peer_abs (PeerState_Insert (bottom ps) ps) = insert (bottom ps) (peer_abs ps) \<and>
    peer_ok (PeerState_Insert (bottom ps) ps)"
proof -
  let ?b = "bottom ps"
  obtain b' rm where r: "PeerState_loop (?b + 1) (ps_delivered ps) = (b', rm)" by fastforce
  from ok have "oset (ps_delivered ps)" "\<forall>x \<in> set (ps_delivered ps). ?b + 1 \<le> x \<and> x \<noteq> - 1"
    by (auto simp: peer_ok_def u32_succ_le)
  from PeerState_loop_spec [OF this] r obtain rest where
    split: "ps_delivered ps = rm @ rest" and le: "?b + 1 \<le> b'"
    and run: "set rm = {s. ?b + 1 \<le> s \<and> s < b'}" and above: "\<forall>x \<in> set rest. b' < x"
    by auto
  have ins: "PeerState_Insert ?b ps = ps\<lparr>bottom := b', ps_delivered := rest\<rparr>"
    by (simp add: PeerState_Insert_def Let_def r) (simp add: split)
  have step: "?b + 1 \<le> s \<longleftrightarrow> ?b < s" for s
    using fits by (simp add: inc_less_eq_iff)
  from ok le step have pos: "0 < ?b" "?b < b'" by (auto simp: peer_ok_def)
  have "peer_abs (PeerState_Insert ?b ps) = insert ?b (peer_abs ps)"
    using pos by (auto simp: ins peer_abs_def split run step)
  moreover have "peer_ok (PeerState_Insert ?b ps)"
    using ok pos above by (auto simp: ins peer_ok_def split oset_append)
  ultimately show ?thesis ..
qed

lemma peer_Insert_above:
  assumes "peer_ok ps" and "peer_fits ps s" and "s \<noteq> bottom ps"
  shows "peer_abs (PeerState_Insert s ps) = insert s (peer_abs ps) \<and> peer_ok (PeerState_Insert s ps)"
  using assms
  by (auto simp: PeerState_Insert_def peer_abs_def peer_ok_def peer_fits_def PeerState_Contains_def)

lemma peer_Insert:
  assumes "peer_ok ps" and "peer_fits ps s"
  shows "peer_abs (PeerState_Insert s ps) = insert s (peer_abs ps)" "peer_ok (PeerState_Insert s ps)"
  using assms peer_Insert_bottom [OF assms(1)] peer_Insert_above [OF assms]
  by (cases "s = bottom ps"; auto simp: peer_fits_def)+

interpretation peer_set: set_impl PeerState_init PeerState_Insert PeerState_Contains peer_abs peer_ok
  "\<lambda>s. 0 < s" peer_fits
  by unfold_locales (simp_all add: peer_Contains_abs peer_Insert)

lemma set_abs_Insert:
  assumes "set_ok d" and "set_fits d i"
  shows "set_abs (DeliveredSet_Insert i d) = insert i (set_abs d) \<and> set_ok (DeliveredSet_Insert i d)"
proof -
  define ps where "ps = (case d (id_author i) of None \<Rightarrow> PeerState_init | Some ps \<Rightarrow> ps)"
  have ok: "peer_ok ps"
    using assms(1) by (auto simp: ps_def set_ok_def split: option.splits)
  have "PeerState_Contains PeerState_init s \<longleftrightarrow> s = 0" for s
    by (auto simp: PeerState_Contains_def PeerState_init_def word_less_1)
  then have fits: "peer_fits ps (id_seq i)"
    using assms(2)
    by (auto simp: set_fits_def peer_fits_def ps_def DeliveredSet_Contains_def valid_id_def split: option.splits)
  have old: "j \<in> set_abs d \<longleftrightarrow> id_seq j \<in> peer_abs ps" if "id_author j = id_author i" for j
    using that by (auto simp: set_abs_def ps_def split: option.splits)
  have "j \<in> set_abs (DeliveredSet_Insert i d) \<longleftrightarrow> j = i \<or> j \<in> set_abs d" for j
  proof (cases "id_author j = id_author i")
    case True
    then have "j \<in> set_abs (DeliveredSet_Insert i d) \<longleftrightarrow> id_seq j \<in> peer_abs (PeerState_Insert (id_seq i) ps)"
      by (simp add: set_abs_def DeliveredSet_Insert_def ps_def)
    with True old [OF True] show ?thesis
      by (auto simp: peer_Insert(1) [OF ok fits] msg_id_eq_fields)
  next
    case False
    then show ?thesis by (auto simp: set_abs_def DeliveredSet_Insert_def)
  qed
  moreover have "set_ok (DeliveredSet_Insert i d)"
    using assms(1) peer_Insert(2) [OF ok fits]
    by (auto simp: set_ok_def DeliveredSet_Insert_def ps_def)
  ultimately show ?thesis by blast
qed

lemma set_Contains_abs: "valid_id i \<Longrightarrow> DeliveredSet_Contains d i \<longleftrightarrow> i \<in> set_abs d"
  by (auto simp: DeliveredSet_Contains_def set_abs_def valid_id_def peer_Contains_abs split: option.splits)

interpretation dset: set_impl "Map.empty" DeliveredSet_Insert DeliveredSet_Contains set_abs set_ok
  valid_id set_fits
proof unfold_locales
  show "set_ok Map.empty" by (simp add: set_ok_def)
  show "set_abs Map.empty = {}" by (simp add: set_abs_def)
qed (simp_all add: set_Contains_abs set_abs_Insert)

text \<open>A well-formed peer state is determined by the set it stands for.\<close>

lemma peer_bottom_least:
  assumes "peer_ok ps" and "0 < s"
  shows "s < bottom ps \<longleftrightarrow> (\<forall>s'. 0 < s' \<and> s' \<le> s \<longrightarrow> s' \<in> peer_abs ps)"
proof
  assume "s < bottom ps"
  then show "\<forall>s'. 0 < s' \<and> s' \<le> s \<longrightarrow> s' \<in> peer_abs ps" by (auto simp: peer_abs_def)
next
  assume "\<forall>s'. 0 < s' \<and> s' \<le> s \<longrightarrow> s' \<in> peer_abs ps"
  moreover have "bottom ps \<notin> peer_abs ps" "0 < bottom ps"
    using assms(1) by (auto simp: peer_abs_def peer_ok_def)
  ultimately show "s < bottom ps" by (meson not_less)
qed

lemma peer_abs_inj:
  assumes ok: "peer_ok p" "peer_ok q" and eq: "peer_abs p = peer_abs q"
  shows "p = q"
proof -
  have "s < bottom p \<longleftrightarrow> s < bottom q" if "0 < s" for s
    using peer_bottom_least [OF ok(1) that] peer_bottom_least [OF ok(2) that] eq by simp
  moreover have "0 < bottom p" "0 < bottom q" using ok by (auto simp: peer_ok_def)
  ultimately have b: "bottom p = bottom q" by (metis less_irrefl linorder_neqE)
  have "set (ps_delivered r) = {s \<in> peer_abs r. bottom r < s}" if "peer_ok r" for r
    using that by (auto simp: peer_abs_def peer_ok_def)
  from this [OF ok(1)] this [OF ok(2)] have "set (ps_delivered p) = set (ps_delivered q)"
    by (simp add: eq b)
  with ok have "ps_delivered p = ps_delivered q"
    by (auto simp: peer_ok_def oset_def intro: sorted_distinct_set_unique)
  with b show ?thesis by (intro peer_state.equality) simp_all
qed

section \<open>Properties\<close>

text \<open>
  C25: Functional correctness of \<^verbatim>\<open>DeliveredSet\<close>. Starting from the empty set, after
  inserting the identifiers \<open>ids\<close> in any order (each one new when it is inserted, numbers
  from 1 below the largest 32-bit value), \<^verbatim>\<open>Contains\<close> answers for every identifier
  whether it was inserted, and every per-author state is well formed.
\<close>

theorem DeliveredSet_refines_set:
  assumes "distinct ids" and "\<forall>i \<in> set ids. 0 < id_seq i \<and> id_seq i \<noteq> - 1"
    and "0 < id_seq j"
  shows "(DeliveredSet_Contains (fold DeliveredSet_Insert ids Map.empty) j \<longleftrightarrow> j \<in> set ids) \<and>
    set_ok (fold DeliveredSet_Insert ids Map.empty)"
proof -
  have fits: "dset.fits_all ids d"
    if "set_ok d" "distinct ids" "set ids \<inter> set_abs d = {}"
      "\<forall>i \<in> set ids. 0 < id_seq i \<and> id_seq i \<noteq> - 1" for ids d
    using that
  proof (induction ids arbitrary: d)
    case Nil
    then show ?case by simp
  next
    case (Cons i ids)
    then have i: "set_fits d i"
      by (auto simp: set_fits_def valid_id_def set_Contains_abs)
    with Cons set_abs_Insert [OF Cons.prems(1) i] show ?case by simp
  qed
  have "dset.fits_all ids Map.empty"
    by (rule fits [OF dset.invar_emp assms(1) _ assms(2)]) (simp add: dset.abs_emp)
  then show ?thesis
    using dset.mem_fold_ins [of ids j] dset.fold_ins [OF dset.invar_emp] assms(3)
    by (simp add: valid_id_def)
qed

definition ex_ids :: "msg_id list" where
  "ex_ids = [Msg_Id 2 5, Msg_Id 1 5, Msg_Id 4 5]"

theorem DeliveredSet_refines_set_witness:
  "DeliveredSet_Contains (fold DeliveredSet_Insert ex_ids Map.empty) (Msg_Id 2 5) \<and>
   \<not> DeliveredSet_Contains (fold DeliveredSet_Insert ex_ids Map.empty) (Msg_Id 3 5)"
proof -
  have "distinct ex_ids" "\<forall>i \<in> set ex_ids. 0 < id_seq i \<and> id_seq i \<noteq> - 1"
    by (simp_all add: ex_ids_def)
  from DeliveredSet_refines_set [OF this, of "Msg_Id 2 5"] DeliveredSet_refines_set [OF this, of "Msg_Id 3 5"]
  show ?thesis by (simp add: ex_ids_def)
qed

text \<open>
  Compaction of \<^verbatim>\<open>PeerState\<close>. Once the numbers from 1 to \<open>n\<close> have been inserted, in
  whatever order they came, the state is just the counter \<open>n + 1\<close>: nothing stays in the
  set of out-of-order numbers.
\<close>

lemma PeerState_compacts:
  assumes "distinct xs" and "set xs = {s. 0 < s \<and> s \<le> n}" and "n \<noteq> - 1"
  shows "fold PeerState_Insert xs PeerState_init = \<lparr>bottom = n + 1, ps_delivered = []\<rparr>"
proof -
  have below: "s \<noteq> - 1" if "s \<in> set xs" for s
  proof
    assume "s = - 1"
    with that assms(2) have "- 1 \<le> n" by simp
    with assms(3) show False by (simp add: word_order.extremum_unique)
  qed
  have "peer_set.fits_all ys ps"
    if "peer_ok ps" "distinct ys" "set ys \<inter> peer_abs ps = {}" "\<forall>s \<in> set ys. 0 < s \<and> s \<noteq> - 1" for ys ps
    using that
  proof (induction ys arbitrary: ps)
    case Nil
    then show ?case by simp
  next
    case (Cons s ys)
    then have s: "peer_fits ps s" by (auto simp: peer_fits_def peer_Contains_abs)
    with Cons peer_Insert [OF Cons.prems(1) s] show ?case by simp
  qed
  note fits = this
  have "peer_set.fits_all xs PeerState_init"
    by (rule fits) (use assms(1,2) below in auto)
  from peer_set.fold_ins [OF peer_ok_init this]
  have l: "peer_ok (fold PeerState_Insert xs PeerState_init)"
    "peer_abs (fold PeerState_Insert xs PeerState_init) = {s. 0 < s \<and> s \<le> n}"
    using assms(2) by simp_all
  have "n + 1 \<noteq> 0" using assms(3) by (metis add.commute add_eq_0_iff)
  then have "peer_ok \<lparr>bottom = n + 1, ps_delivered = []\<rparr>"
    by (simp add: peer_ok_def word_gt_0)
  moreover have "peer_abs \<lparr>bottom = n + 1, ps_delivered = []\<rparr> = {s. 0 < s \<and> s \<le> n}"
    by (simp add: peer_abs_def u32_less_succ [OF assms(3)])
  ultimately show ?thesis using l by (metis peer_abs_inj)
qed

end
