(* ===== verification/Uniform_Reliable_Broadcast.thy ===== *)
theory Uniform_Reliable_Broadcast
  imports Delivered_Set
begin

text \<open>
  \<^verbatim>\<open>UniformReliableBroadcast\<close> (\<^verbatim>\<open>uniform_reliable_broadcast.hpp/.cpp\<close>): majority-ack
  uniform reliable broadcast with a window on the own messages in the network. Every
  operation is one transition of the object; the three threads of the program that call
  them (sender, receiver, deliverer) are ordered by the sequences of transitions.
\<close>

record urb = beb +
  deliver_thread :: bool
  n_own_pending_for_delivery :: u32
  n_own_pending_delivery_ideal :: u32
  delivered :: delivered_set
  own_pending_for_broadcast :: "bcast_message list"
  pending_for_delivery :: "msg_id set"
  acks :: "msg_id \<rightharpoonup> u32 set"

definition URB_MAX_MSGS_IN_NETWORK :: nat where
  "URB_MAX_MSGS_IN_NETWORK = 2 ^ 15"

definition URB_init :: "logger \<Rightarrow> u32 \<Rightarrow> urb" where
  "URB_init l i = manager.extend (Manager_init l)
     \<lparr>bc_id = i, bc_n_messages_sent = 1, deliver_to_upper_layer = False, deliver_thread = False,
      n_own_pending_for_delivery = 0, n_own_pending_delivery_ideal = 1, delivered = Map.empty,
      own_pending_for_broadcast = [], pending_for_delivery = {}, acks = Map.empty\<rparr>"

definition URB_Start :: "'a urb_scheme \<Rightarrow> 'a urb_scheme result" where
  "URB_Start u =
     bind_result (Manager_Start u)
       (\<lambda>u. if deliver_thread u then Inl Terminate else Inr (u\<lparr>deliver_thread := True\<rparr>))"

definition URB_Stop :: "'a urb_scheme \<Rightarrow> 'a urb_scheme" where
  "URB_Stop u = (if on u then (Manager_Stop u)\<lparr>deliver_thread := False\<rparr> else u)"

text \<open>
  \<^verbatim>\<open>static_cast<int>(URB_MAX_MSGS_IN_NETWORK / std::pow(n, 2))\<close> truncates the quotient:
  the integer quotient by \<open>n * n\<close>.
\<close>

definition URB_Add :: "perfect_link \<Rightarrow> 'a urb_scheme \<Rightarrow> 'a urb_scheme" where
  "URB_Add pl u =
     (let u = u\<lparr>perfect_links := (perfect_links u)(pl_target_id pl \<mapsto> PL_Subscribe This_Manager pl)\<rparr>;
          u = u\<lparr>n_processes := n_processes u + 1\<rparr>
      in u\<lparr>n_own_pending_delivery_ideal :=
             of_nat (max 1 (URB_MAX_MSGS_IN_NETWORK div (unat (n_processes u)) ^ 2))\<rparr>)"

definition URB_SendInternal :: "bcast_message \<Rightarrow> 'a urb_scheme \<Rightarrow> 'a urb_scheme result" where
  "URB_SendInternal msg u =
     BEB_SendInternal msg (u\<lparr>pending_for_delivery := insert (bm_id msg) (pending_for_delivery u)\<rparr>)"

definition URB_DeliverInternal :: "msg_id \<Rightarrow> bool \<Rightarrow> 'a urb_scheme \<Rightarrow> 'a urb_scheme" where
  "URB_DeliverInternal i do_log u = (if do_log then LogDeliver i u else u)"

text \<open>The public \<^verbatim>\<open>Send\<close>, which hides \<^verbatim>\<open>Broadcast::Send\<close>.\<close>

definition URB_Send :: "'a urb_scheme vtable \<Rightarrow> string \<Rightarrow> 'a urb_scheme \<Rightarrow> 'a urb_scheme result" where
  "URB_Send vt msg u =
     (let seq = bc_n_messages_sent u;
          u = u\<lparr>bc_n_messages_sent := seq + 1\<rparr>;
          message = \<lparr>bm_id = Msg_Id seq (bc_id u), bm_sender = bc_id u, bm_payload = string_bytes msg\<rparr>;
          u = LogSend seq u
      in if n_own_pending_for_delivery u \<ge> n_own_pending_delivery_ideal u
         then Inr (u\<lparr>own_pending_for_broadcast := own_pending_for_broadcast u @ [message]\<rparr>)
         else vt_SendInternal vt message
                (u\<lparr>n_own_pending_for_delivery := n_own_pending_for_delivery u + 1\<rparr>))"

definition acks_of :: "'a urb_scheme \<Rightarrow> msg_id \<Rightarrow> u32 set" where
  "acks_of u i = (case acks u i of None \<Rightarrow> {} | Some A \<Rightarrow> A)"

definition URB_NotifyInternal ::
  "(msg_id \<Rightarrow> bool \<Rightarrow> 'a urb_scheme \<Rightarrow> 'a urb_scheme) \<Rightarrow> bcast_message \<Rightarrow> 'a urb_scheme
     \<Rightarrow> 'a urb_scheme result" where
  "URB_NotifyInternal deliver msg u =
     bind_result (BEB_NotifyInternal deliver msg u)
       (\<lambda>u. let not_pending = (bm_id msg \<notin> pending_for_delivery u);
               not_delivered = (\<not> DeliveredSet_Contains (delivered u) (bm_id msg))
            in if not_delivered then
                 (let u = u\<lparr>acks := (acks u)(bm_id msg \<mapsto> insert (bm_sender msg) (acks_of u (bm_id msg)))\<rparr>
                  in if not_pending
                     then BEB_SendInternal msg
                            (u\<lparr>pending_for_delivery := insert (bm_id msg) (pending_for_delivery u)\<rparr>)
                     else Inr u)
               else Inr u)"

text \<open>
  The body of the loop of \<^verbatim>\<open>DeliverPending\<close>, in two parts. When an own message is delivered
  the window moves: the first queued message is popped and broadcast. It is read through a
  reference to the front of the queue after the front has been popped; what that read yields
  is the parameter \<open>after_pop\<close>. With an empty queue the code still calls \<^verbatim>\<open>front()\<close>, which
  the standard leaves undefined, and binds a reference that it never reads; the model takes the call
  to have no effect, as in a library built without assertions.
\<close>

definition URB_move_window ::
  "'a urb_scheme vtable \<Rightarrow> (bcast_message \<Rightarrow> bcast_message result) \<Rightarrow> msg_id \<Rightarrow> 'a urb_scheme
     \<Rightarrow> 'a urb_scheme result" where
  "URB_move_window vt after_pop i u =
     (if id_author i = bc_id u then
        (let old = n_own_pending_for_delivery u;
             u = u\<lparr>n_own_pending_for_delivery := old + (- 1)\<rparr>
         in if old \<le> n_own_pending_delivery_ideal u then
              (case own_pending_for_broadcast u of
                 [] \<Rightarrow> Inr u
               | front # rest \<Rightarrow>
                   (let u = u\<lparr>own_pending_for_broadcast := rest\<rparr>;
                        u = u\<lparr>n_own_pending_for_delivery := n_own_pending_for_delivery u + 1\<rparr>
                    in bind_result (after_pop front) (\<lambda>msg. vt_SendInternal vt msg u)))
            else Inr u)
      else Inr u)"

text \<open>\<^verbatim>\<open>acks_.data[id]\<close> creates a missing entry.\<close>

definition URB_deliver_one ::
  "'a urb_scheme vtable \<Rightarrow> (bcast_message \<Rightarrow> bcast_message result) \<Rightarrow> msg_id \<Rightarrow> 'a urb_scheme
     \<Rightarrow> 'a urb_scheme result" where
  "URB_deliver_one vt after_pop i u =
     (let u = u\<lparr>acks := (acks u)(i \<mapsto> acks_of u i)\<rparr>;
          majority_seen = (card (acks_of u i) + 1 > unat (n_processes u) div 2);
          not_delivered = (\<not> DeliveredSet_Contains (delivered u) i)
      in if majority_seen \<and> not_delivered then
           bind_result (URB_move_window vt after_pop i
                (u\<lparr>pending_for_delivery := pending_for_delivery u - {i}\<rparr>))
             (\<lambda>u. let u = u\<lparr>delivered := DeliveredSet_Insert i (delivered u)\<rparr>;
                     u = u\<lparr>acks := (acks u)(i := None)\<rparr>
                  in Inr (vt_DeliverInternal vt i True u))
         else Inr u)"

text \<open>
  One turn of the loop of \<^verbatim>\<open>DeliverPending\<close>; \<open>ids\<close> is the vector copied from the set of
  pending messages.
\<close>

definition URB_DeliverPending ::
  "'a urb_scheme vtable \<Rightarrow> (bcast_message \<Rightarrow> bcast_message result) \<Rightarrow> msg_id list \<Rightarrow> 'a urb_scheme
     \<Rightarrow> 'a urb_scheme result" where
  "URB_DeliverPending vt after_pop ids u =
     (if on u then fold_result (URB_deliver_one vt after_pop) ids u else Inr u)"

definition urb_vt :: "'a urb_scheme vtable" where
  "urb_vt = \<lparr>vt_SendInternal = URB_SendInternal,
     vt_NotifyInternal = URB_NotifyInternal URB_DeliverInternal,
     vt_DeliverInternal = URB_DeliverInternal\<rparr>"

section \<open>Specification\<close>

abbreviation majority_seen :: "'a urb_scheme \<Rightarrow> msg_id \<Rightarrow> bool" where
  "majority_seen u i \<equiv> card (acks_of u i) + 1 > unat (n_processes u) div 2"

text \<open>The state that the layer above (\<^verbatim>\<open>DeliverInternal\<close>) must leave alone.\<close>

definition same_urb :: "'a urb_scheme \<Rightarrow> 'a urb_scheme \<Rightarrow> bool" where
  "same_urb u u' \<longleftrightarrow>
     n_processes u' = n_processes u \<and> on u' = on u \<and> perfect_links u' = perfect_links u \<and>
     bc_id u' = bc_id u \<and> bc_n_messages_sent u' = bc_n_messages_sent u \<and>
     deliver_to_upper_layer u' = deliver_to_upper_layer u \<and>
     n_own_pending_for_delivery u' = n_own_pending_for_delivery u \<and>
     n_own_pending_delivery_ideal u' = n_own_pending_delivery_ideal u \<and>
     delivered u' = delivered u \<and> own_pending_for_broadcast u' = own_pending_for_broadcast u \<and>
     pending_for_delivery u' = pending_for_delivery u \<and> acks u' = acks u"

text \<open>The own messages that are in the network, and all identifiers a process knows.\<close>

definition own_in_network :: "'a urb_scheme \<Rightarrow> msg_id set" where
  "own_in_network u = {i \<in> pending_for_delivery u. id_author i = bc_id u}"

definition known :: "'a urb_scheme \<Rightarrow> msg_id set" where
  "known u = pending_for_delivery u \<union> set_abs (delivered u)"

text \<open>
  A message as the peers of the process produce it: a number in range and, when it carries
  the own identifier as author, one that the process has broadcast.
\<close>

definition honest :: "'a urb_scheme \<Rightarrow> bcast_message \<Rightarrow> bool" where
  "honest u msg \<longleftrightarrow> 0 < id_seq (bm_id msg) \<and> id_seq (bm_id msg) \<noteq> - 1 \<and>
     (id_author (bm_id msg) = bc_id u \<longrightarrow> bm_id msg \<in> known u)"

text \<open>Well-formed delivery state: pending and delivered are disjoint sets of proper identifiers.\<close>

definition delivery_ok :: "'a urb_scheme \<Rightarrow> bool" where
  "delivery_ok u \<longleftrightarrow> set_ok (delivered u) \<and> finite (pending_for_delivery u) \<and>
     pending_for_delivery u \<inter> set_abs (delivered u) = {} \<and>
     (\<forall>i \<in> pending_for_delivery u. 0 < id_seq i \<and> id_seq i \<noteq> - 1)"

text \<open>
  The own messages: numbers below the counter have been handed out; a message is queued or
  known, not both.
\<close>

definition own_ok :: "'a urb_scheme \<Rightarrow> bool" where
  "own_ok u \<longleftrightarrow> 0 < bc_n_messages_sent u \<and>
     (\<forall>i \<in> known u. id_author i = bc_id u \<longrightarrow> id_seq i < bc_n_messages_sent u) \<and>
     (\<forall>m \<in> set (own_pending_for_broadcast u). id_author (bm_id m) = bc_id u \<and>
        0 < id_seq (bm_id m) \<and> id_seq (bm_id m) < bc_n_messages_sent u \<and> bm_id m \<notin> known u) \<and>
     distinct (map bm_id (own_pending_for_broadcast u))"

text \<open>The window: it counts the own messages in the network, and messages wait only while it is full.\<close>

definition window_ok :: "'a urb_scheme \<Rightarrow> bool" where
  "window_ok u \<longleftrightarrow>
     unat (n_own_pending_for_delivery u) = card (own_in_network u) \<and>
     n_own_pending_for_delivery u \<le> n_own_pending_delivery_ideal u \<and>
     0 < n_own_pending_delivery_ideal u \<and>
     (own_pending_for_broadcast u \<noteq> [] \<longrightarrow>
        n_own_pending_for_delivery u = n_own_pending_delivery_ideal u)"

definition urb_inv :: "'a urb_scheme \<Rightarrow> bool" where
  "urb_inv u \<longleftrightarrow> delivery_ok u \<and> own_ok u \<and> window_ok u"

text \<open>No own message is lost: it is queued, pending or delivered.\<close>

definition own_all :: "'a urb_scheme \<Rightarrow> bool" where
  "own_all u \<longleftrightarrow> (\<forall>s. 0 < s \<longrightarrow> s < bc_n_messages_sent u \<longrightarrow>
     Msg_Id s (bc_id u) \<in> known u \<union> bm_id ` set (own_pending_for_broadcast u))"

text \<open>Queued messages that fit the send buffer.\<close>

definition sendable :: "'a urb_scheme \<Rightarrow> bool" where
  "sendable u \<longleftrightarrow> (\<forall>m \<in> set (own_pending_for_broadcast u). length (bm_payload m) \<le> 1)"

text \<open>The read of every queued message, once popped, returns a message that fits the send buffer.\<close>

definition readable :: "(bcast_message \<Rightarrow> bcast_message result) \<Rightarrow> 'a urb_scheme \<Rightarrow> bool" where
  "readable after_pop u \<longleftrightarrow> (\<forall>m \<in> set (own_pending_for_broadcast u).
     \<exists>m'. after_pop m = Inr m' \<and> length (bm_payload m') \<le> 1)"

lemma readable_sendable: "sendable u \<Longrightarrow> (\<And>m. after_pop m = Inr m) \<Longrightarrow> readable after_pop u"
  by (simp add: readable_def sendable_def)

text \<open>A read through the dangling reference yields the message that was there, if anything.\<close>

definition reads_front :: "(bcast_message \<Rightarrow> bcast_message result) \<Rightarrow> bool" where
  "reads_front after_pop \<longleftrightarrow> (\<forall>m m'. after_pop m = Inr m' \<longrightarrow> m' = m)"

text \<open>The transitions of the object.\<close>

inductive urb_step ::
  "'a urb_scheme vtable \<Rightarrow> (bcast_message \<Rightarrow> bcast_message result) \<Rightarrow> 'a urb_scheme \<Rightarrow> 'a urb_scheme \<Rightarrow> bool"
  for vt after_pop where
  step_send: "URB_Send vt msg u = Inr u' \<Longrightarrow> bc_n_messages_sent u \<noteq> - 1 \<Longrightarrow> urb_step vt after_pop u u'"
| step_notify: "vt_NotifyInternal vt msg u = Inr u' \<Longrightarrow> honest u msg \<Longrightarrow> urb_step vt after_pop u u'"
| step_deliver: "URB_DeliverPending vt after_pop ids u = Inr u' \<Longrightarrow> distinct ids \<Longrightarrow>
     set ids = pending_for_delivery u \<Longrightarrow> urb_step vt after_pop u u'"
| step_links: "urb_step vt after_pop u (u\<lparr>perfect_links := links\<rparr>)"
| step_start: "URB_Start u = Inr u' \<Longrightarrow> urb_step vt after_pop u u'"
| step_stop: "urb_step vt after_pop u (URB_Stop u)"

inductive_cases urb_stepE: "urb_step vt after_pop u u'"

section \<open>Frame lemmas\<close>

lemma same_urb_refl [simp]: "same_urb u u"
  by (simp add: same_urb_def)

lemma log_line_urb_frame [simp]:
  "bc_id (log_line x u) = bc_id u"
  "bc_n_messages_sent (log_line x u) = bc_n_messages_sent u"
  "deliver_to_upper_layer (log_line x u) = deliver_to_upper_layer u"
  "n_own_pending_for_delivery (log_line x u) = n_own_pending_for_delivery u"
  "n_own_pending_delivery_ideal (log_line x u) = n_own_pending_delivery_ideal u"
  "delivered (log_line x u) = delivered u"
  "own_pending_for_broadcast (log_line x u) = own_pending_for_broadcast u"
  "pending_for_delivery (log_line x u) = pending_for_delivery u"
  "acks (log_line x u) = acks u"
  by (simp_all add: log_line_def)

lemma send_on_all_urb_frame [simp]:
  "bc_id (send_on_all x u) = bc_id u"
  "bc_n_messages_sent (send_on_all x u) = bc_n_messages_sent u"
  "deliver_to_upper_layer (send_on_all x u) = deliver_to_upper_layer u"
  "n_own_pending_for_delivery (send_on_all x u) = n_own_pending_for_delivery u"
  "n_own_pending_delivery_ideal (send_on_all x u) = n_own_pending_delivery_ideal u"
  "delivered (send_on_all x u) = delivered u"
  "own_pending_for_broadcast (send_on_all x u) = own_pending_for_broadcast u"
  "pending_for_delivery (send_on_all x u) = pending_for_delivery u"
  "acks (send_on_all x u) = acks u"
  by (simp_all add: send_on_all_def)

lemma same_urb_log_line: "same_urb u (log_line x u)"
  by (simp add: same_urb_def)

lemma same_urb_trans: "same_urb a b \<Longrightarrow> same_urb b c \<Longrightarrow> same_urb a c"
  by (simp add: same_urb_def)

lemma acks_of_simps [simp]:
  "acks_of (u\<lparr>acks := (acks u)(i \<mapsto> A)\<rparr>) j = (if j = i then A else acks_of u j)"
  "acks_of (u\<lparr>pending_for_delivery := P\<rparr>) j = acks_of u j"
  by (simp_all add: acks_of_def)

lemma urb_inv_same:
  assumes "same_urb u u'"
  shows "urb_inv u' = urb_inv u" "known u' = known u"
  using assms
  by (simp_all add: same_urb_def urb_inv_def delivery_ok_def own_ok_def window_ok_def known_def own_in_network_def)

text \<open>Starting and stopping the threads leaves the protocol state alone.\<close>

definition same_protocol :: "'a urb_scheme \<Rightarrow> 'a urb_scheme \<Rightarrow> bool" where
  "same_protocol u u' \<longleftrightarrow>
     mgr_logger u' = mgr_logger u \<and> n_processes u' = n_processes u \<and>
     bc_id u' = bc_id u \<and> bc_n_messages_sent u' = bc_n_messages_sent u \<and>
     deliver_to_upper_layer u' = deliver_to_upper_layer u \<and>
     n_own_pending_for_delivery u' = n_own_pending_for_delivery u \<and>
     n_own_pending_delivery_ideal u' = n_own_pending_delivery_ideal u \<and>
     delivered u' = delivered u \<and> own_pending_for_broadcast u' = own_pending_for_broadcast u \<and>
     pending_for_delivery u' = pending_for_delivery u \<and> acks u' = acks u \<and> urb.more u' = urb.more u"

lemma same_protocol_steps:
  "URB_Start u = Inr u' \<Longrightarrow> same_protocol u u'"
  "same_protocol u (URB_Stop u)"
  "same_protocol u (u\<lparr>perfect_links := links\<rparr>)"
  by (auto simp: same_protocol_def URB_Start_def URB_Stop_def Manager_Start_def Manager_Stop_def
      split: if_splits)

lemma same_protocol_inv:
  assumes "same_protocol u u'"
  shows "urb_inv u' = urb_inv u" "known u' = known u"
  using assms
  by (simp_all add: same_protocol_def urb_inv_def delivery_ok_def own_ok_def window_ok_def known_def
      own_in_network_def)

section \<open>Classes derived from uniform reliable broadcast\<close>

locale urb_class =
  fixes vt :: "'a urb_scheme vtable"
  assumes vt_send: "vt_SendInternal vt msg u = URB_SendInternal msg u"
    and vt_notify: "vt_NotifyInternal vt msg u = URB_NotifyInternal (vt_DeliverInternal vt) msg u"
    and vt_deliver: "same_urb u (vt_DeliverInternal vt i l u)"
begin

lemma Send_cases:
  assumes "URB_Send vt msg u = Inr u'"
  obtains (queue) m where "n_own_pending_delivery_ideal u \<le> n_own_pending_for_delivery u"
      "m = \<lparr>bm_id = Msg_Id (bc_n_messages_sent u) (bc_id u), bm_sender = bc_id u, bm_payload = string_bytes msg\<rparr>"
      "same_urb (u\<lparr>bc_n_messages_sent := bc_n_messages_sent u + 1,
         own_pending_for_broadcast := own_pending_for_broadcast u @ [m]\<rparr>) u'"
  | (send) m where "n_own_pending_for_delivery u < n_own_pending_delivery_ideal u"
      "m = \<lparr>bm_id = Msg_Id (bc_n_messages_sent u) (bc_id u), bm_sender = bc_id u, bm_payload = string_bytes msg\<rparr>"
      "length (string_bytes msg) \<le> 1"
      "same_urb (send_on_all (Broadcast_Serialize m) (u\<lparr>bc_n_messages_sent := bc_n_messages_sent u + 1,
         n_own_pending_for_delivery := n_own_pending_for_delivery u + 1,
         pending_for_delivery := insert (bm_id m) (pending_for_delivery u)\<rparr>)) u'"
proof (cases "n_own_pending_delivery_ideal u \<le> n_own_pending_for_delivery u")
  case True
  with assms show ?thesis
    by (intro queue) (auto simp: URB_Send_def Let_def LogSend_line same_urb_def)
next
  case False
  with assms show ?thesis
    by (intro send) (auto simp: URB_Send_def Let_def LogSend_line same_urb_def vt_send URB_SendInternal_def
        BEB_SendInternal_eq split: if_splits)
qed

lemma BEB_Notify_same:
  "BEB_NotifyInternal (vt_DeliverInternal vt) msg u = Inr u' \<Longrightarrow> same_urb u u'"
  by (auto simp: BEB_NotifyInternal_def BEB_DeliverInternal_def vt_deliver split: if_splits)

lemma Notify_cases:
  assumes "vt_NotifyInternal vt msg u = Inr u'"
  obtains (seen) "DeliveredSet_Contains (delivered u) (bm_id msg)" "same_urb u u'"
  | (ack) "\<not> DeliveredSet_Contains (delivered u) (bm_id msg)" "bm_id msg \<in> pending_for_delivery u"
      "same_urb (u\<lparr>acks := (acks u)(bm_id msg \<mapsto> insert (bm_sender msg) (acks_of u (bm_id msg)))\<rparr>) u'"
  | (relay) "\<not> DeliveredSet_Contains (delivered u) (bm_id msg)" "bm_id msg \<notin> pending_for_delivery u"
      "length (bm_payload msg) \<le> 1"
      "same_urb (send_on_all (Broadcast_Serialize msg)
         (u\<lparr>acks := (acks u)(bm_id msg \<mapsto> insert (bm_sender msg) (acks_of u (bm_id msg))),
            pending_for_delivery := insert (bm_id msg) (pending_for_delivery u)\<rparr>)) u'"
proof -
  from assms obtain u1 where u1: "BEB_NotifyInternal (vt_DeliverInternal vt) msg u = Inr u1"
    by (auto simp: vt_notify URB_NotifyInternal_def)
  note same = BEB_Notify_same [OF u1]
  then have "acks_of u1 = acks_of u" by (simp add: same_urb_def acks_of_def fun_eq_iff)
  with same have fields: "delivered u1 = delivered u" "pending_for_delivery u1 = pending_for_delivery u"
    "acks u1 = acks u" "acks_of u1 = acks_of u" "perfect_links u1 = perfect_links u"
    by (simp_all add: same_urb_def)
  let ?ack = "\<lambda>u. u\<lparr>acks := (acks u)(bm_id msg \<mapsto> insert (bm_sender msg) (acks_of u (bm_id msg)))\<rparr>"
  let ?pend = "\<lambda>u. u\<lparr>pending_for_delivery := insert (bm_id msg) (pending_for_delivery u)\<rparr>"
  consider "DeliveredSet_Contains (delivered u) (bm_id msg)" "u' = u1"
    | "\<not> DeliveredSet_Contains (delivered u) (bm_id msg)" "bm_id msg \<in> pending_for_delivery u" "u' = ?ack u1"
    | "\<not> DeliveredSet_Contains (delivered u) (bm_id msg)" "bm_id msg \<notin> pending_for_delivery u"
      "length (bm_payload msg) \<le> 1" "u' = send_on_all (Broadcast_Serialize msg) (?pend (?ack u1))"
    using assms
    by (auto simp: vt_notify URB_NotifyInternal_def u1 fields(1,2) Let_def BEB_SendInternal_eq split: if_splits)
  then show ?thesis
  proof cases
    case 1
    with same show ?thesis by (intro seen) simp_all
  next
    case 2
    with same show ?thesis by (intro ack) (simp_all add: same_urb_def fields(4))
  next
    case 3
    with same show ?thesis by (intro relay) (simp_all add: same_urb_def send_on_all_def fields(4))
  qed
qed

text \<open>The window moves only for an own message, and then by one.\<close>

lemma move_window_cases:
  assumes "URB_move_window vt after_pop i u = Inr u'"
  obtains (foreign) "id_author i \<noteq> bc_id u" "u' = u"
  | (own) "id_author i = bc_id u"
      "n_own_pending_delivery_ideal u < n_own_pending_for_delivery u \<or> own_pending_for_broadcast u = []"
      "u' = u\<lparr>n_own_pending_for_delivery := n_own_pending_for_delivery u - 1\<rparr>"
  | (refill) front rest msg where "id_author i = bc_id u"
      "n_own_pending_for_delivery u \<le> n_own_pending_delivery_ideal u"
      "own_pending_for_broadcast u = front # rest" "after_pop front = Inr msg"
      "length (bm_payload msg) \<le> 1"
      "u' = send_on_all (Broadcast_Serialize msg) (u\<lparr>own_pending_for_broadcast := rest,
         pending_for_delivery := insert (bm_id msg) (pending_for_delivery u)\<rparr>)"
  using assms that
  by (cases "own_pending_for_broadcast u")
    (auto simp: URB_move_window_def Let_def vt_send URB_SendInternal_def BEB_SendInternal_eq split: if_splits)

lemma deliver_one_cases:
  assumes "URB_deliver_one vt after_pop i u = Inr u'"
  obtains (skip) "\<not> (majority_seen u i \<and> \<not> DeliveredSet_Contains (delivered u) i)"
      "u' = u\<lparr>acks := (acks u)(i \<mapsto> acks_of u i)\<rparr>"
  | (deliver) u1 where "majority_seen u i" "\<not> DeliveredSet_Contains (delivered u) i"
      "URB_move_window vt after_pop i (u\<lparr>acks := (acks u)(i \<mapsto> acks_of u i),
         pending_for_delivery := pending_for_delivery u - {i}\<rparr>) = Inr u1"
      "u' = vt_DeliverInternal vt i True (u1\<lparr>delivered := DeliveredSet_Insert i (delivered u1),
         acks := (acks u1)(i := None)\<rparr>)"
  using assms that by (auto simp: URB_deliver_one_def Let_def split: if_splits)

section \<open>Invariants\<close>

lemma Send_inv:
  assumes inv: "urb_inv u" and run: "URB_Send vt msg u = Inr u'" and n: "bc_n_messages_sent u \<noteq> - 1"
  shows "urb_inv u'"
proof -
  let ?n = "bc_n_messages_sent u"
  have fresh: "Msg_Id ?n (bc_id u) \<notin> known u"
    "\<forall>m \<in> set (own_pending_for_broadcast u). bm_id m \<noteq> Msg_Id ?n (bc_id u)"
    using inv by (fastforce simp: urb_inv_def own_ok_def)+
  have le: "x < ?n + 1 \<longleftrightarrow> x \<le> ?n" for x by (rule u32_less_succ [OF n])
  have pos: "0 < ?n + 1" using n by (simp add: word_gt_0 add_eq_0_iff2)
  from run show ?thesis
  proof (cases rule: Send_cases)
    case (queue m)
    have "own_ok (u\<lparr>bc_n_messages_sent := ?n + 1, own_pending_for_broadcast := own_pending_for_broadcast u @ [m]\<rparr>)"
      using inv fresh pos by (auto simp: urb_inv_def own_ok_def known_def queue(2) le image_iff less_imp_le)
    with queue(1) inv show ?thesis
      by (simp add: urb_inv_same(1) [OF queue(3)])
        (auto simp: urb_inv_def delivery_ok_def window_ok_def own_in_network_def)
  next
    case (send m)
    let ?u = "u\<lparr>bc_n_messages_sent := ?n + 1,
         n_own_pending_for_delivery := n_own_pending_for_delivery u + 1,
         pending_for_delivery := insert (bm_id m) (pending_for_delivery u)\<rparr>"
    have own: "own_in_network ?u = insert (bm_id m) (own_in_network u)"
      by (auto simp: own_in_network_def send(2))
    have "finite (own_in_network u)" "bm_id m \<notin> own_in_network u"
      using inv fresh by (auto simp: urb_inv_def delivery_ok_def own_in_network_def known_def send(2))
    moreover have "unat (n_own_pending_for_delivery u + 1) = unat (n_own_pending_for_delivery u) + 1"
      using u32_not_max [OF send(1)] by (metis add.commute add_eq_0_iff2 plus_1_eq_Suc unatSuc)
    ultimately have "window_ok ?u"
      using inv send(1) by (auto simp: urb_inv_def window_ok_def own u32_succ_le)
    moreover have "delivery_ok ?u"
      using inv fresh(1) n by (auto simp: urb_inv_def delivery_ok_def own_ok_def known_def send(2))
    moreover have "own_ok ?u"
      using inv fresh pos by (auto simp: urb_inv_def own_ok_def known_def send(2) le less_imp_le)
    ultimately have "urb_inv ?u" by (simp add: urb_inv_def)
    then have "urb_inv (send_on_all (Broadcast_Serialize m) ?u)"
      by (simp add: urb_inv_def delivery_ok_def own_ok_def window_ok_def known_def own_in_network_def)
    then show ?thesis by (simp add: urb_inv_same(1) [OF send(4)])
  qed
qed

lemma Notify_inv:
  assumes inv: "urb_inv u" and run: "vt_NotifyInternal vt msg u = Inr u'" and honest: "honest u msg"
  shows "urb_inv u'"
  using run
proof (cases rule: Notify_cases)
  case seen
  with inv show ?thesis by (simp add: urb_inv_same(1))
next
  case ack
  with inv show ?thesis
    by (simp add: urb_inv_same(1) [OF ack(3)])
      (simp add: urb_inv_def delivery_ok_def own_ok_def window_ok_def known_def own_in_network_def)
next
  case relay
  from honest have valid: "valid_id (bm_id msg)" by (simp add: honest_def valid_id_def)
  with relay(1) have "bm_id msg \<notin> set_abs (delivered u)" by (simp add: set_Contains_abs)
  with relay(2) honest have "id_author (bm_id msg) \<noteq> bc_id u" "bm_id msg \<notin> known u"
    by (auto simp: honest_def known_def)
  moreover from this have
    "{i \<in> insert (bm_id msg) (pending_for_delivery u). id_author i = bc_id u} =
     {i \<in> pending_for_delivery u. id_author i = bc_id u}" by auto
  ultimately show ?thesis
    using inv honest \<open>bm_id msg \<notin> set_abs (delivered u)\<close>
    by (simp add: urb_inv_same(1) [OF relay(4)])
      (auto simp: urb_inv_def delivery_ok_def own_ok_def window_ok_def known_def own_in_network_def honest_def)
qed

lemma delivered_Insert:
  assumes "delivery_ok u" and "i \<in> pending_for_delivery u"
    and "\<not> DeliveredSet_Contains (delivered u) i"
  shows "set_abs (DeliveredSet_Insert i (delivered u)) = insert i (set_abs (delivered u))"
    "set_ok (DeliveredSet_Insert i (delivered u))"
proof -
  have "set_fits (delivered u) i" using assms by (auto simp: set_fits_def valid_id_def delivery_ok_def)
  with assms(1) show "set_abs (DeliveredSet_Insert i (delivered u)) = insert i (set_abs (delivered u))"
    "set_ok (DeliveredSet_Insert i (delivered u))"
    by (simp_all add: set_abs_Insert delivery_ok_def)
qed

lemma refill_inv:
  assumes inv: "urb_inv u" and i: "i \<in> pending_for_delivery u"
    and new: "\<not> DeliveredSet_Contains (delivered u) i" and own: "id_author i = bc_id u"
    and q: "own_pending_for_broadcast u = front # rest"
  shows "urb_inv (u\<lparr>own_pending_for_broadcast := rest,
     pending_for_delivery := insert (bm_id front) (pending_for_delivery u - {i}),
     delivered := DeliveredSet_Insert i (delivered u), acks := A\<rparr>)" (is "urb_inv ?u")
proof -
  note d = delivered_Insert [OF _ i new]
  have front: "bm_id front \<notin> known u" "id_author (bm_id front) = bc_id u"
    "0 < id_seq (bm_id front)" "id_seq (bm_id front) < bc_n_messages_sent u" "bm_id front \<noteq> i"
    using inv q i by (auto simp: urb_inv_def own_ok_def known_def)
  have fin: "finite (own_in_network u)" "i \<in> own_in_network u"
    using inv i own by (auto simp: urb_inv_def delivery_ok_def own_in_network_def)
  have "own_in_network ?u = insert (bm_id front) (own_in_network u - {i})"
    using front(2) by (auto simp: own_in_network_def)
  moreover have "card (insert (bm_id front) (own_in_network u - {i})) = card (own_in_network u)"
  proof -
    have "bm_id front \<notin> own_in_network u - {i}" using front(1) by (auto simp: own_in_network_def known_def)
    then show ?thesis using fin by (metis card_Suc_Diff1 card_insert_disjoint finite_Diff)
  qed
  ultimately have "window_ok ?u" using inv q by (auto simp: urb_inv_def window_ok_def)
  moreover have "delivery_ok ?u"
    using inv d i front u32_not_max [OF front(4)] by (auto simp: urb_inv_def delivery_ok_def known_def)
  moreover have "own_ok ?u"
    using inv d i front q by (auto simp: urb_inv_def own_ok_def known_def image_iff)
  ultimately show ?thesis by (simp add: urb_inv_def)
qed

lemma mark_delivered_inv:
  assumes inv: "urb_inv u" and i: "i \<in> pending_for_delivery u"
    and new: "\<not> DeliveredSet_Contains (delivered u) i" and pop: "reads_front after_pop"
    and run: "URB_move_window vt after_pop i (u\<lparr>acks := (acks u)(i \<mapsto> acks_of u i),
         pending_for_delivery := pending_for_delivery u - {i}\<rparr>) = Inr u1"
    and u2: "u2 = u1\<lparr>delivered := DeliveredSet_Insert i (delivered u1), acks := (acks u1)(i := None)\<rparr>"
  shows "urb_inv u2 \<and> pending_for_delivery u - {i} \<subseteq> pending_for_delivery u2"
  using run
proof (cases rule: move_window_cases)
  case foreign
  note d = delivered_Insert [OF _ i new]
  have "{j \<in> pending_for_delivery u - {i}. id_author j = bc_id u} = own_in_network u"
    using foreign(1) by (auto simp: own_in_network_def)
  with inv d i foreign(2) show ?thesis
    by (auto simp: u2 urb_inv_def delivery_ok_def own_ok_def window_ok_def known_def own_in_network_def)
next
  case own
  note d = delivered_Insert [OF _ i new]
  have q: "own_pending_for_broadcast u = []"
    using own(2) inv by (auto simp: urb_inv_def window_ok_def)
  have fin: "finite (own_in_network u)" "i \<in> own_in_network u"
    using inv i own(1) by (auto simp: urb_inv_def delivery_ok_def own_in_network_def)
  then have "0 < unat (n_own_pending_for_delivery u)"
    using inv by (auto simp: urb_inv_def window_ok_def card_gt_0_iff)
  then have n0: "n_own_pending_for_delivery u \<noteq> 0" by auto
  have "{j \<in> pending_for_delivery u - {i}. id_author j = bc_id u} = own_in_network u - {i}"
    by (auto simp: own_in_network_def)
  moreover have "unat (n_own_pending_for_delivery u - 1) = unat (n_own_pending_for_delivery u) - 1"
    using n0 by (simp add: unat_minus_one)
  moreover have "n_own_pending_for_delivery u - 1 \<le> n_own_pending_delivery_ideal u"
    using inv n0 by (meson less_imp_le order.trans urb_inv_def window_ok_def word_less_minus_mono_left
        word_le_sub1 less_eq_dec_iff dec_less_imp_less_eq linorder_not_le)
  ultimately show ?thesis
    using inv d i own(3) q fin
    by (auto simp: u2 urb_inv_def delivery_ok_def own_ok_def window_ok_def known_def own_in_network_def)
next
  case (refill front rest msg)
  from refill(4) pop have msg: "msg = front" by (auto simp: reads_front_def)
  have q: "own_pending_for_broadcast u = front # rest" "id_author i = bc_id u" using refill(1,3) by simp_all
  from refill_inv [OF inv i new q(2,1)] show ?thesis
    by (auto simp: u2 refill(6) msg urb_inv_def delivery_ok_def own_ok_def window_ok_def known_def own_in_network_def)
qed

lemma deliver_one_inv:
  assumes inv: "urb_inv u" and i: "i \<in> pending_for_delivery u" and pop: "reads_front after_pop"
    and run: "URB_deliver_one vt after_pop i u = Inr u'"
  shows "urb_inv u' \<and> pending_for_delivery u - {i} \<subseteq> pending_for_delivery u'"
  using run
proof (cases rule: deliver_one_cases)
  case skip
  with inv show ?thesis
    by (simp add: urb_inv_def delivery_ok_def own_ok_def window_ok_def known_def own_in_network_def Diff_subset)
next
  case (deliver u1)
  let ?u2 = "u1\<lparr>delivered := DeliveredSet_Insert i (delivered u1), acks := (acks u1)(i := None)\<rparr>"
  from mark_delivered_inv [OF inv i deliver(2) pop deliver(3) refl]
  have "urb_inv ?u2" "pending_for_delivery u - {i} \<subseteq> pending_for_delivery ?u2" by blast+
  moreover have same: "same_urb ?u2 u'" unfolding deliver(4) by (rule vt_deliver)
  moreover have "pending_for_delivery u' = pending_for_delivery ?u2"
    using same by (simp add: same_urb_def)
  ultimately show ?thesis by (simp add: urb_inv_same(1) [OF same])
qed

text \<open>What every delivery of a pending message keeps, a whole turn keeps.\<close>

lemma fold_deliver_induct:
  assumes "fold_result (URB_deliver_one vt after_pop) ids u = Inr u'"
    and "urb_inv u" and "P u" and "distinct ids" and "set ids \<subseteq> pending_for_delivery u" and "reads_front after_pop"
    and "\<And>i u u'. urb_inv u \<Longrightarrow> P u \<Longrightarrow> i \<in> pending_for_delivery u \<Longrightarrow>
       URB_deliver_one vt after_pop i u = Inr u' \<Longrightarrow> P u'"
  shows "urb_inv u' \<and> P u'"
  using assms(1-5)
proof (induction ids arbitrary: u)
  case Nil
  then show ?case by simp
next
  case (Cons i ids)
  from Cons.prems(1) obtain u1 where u1: "URB_deliver_one vt after_pop i u = Inr u1"
    and rest: "fold_result (URB_deliver_one vt after_pop) ids u1 = Inr u'" by auto
  have i: "i \<in> pending_for_delivery u" using Cons.prems(5) by simp
  from deliver_one_inv [OF Cons.prems(2) i assms(6) u1] assms(7) [OF Cons.prems(2,3) i u1]
    Cons.IH [OF rest] Cons.prems(4,5)
  show ?case by auto
qed

lemma fold_deliver_inv:
  assumes "fold_result (URB_deliver_one vt after_pop) ids u = Inr u'"
    and "urb_inv u" and "distinct ids" and "set ids \<subseteq> pending_for_delivery u" and "reads_front after_pop"
  shows "urb_inv u'"
  using fold_deliver_induct [OF assms(1,2), of "\<lambda>_. True"] assms(3-5) by simp

lemma step_inv:
  assumes "urb_inv u" and "urb_step vt after_pop u u'" and "reads_front after_pop"
  shows "urb_inv u'"
  using assms(2)
proof (cases rule: urb_step.cases)
  case (step_send msg)
  with assms(1) show ?thesis by (blast intro: Send_inv)
next
  case (step_notify msg)
  with assms(1) show ?thesis by (blast intro: Notify_inv)
next
  case (step_deliver ids)
  with assms show ?thesis
    by (auto simp: URB_DeliverPending_def split: if_splits intro: fold_deliver_inv)
next
  case (step_links links)
  with assms(1) same_protocol_inv(1) [OF same_protocol_steps(3)] show ?thesis by metis
next
  case step_start
  with assms(1) same_protocol_inv(1) [OF same_protocol_steps(1)] show ?thesis by metis
next
  case step_stop
  with assms(1) same_protocol_inv(1) [OF same_protocol_steps(2)] show ?thesis by metis
qed

section \<open>No own message is lost\<close>

lemma own_all_same:
  "same_urb u u' \<Longrightarrow> own_all u' = own_all u"
  by (simp add: own_all_def same_urb_def known_def)

lemma Send_own_all:
  assumes "own_all u" and run: "URB_Send vt msg u = Inr u'" and n: "bc_n_messages_sent u \<noteq> - 1"
  shows "own_all u'"
proof -
  have le: "s < bc_n_messages_sent u + 1 \<longleftrightarrow> s < bc_n_messages_sent u \<or> s = bc_n_messages_sent u" for s
    using u32_less_succ [OF n, of s] by (auto simp: le_less)
  from run show ?thesis
  proof (cases rule: Send_cases)
    case (queue m)
    with assms(1) show ?thesis
      by (simp add: own_all_same [OF queue(3)]) (auto simp: own_all_def le known_def)
  next
    case (send m)
    with assms(1) show ?thesis
      by (simp add: own_all_same [OF send(4)]) (auto simp: own_all_def le known_def)
  qed
qed

lemma Notify_own_all:
  assumes "own_all u" and "vt_NotifyInternal vt msg u = Inr u'"
  shows "own_all u'"
  using assms(2,1)
  by (cases rule: Notify_cases; simp add: own_all_same) (auto simp: own_all_def known_def)

lemma deliver_one_own_all:
  assumes all: "own_all u" and inv: "urb_inv u" and i: "i \<in> pending_for_delivery u"
    and pop: "reads_front after_pop" and run: "URB_deliver_one vt after_pop i u = Inr u'"
  shows "own_all u'"
  using run
proof (cases rule: deliver_one_cases)
  case skip
  with all show ?thesis by (simp add: own_all_def known_def)
next
  case (deliver u1)
  let ?u2 = "u1\<lparr>delivered := DeliveredSet_Insert i (delivered u1), acks := (acks u1)(i := None)\<rparr>"
  have d: "set_abs (DeliveredSet_Insert i (delivered u)) = insert i (set_abs (delivered u))"
    by (rule delivered_Insert(1) [OF _ i deliver(2)]) (use inv in \<open>simp add: urb_inv_def\<close>)
  have "own_all ?u2"
    using deliver(3)
  proof (cases rule: move_window_cases)
    case foreign
    with all d show ?thesis by (auto simp: own_all_def known_def)
  next
    case own
    with all d show ?thesis by (auto simp: own_all_def known_def)
  next
    case (refill front rest msg)
    with pop have "msg = front" by (auto simp: reads_front_def)
    with refill all d show ?thesis by (auto simp: own_all_def known_def)
  qed
  moreover have "same_urb ?u2 u'" unfolding deliver(4) by (rule vt_deliver)
  ultimately show ?thesis by (simp add: own_all_same)
qed

lemma fold_deliver_own_all:
  assumes "fold_result (URB_deliver_one vt after_pop) ids u = Inr u'"
    and "urb_inv u" and "own_all u" and "distinct ids" and "set ids \<subseteq> pending_for_delivery u"
    and "reads_front after_pop"
  shows "own_all u'"
  using fold_deliver_induct [where P = own_all, OF assms(1-6)] deliver_one_own_all assms(6) by blast

lemma step_own_all:
  assumes "urb_inv u" and "own_all u" and "urb_step vt after_pop u u'" and "reads_front after_pop"
  shows "own_all u'"
proof -
  have same: "same_protocol u u' \<Longrightarrow> own_all u'"
    using assms(2) by (simp add: own_all_def same_protocol_def known_def)
  from assms(3) show ?thesis
  proof (cases rule: urb_step.cases)
    case (step_deliver ids)
    with assms show ?thesis
      by (auto simp: URB_DeliverPending_def split: if_splits intro: fold_deliver_own_all)
  qed (use assms(2) same same_protocol_steps Send_own_all Notify_own_all in metis)+
qed

section \<open>Progress of a delivery turn\<close>

lemma move_window_total:
  assumes "readable after_pop u"
  shows "\<exists>u'. URB_move_window vt after_pop i u = Inr u'"
proof (cases "own_pending_for_broadcast u")
  case (Cons front rest)
  then obtain m where "after_pop front = Inr m" "length (bm_payload m) \<le> 1"
    using assms by (auto simp: readable_def)
  with Cons show ?thesis
    by (simp add: URB_move_window_def Let_def vt_send URB_SendInternal_def BEB_SendInternal_eq)
qed (simp add: URB_move_window_def Let_def)

lemma move_window_keeps:
  assumes "URB_move_window vt after_pop i u = Inr u'"
  shows "delivered u' = delivered u" "acks u' = acks u" "n_processes u' = n_processes u"
    "set (own_pending_for_broadcast u') \<subseteq> set (own_pending_for_broadcast u)"
  using assms by (cases rule: move_window_cases; auto)+

lemma deliver_one_total:
  assumes "readable after_pop u"
  shows "\<exists>u'. URB_deliver_one vt after_pop i u = Inr u'"
proof -
  let ?v = "u\<lparr>acks := (acks u)(i \<mapsto> acks_of u i), pending_for_delivery := pending_for_delivery u - {i}\<rparr>"
  have "readable after_pop ?v" using assms by (simp add: readable_def)
  from move_window_total [OF this] show ?thesis
    by (auto simp: URB_deliver_one_def Let_def)
qed

text \<open>The effect on the delivered set does not depend on what the read after the pop yields.\<close>

lemma deliver_one_delivers:
  assumes ok: "set_ok (delivered u)" and i: "0 < id_seq i" "id_seq i \<noteq> - 1"
    and run: "URB_deliver_one vt after_pop i u = Inr u'"
  shows "set_ok (delivered u') \<and> set_abs (delivered u') =
      (if majority_seen u i \<and> i \<notin> set_abs (delivered u) then insert i (set_abs (delivered u))
       else set_abs (delivered u)) \<and>
    n_processes u' = n_processes u \<and> (\<forall>j. j \<noteq> i \<longrightarrow> acks_of u' j = acks_of u j) \<and>
    set (own_pending_for_broadcast u') \<subseteq> set (own_pending_for_broadcast u)"
proof -
  have valid: "valid_id i" using i by (simp add: valid_id_def)
  note mem = set_Contains_abs [OF this]
  from run show ?thesis
  proof (cases rule: deliver_one_cases)
    case skip
    then show ?thesis using mem ok by (auto simp: acks_of_def)
  next
    case (deliver u1)
    let ?u2 = "u1\<lparr>delivered := DeliveredSet_Insert i (delivered u1), acks := (acks u1)(i := None)\<rparr>"
    have "set_fits (delivered u) i" using deliver(2) i valid by (simp add: set_fits_def)
    then have d: "set_abs (DeliveredSet_Insert i (delivered u)) = insert i (set_abs (delivered u))"
      "set_ok (DeliveredSet_Insert i (delivered u))"
      by (simp_all add: set_abs_Insert ok)
    have same: "same_urb ?u2 u'" unfolding deliver(4) by (rule vt_deliver)
    with move_window_keeps [OF deliver(3)] deliver(1,2) mem d show ?thesis
      by (auto simp: same_urb_def acks_of_def)
  qed
qed

lemma deliver_one_effect:
  assumes inv: "urb_inv u" and i: "i \<in> pending_for_delivery u"
    and run: "URB_deliver_one vt after_pop i u = Inr u'"
  shows "set_abs (delivered u') =
      (if majority_seen u i \<and> i \<notin> set_abs (delivered u) then insert i (set_abs (delivered u))
       else set_abs (delivered u)) \<and>
    n_processes u' = n_processes u \<and> (\<forall>j. j \<noteq> i \<longrightarrow> acks_of u' j = acks_of u j) \<and>
    set (own_pending_for_broadcast u') \<subseteq> set (own_pending_for_broadcast u)"
  using deliver_one_delivers [OF _ _ _ run] inv i by (simp add: urb_inv_def delivery_ok_def)

lemma fold_deliver_exact:
  assumes "fold_result (URB_deliver_one vt after_pop) ids u = Inr u'" and "set_ok (delivered u)"
    and "distinct ids" and "\<forall>i \<in> set ids. 0 < id_seq i \<and> id_seq i \<noteq> - 1"
  shows "set_abs (delivered u') = set_abs (delivered u) \<union> {i \<in> set ids. majority_seen u i}"
  using assms
proof (induction ids arbitrary: u)
  case Nil
  then show ?case by simp
next
  case (Cons i ids)
  from Cons.prems(1) obtain u1 where u1: "URB_deliver_one vt after_pop i u = Inr u1"
    and rest: "fold_result (URB_deliver_one vt after_pop) ids u1 = Inr u'" by auto
  have eff: "set_ok (delivered u1)" "set_abs (delivered u1) = set_abs (delivered u) \<union> {j. j = i \<and> majority_seen u i}"
    "n_processes u1 = n_processes u" "\<And>j. j \<noteq> i \<Longrightarrow> acks_of u1 j = acks_of u j"
    using deliver_one_delivers [OF Cons.prems(2) _ _ u1] Cons.prems(4) by auto
  have "{j \<in> set ids. majority_seen u1 j} = {j \<in> set ids. majority_seen u j}"
    using eff(3,4) Cons.prems(3) by (metis (no_types, lifting) distinct.simps(2))
  with Cons.IH [OF rest eff(1)] Cons.prems(3,4) eff(2) show ?case by auto
qed

lemma fold_deliver_total:
  "readable after_pop u \<Longrightarrow> \<exists>u'. fold_result (URB_deliver_one vt after_pop) ids u = Inr u'"
proof (induction ids arbitrary: u)
  case (Cons i ids)
  from deliver_one_total [OF Cons.prems] obtain u1 where u1: "URB_deliver_one vt after_pop i u = Inr u1" by blast
  have "set (own_pending_for_broadcast u1) \<subseteq> set (own_pending_for_broadcast u)"
    using u1
  proof (cases rule: deliver_one_cases)
    case (deliver u2)
    then show ?thesis using move_window_keeps(4) [OF deliver(3)] vt_deliver by (auto simp: same_urb_def)
  qed simp
  then have "readable after_pop u1" using Cons.prems by (auto simp: readable_def)
  from Cons.IH [OF this] u1 show ?case by simp
qed simp

lemma fold_deliver_progress:
  assumes pop: "\<And>m. after_pop m = Inr m"
    and inv: "urb_inv u" and "sendable u" and "distinct ids" and "set ids \<subseteq> pending_for_delivery u"
  shows "\<exists>u'. fold_result (URB_deliver_one vt after_pop) ids u = Inr u' \<and>
    set_abs (delivered u') = set_abs (delivered u) \<union> {i \<in> set ids. majority_seen u i}"
proof -
  obtain u' where u': "fold_result (URB_deliver_one vt after_pop) ids u = Inr u'"
    using fold_deliver_total [OF readable_sendable [OF assms(3) pop]] by blast
  have "\<forall>i \<in> set ids. 0 < id_seq i \<and> id_seq i \<noteq> - 1" "set_ok (delivered u)"
    using inv assms(5) by (auto simp: urb_inv_def delivery_ok_def)
  with u' fold_deliver_exact [OF u' _ assms(4)] show ?thesis by blast
qed

section \<open>What is logged\<close>

lemma Send_logger:
  "URB_Send vt msg u = Inr u' \<Longrightarrow>
     mgr_logger u' = Logger_write (mgr_logger u) (broadcast_line (bc_n_messages_sent u))"
  by (auto simp: URB_Send_def Let_def LogSend_line vt_send URB_SendInternal_def BEB_SendInternal_eq
      log_line_def split: if_splits)

lemma Send_more: "URB_Send vt msg u = Inr u' \<Longrightarrow> urb.more u' = urb.more u"
  by (auto simp: URB_Send_def Let_def LogSend_line vt_send URB_SendInternal_def BEB_SendInternal_eq
      log_line_def send_on_all_def split: if_splits)

lemma Send_keeps:
  assumes "URB_Send vt msg u = Inr u'"
  shows "deliver_to_upper_layer u' = deliver_to_upper_layer u" "delivered u' = delivered u"
  using assms by (cases rule: Send_cases; simp add: same_urb_def)+

lemma Notify_keeps:
  assumes "vt_NotifyInternal vt msg u = Inr u'"
  shows "deliver_to_upper_layer u' = deliver_to_upper_layer u" "delivered u' = delivered u"
  using assms by (cases rule: Notify_cases; simp add: same_urb_def)+

lemma Notify_logger:
  assumes "vt_NotifyInternal vt msg u = Inr u'" and "\<not> deliver_to_upper_layer u"
  shows "mgr_logger u' = mgr_logger u" "urb.more u' = urb.more u"
  using assms
  by (auto simp: vt_notify URB_NotifyInternal_def BEB_NotifyInternal_def BEB_DeliverInternal_def Let_def
      BEB_SendInternal_eq split: if_splits) (auto simp: send_on_all_def)

lemma move_window_frame:
  assumes "URB_move_window vt after_pop i u = Inr u'"
  shows "mgr_logger u' = mgr_logger u" "delivered u' = delivered u" "urb.more u' = urb.more u"
    "deliver_to_upper_layer u' = deliver_to_upper_layer u"
  using assms by (cases rule: move_window_cases; simp add: send_on_all_def)+

lemma deliver_one_upper:
  assumes "URB_deliver_one vt after_pop i u = Inr u'"
  shows "deliver_to_upper_layer u' = deliver_to_upper_layer u"
  using assms
proof (cases rule: deliver_one_cases)
  case (deliver u1)
  have "same_urb (u1\<lparr>delivered := DeliveredSet_Insert i (delivered u1), acks := (acks u1)(i := None)\<rparr>) u'"
    unfolding deliver(4) by (rule vt_deliver)
  with move_window_frame(4) [OF deliver(3)] show ?thesis by (simp add: same_urb_def)
qed simp

end

interpretation urb_base: urb_class "urb_vt :: 'a urb_scheme vtable"
  by unfold_locales
    (simp_all add: urb_vt_def URB_DeliverInternal_def LogDeliver_def same_urb_log_line)

section \<open>No duplication\<close>

definition logged_once :: "'a urb_scheme \<Rightarrow> bool" where
  "logged_once u \<longleftrightarrow> \<not> deliver_to_upper_layer u \<and>
     (\<forall>a s. deliveries u a s \<le> 1 \<and> (0 < deliveries u a s \<longrightarrow> Msg_Id s a \<in> set_abs (delivered u)))"

lemma logged_once_deliver_one:
  assumes inv: "urb_inv u" and i: "i \<in> pending_for_delivery u" and once: "logged_once u"
    and run: "URB_deliver_one urb_vt after_pop i u = Inr u'"
  shows "logged_once u'"
  using run
proof (cases rule: urb_base.deliver_one_cases)
  case skip
  with once show ?thesis by (simp add: logged_once_def)
next
  case (deliver u1)
  have valid: "valid_id i" using inv i by (auto simp: urb_inv_def delivery_ok_def valid_id_def)
  have new: "i \<notin> set_abs (delivered u)" using deliver(2) set_Contains_abs [OF valid] by simp
  have abs: "set_abs (DeliveredSet_Insert i (delivered u)) = insert i (set_abs (delivered u))"
    by (rule urb_base.delivered_Insert(1) [OF _ i deliver(2)]) (use inv in \<open>simp add: urb_inv_def\<close>)
  note f = urb_base.move_window_frame [OF deliver(3)]
  have log: "mgr_logger u' = Logger_write (mgr_logger u) (deliver_line (id_author i) (id_seq i))"
    and del: "set_abs (delivered u') = insert i (set_abs (delivered u))"
    and up: "deliver_to_upper_layer u' = deliver_to_upper_layer u"
    using f abs by (simp_all add: deliver(4) urb_vt_def URB_DeliverInternal_def LogDeliver_line)
  have zero: "deliveries u (id_author i) (id_seq i) = 0"
    using once new by (cases i) (auto simp: logged_once_def)
  show ?thesis
    unfolding logged_once_def
  proof (intro conjI allI)
    show "\<not> deliver_to_upper_layer u'" using once up by (simp add: logged_once_def)
    fix a s
    show "deliveries u' a s \<le> 1"
      using once zero by (auto simp: logged_once_def log count_Logger_write)
    show "0 < deliveries u' a s \<longrightarrow> Msg_Id s a \<in> set_abs (delivered u')"
      using once by (cases i) (auto simp: logged_once_def log del count_Logger_write)
  qed
qed

lemma logged_once_fold:
  assumes "fold_result (URB_deliver_one urb_vt after_pop) ids u = Inr u'"
    and "urb_inv u" and "logged_once u" and "distinct ids" and "set ids \<subseteq> pending_for_delivery u"
    and "reads_front after_pop"
  shows "logged_once u'"
  using urb_base.fold_deliver_induct [where P = logged_once, OF assms(1-6)] logged_once_deliver_one by blast

lemma logged_once_step:
  assumes inv: "urb_inv u" and once: "logged_once u" and pop: "reads_front after_pop"
    and step: "urb_step urb_vt after_pop u u'"
  shows "logged_once u'"
  using step
proof (cases rule: urb_step.cases)
  case (step_send msg)
  with urb_base.Send_keeps [OF step_send(1)] urb_base.Send_logger [OF step_send(1)] once show ?thesis
    by (auto simp: logged_once_def count_Logger_write)
next
  case (step_notify msg)
  with urb_base.Notify_keeps [OF step_notify(1)] urb_base.Notify_logger(1) [OF step_notify(1)] once show ?thesis
    by (auto simp: logged_once_def)
next
  case (step_deliver ids)
  with inv once pop show ?thesis
    by (auto simp: URB_DeliverPending_def split: if_splits intro: logged_once_fold)
next
  case (step_links links)
  with once show ?thesis by (simp add: logged_once_def)
next
  case step_start
  from same_protocol_steps(1) [OF this] once show ?thesis
    by (simp add: logged_once_def same_protocol_def)
next
  case step_stop
  have "same_protocol u u'" unfolding step_stop by (rule same_protocol_steps)
  with once show ?thesis by (simp add: logged_once_def same_protocol_def)
qed

section \<open>Runs of the class\<close>

definition urb_fresh :: "'a urb_scheme \<Rightarrow> bool" where
  "urb_fresh u \<longleftrightarrow> bc_n_messages_sent u = 1 \<and> \<not> deliver_to_upper_layer u \<and>
     n_own_pending_for_delivery u = 0 \<and> 0 < n_own_pending_delivery_ideal u \<and> delivered u = Map.empty \<and>
     own_pending_for_broadcast u = [] \<and> pending_for_delivery u = {} \<and> acks u = Map.empty"

lemma window_size_pos: "0 < (of_nat (max 1 (URB_MAX_MSGS_IN_NETWORK div n ^ 2)) :: u32)"
proof -
  have "URB_MAX_MSGS_IN_NETWORK div n ^ 2 \<le> 2 ^ 15"
    using div_le_dividend by (simp add: URB_MAX_MSGS_IN_NETWORK_def)
  then have "unat (of_nat (max 1 (URB_MAX_MSGS_IN_NETWORK div n ^ 2)) :: u32) =
      max 1 (URB_MAX_MSGS_IN_NETWORK div n ^ 2)"
    by (simp add: unat_of_nat mod_less max_def)
  then show ?thesis by (metis less_max_iff_disj unat_gt_0 word_gt_0 zero_less_one)
qed

lemma urb_fresh_init: "urb_fresh (URB_init l i)"
  by (simp add: urb_fresh_def URB_init_def manager.defs)

lemma urb_fresh_Add: "urb_fresh u \<Longrightarrow> urb_fresh (URB_Add pl u)"
  using window_size_pos by (simp add: urb_fresh_def URB_Add_def Let_def)

lemma urb_fresh_Adds: "urb_fresh u \<Longrightarrow> urb_fresh (fold URB_Add pls u)"
  by (induction pls arbitrary: u) (simp_all add: urb_fresh_Add)

lemma urb_fresh_inv:
  assumes "urb_fresh u"
  shows "urb_inv u" "own_all u"
  using assms dset.invar_emp dset.abs_emp
  by (auto simp: urb_fresh_def urb_inv_def own_all_def delivery_ok_def own_ok_def window_ok_def known_def
      own_in_network_def word_less_1)

lemma URB_Add_logger: "mgr_logger (fold URB_Add pls u) = mgr_logger u"
  by (induction pls arbitrary: u) (simp_all add: URB_Add_def Let_def)

definition urb_started :: "urb \<Rightarrow> bool" where
  "urb_started u \<longleftrightarrow> (\<exists>l i pls. lg_lines l = [] \<and> u = fold URB_Add pls (URB_init l i))"

definition urb_next :: "urb \<Rightarrow> urb \<Rightarrow> bool" where
  "urb_next u u' \<longleftrightarrow> (\<exists>after_pop. reads_front after_pop \<and> urb_step urb_vt after_pop u u')"

lemma urb_started_inv:
  assumes "urb_started u"
  shows "urb_inv u \<and> own_all u \<and> logged_once u"
proof -
  from assms obtain l i pls where l: "lg_lines l = []" and u: "u = fold URB_Add pls (URB_init l i)"
    by (auto simp: urb_started_def)
  have "urb_fresh u" unfolding u by (intro urb_fresh_Adds urb_fresh_init)
  moreover have "mgr_logger u = l"
    by (simp add: u URB_Add_logger) (simp add: URB_init_def Manager_init_def manager.defs)
  ultimately show ?thesis
    using l by (auto simp: urb_fresh_inv logged_once_def urb_fresh_def)
qed

interpretation urb_runs: invariant urb_started urb_next "\<lambda>u. urb_inv u \<and> own_all u \<and> logged_once u"
proof unfold_locales
  fix u assume "urb_started u"
  then show "urb_inv u \<and> own_all u \<and> logged_once u" by (rule urb_started_inv)
next
  fix u u' assume "urb_inv u \<and> own_all u \<and> logged_once u" and "urb_next u u'"
  then show "urb_inv u' \<and> own_all u' \<and> logged_once u'"
    unfolding urb_next_def
    by (metis logged_once_step urb_base.step_inv urb_base.step_own_all)
qed

section \<open>A run of three processes\<close>

text \<open>
  Process 1 with links to processes 2 and 3 broadcasts its first message, hears its echo
  from process 2 and delivers it.
\<close>

definition ex_logger :: logger where
  "ex_logger = Logger_ctor (\<lambda>_. True) Map.empty ''out''"

definition ex_link :: "u32 \<Rightarrow> perfect_link" where
  "ex_link j = fst (PerfectLink_ctor 1 j 0 0
     \<lparr>srv_sockfd = 3, server_addr = Machine 0 0, srv_on = False, receive_thread = False,
      observers = Map.empty\<rparr>)"

definition ex_urb :: urb where
  "ex_urb = fold URB_Add [ex_link 2, ex_link 3] (URB_init ex_logger 1)"

definition ex_echo :: bcast_message where
  "ex_echo = \<lparr>bm_id = Msg_Id 1 1, bm_sender = 2, bm_payload = []\<rparr>"

definition ex_urb_sent :: urb where
  "ex_urb_sent = projr (URB_Send urb_vt [] (projr (URB_Start ex_urb)))"

definition ex_urb_acked :: urb where
  "ex_urb_acked = projr (vt_NotifyInternal urb_vt ex_echo ex_urb_sent)"

definition ex_urb_delivered :: urb where
  "ex_urb_delivered = projr (URB_DeliverPending urb_vt Inr [Msg_Id 1 1] ex_urb_acked)"

lemmas ex_urb_defs = ex_link_def ex_logger_def ex_urb_def ex_echo_def PL_Subscribe_def
  PerfectLink_ctor_def Manager_init_def Logger_ctor_def Logger_file_open_def UDPClient_Address_def
  URB_Add_def URB_init_def URB_Start_def Manager_Start_def manager.defs URB_Send_def urb_vt_def
  URB_SendInternal_def BEB_SendInternal_eq LogSend_line log_line_def Logger_write_def send_on_all_def
  URB_NotifyInternal_def BEB_NotifyInternal_def BEB_DeliverInternal_def acks_of_def
  DeliveredSet_Contains_def URB_DeliverPending_def URB_deliver_one_def URB_move_window_def
  DeliveredSet_Insert_def PeerState_Insert_def PeerState_init_def URB_DeliverInternal_def LogDeliver_line
  URB_MAX_MSGS_IN_NETWORK_def string_bytes_def oset_erase_all_def PeerState_Contains_def Let_def

lemma ex_urb_runs:
  "URB_Start ex_urb = Inr (projr (URB_Start ex_urb))"
  "URB_Send urb_vt [] (projr (URB_Start ex_urb)) = Inr ex_urb_sent"
  "vt_NotifyInternal urb_vt ex_echo ex_urb_sent = Inr ex_urb_acked"
  "URB_DeliverPending urb_vt Inr [Msg_Id 1 1] ex_urb_acked = Inr ex_urb_delivered"
  by (simp_all add: ex_urb_sent_def ex_urb_acked_def ex_urb_delivered_def ex_urb_defs)

lemma ex_urb_facts:
  "bc_n_messages_sent (projr (URB_Start ex_urb)) = 1" "honest ex_urb_sent ex_echo"
  "pending_for_delivery ex_urb_acked = {Msg_Id 1 1}" "bc_n_messages_sent ex_urb_acked = 2"
  "bc_id ex_urb_acked = 1" "own_pending_for_broadcast ex_urb_acked = []"
  by (simp_all add: honest_def known_def ex_urb_sent_def ex_urb_acked_def ex_urb_delivered_def ex_urb_defs)

lemma ex_urb_log: "lg_lines (mgr_logger ex_urb_delivered) = [broadcast_line 1, deliver_line 1 1]"
  by (simp add: ex_urb_sent_def ex_urb_acked_def ex_urb_delivered_def ex_urb_defs)

lemma ex_urb_reachable:
  "reachable urb_started urb_next ex_urb_acked" "reachable urb_started urb_next ex_urb_delivered"
proof -
  have rf: "reads_front Inr" by (simp add: reads_front_def)
  have "urb_started ex_urb"
    unfolding urb_started_def ex_urb_def
    by (rule exI [of _ ex_logger], rule exI [of _ 1], rule exI [of _ "[ex_link 2, ex_link 3]"]) (simp add: ex_logger_def Logger_ctor_def Logger_file_open_def)
  then have "reachable urb_started urb_next ex_urb" by (rule reachable_init)
  then have "reachable urb_started urb_next (projr (URB_Start ex_urb))"
    by (rule reachable_step) (use rf step_start [OF ex_urb_runs(1)] in \<open>auto simp: urb_next_def\<close>)
  then have "reachable urb_started urb_next ex_urb_sent"
    by (rule reachable_step)
      (use rf step_send [OF ex_urb_runs(2)] ex_urb_facts(1) in \<open>auto simp: urb_next_def\<close>)
  then show acked: "reachable urb_started urb_next ex_urb_acked"
    by (rule reachable_step)
      (use rf step_notify [OF ex_urb_runs(3) ex_urb_facts(2)] in \<open>auto simp: urb_next_def\<close>)
  show "reachable urb_started urb_next ex_urb_delivered"
    by (rule reachable_step [OF acked])
      (use rf step_deliver [OF ex_urb_runs(4)] ex_urb_facts(3) in \<open>auto simp: urb_next_def\<close>)
qed

section \<open>Properties\<close>

text \<open>
  Uniform reliable broadcast, no duplication. In every run of a
  \<^verbatim>\<open>UniformReliableBroadcast\<close> object (construction, adding links, then any interleaving
  of \<^verbatim>\<open>Send\<close>, \<^verbatim>\<open>NotifyInternal\<close>, turns of \<^verbatim>\<open>DeliverPending\<close>, link activity, start and
  stop) each delivery line \<^verbatim>\<open>d author seq\<close> is logged at most once, and a logged message is
  in the delivered set.
\<close>

lemma URB_no_duplication:
  assumes "reachable urb_started urb_next u"
  shows "count_list (lg_lines (mgr_logger u)) (deliver_line a s) \<le> 1 \<and>
    (deliver_line a s \<in> set (lg_lines (mgr_logger u)) \<longrightarrow> DeliveredSet_Contains (delivered u) (Msg_Id s a))"
proof -
  from urb_runs.reachable_inv [OF assms] have "logged_once u" by simp
  moreover have "Msg_Id s a \<in> set_abs (delivered u) \<Longrightarrow> DeliveredSet_Contains (delivered u) (Msg_Id s a)"
    by (auto simp: set_abs_def DeliveredSet_Contains_def PeerState_Contains_def peer_abs_def)
  ultimately show ?thesis
    by (metis count_notin logged_once_def neq0_conv count_list_0_iff)
qed

text \<open>
  No own message is lost or broadcast twice. In every reachable state each sequence
  number that \<^verbatim>\<open>Send\<close> has handed out belongs to exactly one of: the queue
  \<^verbatim>\<open>own_pending_for_broadcast_\<close>, the set \<^verbatim>\<open>pending_for_delivery_\<close>, the delivered set.
\<close>

lemma URB_own_messages_partitioned:
  assumes "reachable urb_started urb_next u" and "0 < s" and "s < bc_n_messages_sent u"
  shows "of_bool (Msg_Id s (bc_id u) \<in> bm_id ` set (own_pending_for_broadcast u)) +
    of_bool (Msg_Id s (bc_id u) \<in> pending_for_delivery u) +
    of_bool (DeliveredSet_Contains (delivered u) (Msg_Id s (bc_id u))) = (1 :: nat)"
proof -
  let ?i = "Msg_Id s (bc_id u)"
  from urb_runs.reachable_inv [OF assms(1)] have inv: "urb_inv u" "own_all u" by simp_all
  have mem: "DeliveredSet_Contains (delivered u) ?i \<longleftrightarrow> ?i \<in> set_abs (delivered u)"
    using assms(2) by (simp add: set_Contains_abs valid_id_def)
  have "?i \<in> known u \<union> bm_id ` set (own_pending_for_broadcast u)"
    using inv(2) assms(2,3) by (simp add: own_all_def)
  moreover have "?i \<in> bm_id ` set (own_pending_for_broadcast u) \<Longrightarrow> ?i \<notin> known u"
    using inv(1) by (auto simp: urb_inv_def own_ok_def)
  moreover have "?i \<in> pending_for_delivery u \<Longrightarrow> ?i \<notin> set_abs (delivered u)"
    using inv(1) by (auto simp: urb_inv_def delivery_ok_def)
  ultimately show ?thesis unfolding mem known_def by auto
qed

text \<open>
  Flow control, in the view of whole methods. As long as no two methods of the object overlap,
  \<^verbatim>\<open>n_own_pending_for_delivery_\<close> is the number of own messages in the network, it never exceeds
  the window \<^verbatim>\<open>n_own_pending_delivery_ideal_\<close>, and messages wait in the queue only while the
  window is full. The threads of the program do overlap: \<open>threads_window\<close> gives the bound that holds
  then, and \<open>Send_lost_wakeup\<close> shows that a message can be left behind an open window.
\<close>

lemma URB_flow_control:
  assumes "reachable urb_started urb_next u"
  shows "unat (n_own_pending_for_delivery u) =
      card {i \<in> pending_for_delivery u. id_author i = bc_id u} \<and>
    n_own_pending_for_delivery u \<le> n_own_pending_delivery_ideal u \<and>
    (own_pending_for_broadcast u \<noteq> [] \<longrightarrow>
       n_own_pending_for_delivery u = n_own_pending_delivery_ideal u)"
  using urb_runs.reachable_inv [OF assms]
  by (auto simp: urb_inv_def window_ok_def own_in_network_def)

text \<open>
  Majority delivery. One iteration of \<^verbatim>\<open>DeliverPending\<close> on message \<open>i\<close> appends exactly
  the line \<^verbatim>\<open>d author seq\<close> of \<open>i\<close> to the log when the processes that echoed it, with
  the process itself, are more than half of all processes and it is not yet delivered, and
  appends nothing otherwise; a delivered message leaves the table of acknowledgements.
\<close>

lemma URB_delivers_on_majority:
  assumes "URB_deliver_one urb_vt after_pop i u = Inr u'" and "lg_is_open (mgr_logger u)"
  shows "if card (acks_of u i) + 1 > unat (n_processes u) div 2 \<and> \<not> DeliveredSet_Contains (delivered u) i
    then lg_lines (mgr_logger u') = lg_lines (mgr_logger u) @ [deliver_line (id_author i) (id_seq i)] \<and>
      acks u' i = None \<and> delivered u' = DeliveredSet_Insert i (delivered u)
    else lg_lines (mgr_logger u') = lg_lines (mgr_logger u) \<and> delivered u' = delivered u"
  using assms(1)
proof (cases rule: urb_base.deliver_one_cases)
  case skip
  then show ?thesis by auto
next
  case (deliver u1)
  from urb_base.move_window_frame [OF deliver(3)] deliver(1,2) assms(2) show ?thesis
    by (simp add: deliver(4) urb_vt_def URB_DeliverInternal_def LogDeliver_line Logger_write_lines)
qed

text \<open>
  C22: Exactness and completion of a turn. Take one turn of \<^verbatim>\<open>DeliverPending\<close> of a running
  process, not interleaved with its other methods and with the pending messages in any order, and let the read of a popped message through the
  reference kept past the pop do anything: fail, yield the message, or yield another one. A turn
  that completes adds to the delivered set exactly the pending messages that a majority has seen,
  whatever those reads yielded; and the turn completes if each of those reads returns a message whose
  payload has at most one byte (the send buffer of \<^verbatim>\<open>SendInternal\<close> holds no more).
\<close>

theorem URB_DeliverPending_progress:
  assumes "reachable urb_started urb_next u" and "on u"
    and "distinct ids" and "set ids = pending_for_delivery u"
  shows "(\<forall>u'. URB_DeliverPending urb_vt after_pop ids u = Inr u' \<longrightarrow>
      (\<forall>i. 0 < id_seq i \<longrightarrow> (DeliveredSet_Contains (delivered u') i \<longleftrightarrow>
         DeliveredSet_Contains (delivered u) i \<or>
         i \<in> pending_for_delivery u \<and> card (acks_of u i) + 1 > unat (n_processes u) div 2))) \<and>
    ((\<forall>m \<in> set (own_pending_for_broadcast u). \<exists>m'. after_pop m = Inr m' \<and> length (bm_payload m') \<le> 1) \<longrightarrow>
      (\<exists>u'. URB_DeliverPending urb_vt after_pop ids u = Inr u'))"
proof (intro conjI allI impI)
  from urb_runs.reachable_inv [OF assms(1)] have inv: "urb_inv u" by simp
  then have ids: "\<forall>i \<in> set ids. 0 < id_seq i \<and> id_seq i \<noteq> - 1" "set_ok (delivered u)"
    using assms(4) by (auto simp: urb_inv_def delivery_ok_def)
  fix u' and i :: msg_id
  assume run: "URB_DeliverPending urb_vt after_pop ids u = Inr u'" and "0 < id_seq i"
  then have i: "valid_id i" by (simp add: valid_id_def)
  from run assms(2) have "fold_result (URB_deliver_one urb_vt after_pop) ids u = Inr u'"
    by (simp add: URB_DeliverPending_def)
  from urb_base.fold_deliver_exact [OF this ids(2) assms(3) ids(1)] assms(4)
  show "DeliveredSet_Contains (delivered u') i \<longleftrightarrow> DeliveredSet_Contains (delivered u) i \<or>
      i \<in> pending_for_delivery u \<and> card (acks_of u i) + 1 > unat (n_processes u) div 2"
    by (auto simp: set_Contains_abs [OF i])
next
  assume "\<forall>m \<in> set (own_pending_for_broadcast u). \<exists>m'. after_pop m = Inr m' \<and> length (bm_payload m') \<le> 1"
  then have "readable after_pop u" by (simp add: readable_def)
  from urb_base.fold_deliver_total [OF this] show "\<exists>u'. URB_DeliverPending urb_vt after_pop ids u = Inr u'"
    by (simp add: URB_DeliverPending_def)
qed

theorem URB_DeliverPending_progress_witness:
  "\<exists>u'. URB_DeliverPending urb_vt (\<lambda>m. if bm_payload m = [] then Inr m else Inl Dangling_Pointer)
       [Msg_Id 1 1] ex_urb_acked = Inr u' \<and>
     DeliveredSet_Contains (delivered u') (Msg_Id 1 1)"
proof -
  have "on ex_urb_acked" "card (acks_of ex_urb_acked (Msg_Id 1 1)) = 1" "unat (n_processes ex_urb_acked) = 3"
    by (simp_all add: ex_urb_sent_def ex_urb_acked_def ex_urb_defs)
  with URB_DeliverPending_progress [OF ex_urb_reachable(1), of "[Msg_Id 1 1]"] show ?thesis
    by (fastforce simp: ex_urb_facts)
qed

text \<open>
  Echo. When \<^verbatim>\<open>NotifyInternal\<close> hears a message that fits a datagram for the first time
  (neither pending nor delivered) it records the sender, makes the message pending and
  queues its bytes on every link; for a pending message it only records the sender; for a
  delivered one it does nothing. It never fails and never logs.
\<close>

lemma URB_NotifyInternal_echoes:
  assumes "length (bm_payload msg) \<le> 1" and "\<not> deliver_to_upper_layer u"
  shows "vt_NotifyInternal urb_vt msg u = Inr (
    let heard = u\<lparr>acks := (acks u)(bm_id msg \<mapsto> insert (bm_sender msg) (acks_of u (bm_id msg)))\<rparr>
    in if DeliveredSet_Contains (delivered u) (bm_id msg) then u
       else if bm_id msg \<in> pending_for_delivery u then heard
       else send_on_all (Broadcast_Serialize msg)
         (heard\<lparr>pending_for_delivery := insert (bm_id msg) (pending_for_delivery u)\<rparr>))"
  using assms
  by (simp add: urb_vt_def URB_NotifyInternal_def BEB_NotifyInternal_def BEB_DeliverInternal_def Let_def
      BEB_SendInternal_eq)

end
