(* ===== verification/FIFO_Broadcast.thy ===== *)
theory FIFO_Broadcast
  imports Uniform_Reliable_Broadcast
begin

text \<open>
  \<^verbatim>\<open>UniformFIFOBroadcast\<close> and \<^verbatim>\<open>ReliableFIFOBroadcast\<close> (\<^verbatim>\<open>fifo_broadcast.hpp/.cpp\<close>):
  \<^verbatim>\<open>DeliverInternal\<close> holds a message back until all earlier messages of its author have
  been logged. The two classes derive from uniform reliable and from best-effort broadcast.
  The contract of their reorder buffer is the locale \<open>fifo_layer\<close>, interpreted on both.
\<close>

section \<open>The classes\<close>

record fifo_peer =
  fp_next :: u32
  fp_pending :: "u32 oset"

definition FifoPeer_init :: fifo_peer where
  "FifoPeer_init = \<lparr>fp_next = 1, fp_pending = []\<rparr>"

record ufifo = urb +
  uf_peer_state :: "u32 \<rightharpoonup> fifo_peer"

record rfifo = beb +
  rf_peer_state :: "u32 \<rightharpoonup> fifo_peer"

definition UFIFO_init :: "logger \<Rightarrow> u32 \<Rightarrow> ufifo" where
  "UFIFO_init l i = urb.extend (URB_init l i) \<lparr>uf_peer_state = Map.empty\<rparr>"

definition RFIFO_init :: "logger \<Rightarrow> u32 \<Rightarrow> rfifo" where
  "RFIFO_init l i = manager.extend (Manager_init l)
     \<lparr>bc_id = i, bc_n_messages_sent = 1, deliver_to_upper_layer = True, rf_peer_state = Map.empty\<rparr>"

text \<open>The loops over \<^verbatim>\<open>state.pending\<close>: the new \<^verbatim>\<open>next\<close>, \<^verbatim>\<open>to_remove\<close> and the object after logging.\<close>

fun UFIFO_loop ::
  "bool \<Rightarrow> u32 \<Rightarrow> u32 oset \<Rightarrow> u32 \<Rightarrow> 'a manager_scheme \<Rightarrow> u32 \<times> u32 list \<times> 'a manager_scheme" where
  "UFIFO_loop do_log author [] next u = (next, [], u)"
| "UFIFO_loop do_log author (seq # rest) next u =
     (if seq > next then (next, [], u)
      else (let u = (if do_log then LogDeliver (Msg_Id seq author) u else u);
                r = UFIFO_loop do_log author rest (next + 1) u
            in (fst r, seq # fst (snd r), snd (snd r))))"

fun RFIFO_loop ::
  "bool \<Rightarrow> u32 \<Rightarrow> u32 oset \<Rightarrow> u32 \<Rightarrow> 'a manager_scheme \<Rightarrow> u32 \<times> u32 list \<times> 'a manager_scheme" where
  "RFIFO_loop do_log author [] next b = (next, [], b)"
| "RFIFO_loop do_log author (seq # rest) next b =
     (if seq > next then (next, [], b)
      else if seq > next then (next, [], b)
      else (let b = (if do_log then LogDeliver (Msg_Id seq author) b else b);
                r = RFIFO_loop do_log author rest (next + 1) b
            in (fst r, seq # fst (snd r), snd (snd r))))"

definition UFIFO_SendInternal :: "bcast_message \<Rightarrow> 'a ufifo_scheme \<Rightarrow> 'a ufifo_scheme result" where
  "UFIFO_SendInternal msg u = URB_SendInternal msg u"

text \<open>\<^verbatim>\<open>peer_state_[id.author]\<close> creates a missing entry.\<close>

definition UFIFO_DeliverInternal :: "msg_id \<Rightarrow> bool \<Rightarrow> 'a ufifo_scheme \<Rightarrow> 'a ufifo_scheme" where
  "UFIFO_DeliverInternal i do_log u =
     (let a = id_author i;
          state = (case uf_peer_state u a of None \<Rightarrow> FifoPeer_init | Some st \<Rightarrow> st);
          u = u\<lparr>uf_peer_state := (uf_peer_state u)(a \<mapsto> state)\<rparr>
      in if id_seq i < fp_next state then u
         else
           (let pending = oset_insert (id_seq i) (fp_pending state);
                r = UFIFO_loop do_log a pending (fp_next state) u;
                state = \<lparr>fp_next = fst r, fp_pending = oset_erase_all (fst (snd r)) pending\<rparr>
            in (snd (snd r))\<lparr>uf_peer_state := (uf_peer_state u)(a \<mapsto> state)\<rparr>))"

definition UFIFO_NotifyInternal :: "bcast_message \<Rightarrow> 'a ufifo_scheme \<Rightarrow> 'a ufifo_scheme result" where
  "UFIFO_NotifyInternal msg u = URB_NotifyInternal UFIFO_DeliverInternal msg u"

definition RFIFO_SendInternal :: "bcast_message \<Rightarrow> 'a rfifo_scheme \<Rightarrow> 'a rfifo_scheme result" where
  "RFIFO_SendInternal msg b = BEB_SendInternal msg b"

definition RFIFO_DeliverInternal :: "msg_id \<Rightarrow> bool \<Rightarrow> 'a rfifo_scheme \<Rightarrow> 'a rfifo_scheme" where
  "RFIFO_DeliverInternal i do_log b =
     (let a = id_author i;
          state = (case rf_peer_state b a of None \<Rightarrow> FifoPeer_init | Some st \<Rightarrow> st);
          b = b\<lparr>rf_peer_state := (rf_peer_state b)(a \<mapsto> state)\<rparr>
      in if id_seq i < fp_next state then b
         else
           (let pending = oset_insert (id_seq i) (fp_pending state);
                r = RFIFO_loop do_log a pending (fp_next state) b;
                state = \<lparr>fp_next = fst r, fp_pending = oset_erase_all (fst (snd r)) pending\<rparr>
            in (snd (snd r))\<lparr>rf_peer_state := (rf_peer_state b)(a \<mapsto> state)\<rparr>))"

definition RFIFO_NotifyInternal :: "bcast_message \<Rightarrow> 'a rfifo_scheme \<Rightarrow> 'a rfifo_scheme result" where
  "RFIFO_NotifyInternal msg b = BEB_NotifyInternal RFIFO_DeliverInternal msg b"

definition ufifo_vt :: "'a ufifo_scheme vtable" where
  "ufifo_vt = \<lparr>vt_SendInternal = UFIFO_SendInternal, vt_NotifyInternal = UFIFO_NotifyInternal,
     vt_DeliverInternal = UFIFO_DeliverInternal\<rparr>"

definition rfifo_vt :: "'a rfifo_scheme vtable" where
  "rfifo_vt = \<lparr>vt_SendInternal = RFIFO_SendInternal, vt_NotifyInternal = RFIFO_NotifyInternal,
     vt_DeliverInternal = RFIFO_DeliverInternal\<rparr>"

section \<open>The reorder buffer as a set with a low-water mark\<close>

text \<open>
  The state of the buffer for one author is that of \<open>peer_state\<close>: everything below
  \<^verbatim>\<open>next\<close> has been logged, \<^verbatim>\<open>pending\<close> lies above it. \<open>fifo_insert\<close> is the abstract effect
  of a delivery and \<open>fifo_run\<close> the sequence of numbers it logs.
\<close>

definition as_peer :: "fifo_peer \<Rightarrow> peer_state" where
  "as_peer p = \<lparr>bottom = fp_next p, ps_delivered = fp_pending p\<rparr>"

definition fifo_insert :: "u32 \<Rightarrow> peer_state \<Rightarrow> peer_state" where
  "fifo_insert s p = (if PeerState_Contains p s then p else PeerState_Insert s p)"

definition fifo_run :: "u32 \<Rightarrow> peer_state \<Rightarrow> u32 list" where
  "fifo_run s p = map of_nat [unat (bottom p) ..< unat (bottom (fifo_insert s p))]"

lemma as_peer_simps [simp]:
  "bottom (as_peer p) = fp_next p" "ps_delivered (as_peer p) = fp_pending p"
  "as_peer FifoPeer_init = PeerState_init"
  by (simp_all add: as_peer_def FifoPeer_init_def PeerState_init_def)

lemma RFIFO_loop_eq: "RFIFO_loop = UFIFO_loop"
proof (intro ext)
  fix l a xs n and b :: "'a manager_scheme"
  show "RFIFO_loop l a xs n b = UFIFO_loop l a xs n b"
    by (induction xs arbitrary: n b) (simp_all add: Let_def)
qed

lemma UFIFO_loop_eq:
  assumes "oset xs" and "\<forall>x \<in> set xs. b \<le> x \<and> x \<noteq> - 1"
  shows "UFIFO_loop l a xs b u = (fst (PeerState_loop b xs), snd (PeerState_loop b xs),
    if l then fold (\<lambda>s. LogDeliver (Msg_Id s a)) (snd (PeerState_loop b xs)) u else u)"
  using assms
proof (induction xs arbitrary: b u)
  case Nil
  then show ?case by simp
next
  case (Cons x xs)
  show ?case
  proof (cases "x = b")
    case True
    with Cons.prems have "\<forall>y \<in> set xs. b + 1 \<le> y \<and> y \<noteq> - 1"
      by (auto simp: oset_Cons u32_succ_le)
    with Cons True show ?thesis by (simp add: oset_Cons Let_def)
  next
    case False
    with Cons.prems have "b < x" by auto
    with False show ?thesis by simp
  qed
qed

text \<open>The loop runs through consecutive numbers.\<close>

lemma PeerState_loop_consecutive:
  assumes "oset xs" and "\<forall>x \<in> set xs. b \<le> x \<and> x \<noteq> - 1"
  shows "snd (PeerState_loop b xs) = map of_nat [unat b ..< unat (fst (PeerState_loop b xs))]"
  using assms
proof (induction xs arbitrary: b)
  case Nil
  then show ?case by simp
next
  case (Cons x xs)
  show ?case
  proof (cases "x = b")
    case True
    with Cons.prems have b: "b \<noteq> - 1" and le: "\<forall>y \<in> set xs. b + 1 \<le> y \<and> y \<noteq> - 1"
      by (auto simp: oset_Cons u32_succ_le)
    have "b + 1 \<noteq> 0" using b by (metis add_eq_0_iff2)
    then have suc: "unat (b + 1) = Suc (unat b)" by (metis add.commute unatSuc)
    have "b + 1 \<le> fst (PeerState_loop (b + 1) xs)"
      using PeerState_loop_spec [of xs "b + 1"] Cons.prems(1) le by (auto simp: oset_Cons)
    then have "Suc (unat b) \<le> unat (fst (PeerState_loop (b + 1) xs))"
      by (metis suc word_le_nat_alt)
    with True Cons.IH [of "b + 1"] Cons.prems(1) le show ?thesis
      by (simp add: Let_def oset_Cons suc upt_conv_Cons)
  qed simp
qed

text \<open>Inserting and then running the loop is what the delivered set does.\<close>

lemma insert_then_loop:
  assumes ok: "peer_ok p" and s: "s \<noteq> - 1" "bottom p \<le> s"
  defines "xs \<equiv> oset_insert s (ps_delivered p)"
  shows "oset xs" "\<forall>x \<in> set xs. bottom p \<le> x \<and> x \<noteq> - 1"
    "\<lparr>bottom = fst (PeerState_loop (bottom p) xs),
      ps_delivered = oset_erase_all (snd (PeerState_loop (bottom p) xs)) xs\<rparr> = fifo_insert s p"
proof -
  show xs: "oset xs" "\<forall>x \<in> set xs. bottom p \<le> x \<and> x \<noteq> - 1"
    using ok s by (auto simp: xs_def peer_ok_def)
  show "\<lparr>bottom = fst (PeerState_loop (bottom p) xs),
      ps_delivered = oset_erase_all (snd (PeerState_loop (bottom p) xs)) xs\<rparr> = fifo_insert s p"
  proof (rule peer_abs_inj)
    obtain b' rm where r: "PeerState_loop (bottom p) xs = (b', rm)" by fastforce
    from PeerState_loop_spec [OF xs] r obtain rest where
      spec: "xs = rm @ rest" "bottom p \<le> b'" "set rm = {t. bottom p \<le> t \<and> t < b'}" "\<forall>x \<in> set rest. b' < x"
      by auto
    have set_xs: "insert s (set (ps_delivered p)) = set rm \<union> set rest"
      using spec(1) xs_def by (metis set_append set_oset_insert)
    have pos: "0 < bottom p" using ok by (simp add: peer_ok_def)
    then have "0 < b'" using spec(2) by (rule less_le_trans)
    moreover have "oset rest" "\<forall>x \<in> set rest. x \<noteq> - 1" using xs unfolding spec(1) by (simp_all add: oset_append)
    ultimately have "peer_ok \<lparr>bottom = b', ps_delivered = rest\<rparr>" using spec(4) by (simp add: peer_ok_def)
    then show "peer_ok \<lparr>bottom = fst (PeerState_loop (bottom p) xs),
        ps_delivered = oset_erase_all (snd (PeerState_loop (bottom p) xs)) xs\<rparr>"
      unfolding r by (simp add: spec(1))
    from pos have "{t. 0 < t \<and> t < b'} = {t. 0 < t \<and> t < bottom p} \<union> set rm"
      using spec(2) unfolding spec(3) by auto
    then have new: "peer_abs \<lparr>bottom = b', ps_delivered = rest\<rparr> = insert s (peer_abs p)"
      using set_xs [symmetric] by (simp add: peer_abs_def Un_assoc)
    have fits: "\<not> PeerState_Contains p s \<Longrightarrow> peer_fits p s" using s by (simp add: peer_fits_def)
    show "peer_ok (fifo_insert s p)"
      using ok fits by (simp add: fifo_insert_def peer_Insert(2))
    have "PeerState_Contains p s \<Longrightarrow> s \<in> peer_abs p"
      using pos s by (auto simp: PeerState_Contains_def peer_abs_def)
    then have "peer_abs (fifo_insert s p) = insert s (peer_abs p)"
      using ok fits by (auto simp: fifo_insert_def peer_Insert(1))
    with new show "peer_abs \<lparr>bottom = fst (PeerState_loop (bottom p) xs),
        ps_delivered = oset_erase_all (snd (PeerState_loop (bottom p) xs)) xs\<rparr> = peer_abs (fifo_insert s p)"
      unfolding r by (simp add: spec(1))
  qed
qed

lemma fifo_insert_ok:
  assumes "peer_ok p" and "0 < s" and "s \<noteq> - 1"
  shows "peer_ok (fifo_insert s p)" "peer_abs (fifo_insert s p) = insert s (peer_abs p)"
    "bottom p \<le> bottom (fifo_insert s p)"
proof -
  have fits: "\<not> PeerState_Contains p s \<Longrightarrow> peer_fits p s" using assms(3) by (simp add: peer_fits_def)
  show ok: "peer_ok (fifo_insert s p)"
    using assms(1) fits by (simp add: fifo_insert_def peer_Insert(2))
  show abs: "peer_abs (fifo_insert s p) = insert s (peer_abs p)"
    using assms fits by (auto simp: fifo_insert_def peer_Insert(1) peer_Contains_abs)
  show "bottom p \<le> bottom (fifo_insert s p)"
  proof (rule ccontr)
    let ?b = "bottom (fifo_insert s p)"
    assume "\<not> bottom p \<le> ?b"
    then have "?b \<in> peer_abs p" using ok by (auto simp: peer_abs_def peer_ok_def)
    then have "?b \<in> peer_abs (fifo_insert s p)" using abs by simp
    moreover have "?b \<notin> peer_abs (fifo_insert s p)" using ok by (auto simp: peer_abs_def peer_ok_def)
    ultimately show False by simp
  qed
qed

section \<open>The contract of the layer\<close>

text \<open>The lines of the log that report deliveries of author \<open>a\<close>, in order.\<close>

definition author_lines :: "u32 \<Rightarrow> logger \<Rightarrow> string list" where
  "author_lines a l = filter (\<lambda>x. x \<in> range (deliver_line a)) (lg_lines l)"

text \<open>The numbers below \<open>n\<close>, from 1.\<close>

definition seqs_below :: "u32 \<Rightarrow> u32 list" where
  "seqs_below n = map of_nat [1 ..< unat n]"

lemma unat_lt2p_32: "unat (n :: u32) < 2 ^ 32"
  using unsigned_less [where ?'b = 32 and w = n, where ?'a = nat] by simp

lemma set_seqs_below [simp]: "set (seqs_below n) = {s. 0 < s \<and> s < n}"
proof (intro set_eqI iffI)
  fix s assume "s \<in> set (seqs_below n)"
  then obtain k where k: "s = of_nat k" "1 \<le> k" "k < unat n" by (auto simp: seqs_below_def)
  then have "unat s = k" using unat_lt2p_32 [of n] by (simp add: unat_of_nat)
  with k show "s \<in> {s. 0 < s \<and> s < n}" by (simp add: word_less_nat_alt)
next
  fix s assume "s \<in> {s. 0 < s \<and> s < n}"
  then have "1 \<le> unat s" "unat s < unat n" by (simp_all add: word_less_nat_alt)
  then show "s \<in> set (seqs_below n)"
    by (auto simp: seqs_below_def intro!: image_eqI [of _ _ "unat s"])
qed

lemma seqs_below_append:
  assumes "0 < b" and "b \<le> b'"
  shows "seqs_below b @ map of_nat [unat b ..< unat b'] = seqs_below b'"
proof -
  have "[1 ..< unat b] @ [unat b ..< unat b'] = [1 ..< unat b']"
    using assms by (metis le_add_diff_inverse upt_add_eq_append word_le_nat_alt unat_gt_0
        Suc_leI One_nat_def word_gt_0)
  then show ?thesis unfolding seqs_below_def by (metis map_append)
qed

lemma author_lines_write_other:
  "x \<notin> range (deliver_line a) \<Longrightarrow> author_lines a (Logger_write l x) = author_lines a l"
  by (simp add: author_lines_def Logger_write_lines)

lemma author_lines_writes:
  assumes "lg_is_open l"
  shows "author_lines a (fold (\<lambda>s l. Logger_write l (deliver_line b s)) ss l) =
    (if a = b then author_lines a l @ map (deliver_line a) ss else author_lines a l)"
  using assms
  by (induction ss arbitrary: l) (auto simp: author_lines_def Logger_write_lines)

lemma fold_write_open [simp]: "lg_is_open (fold (\<lambda>s l. Logger_write l (f s)) ss l) = lg_is_open l"
  by (induction ss arbitrary: l) simp_all

locale fifo_layer =
  fixes deliver :: "msg_id \<Rightarrow> bool \<Rightarrow> 'a manager_scheme \<Rightarrow> 'a manager_scheme"
    and buffer :: "'a manager_scheme \<Rightarrow> u32 \<Rightarrow> peer_state"
  assumes deliver_buffer: "peer_ok (buffer u (id_author i)) \<Longrightarrow> id_seq i \<noteq> - 1 \<Longrightarrow>
      buffer (deliver i l u) = (buffer u)(id_author i := fifo_insert (id_seq i) (buffer u (id_author i)))"
    and deliver_log: "peer_ok (buffer u (id_author i)) \<Longrightarrow> id_seq i \<noteq> - 1 \<Longrightarrow>
      mgr_logger (deliver i True u) =
        fold (\<lambda>s l. Logger_write l (deliver_line (id_author i) s))
          (fifo_run (id_seq i) (buffer u (id_author i))) (mgr_logger u)"
begin

text \<open>
  The log shows, per author, the numbers below the low-water mark, in order and each once.
\<close>

definition log_in_order :: "'a manager_scheme \<Rightarrow> bool" where
  "log_in_order u \<longleftrightarrow> lg_is_open (mgr_logger u) \<and>
     (\<forall>a. peer_ok (buffer u a) \<and>
        author_lines a (mgr_logger u) = map (deliver_line a) (seqs_below (bottom (buffer u a))))"

lemma log_in_order_cong:
  assumes "log_in_order u" and "mgr_logger u' = mgr_logger u" and "buffer u' = buffer u"
  shows "log_in_order u'"
  using assms by (simp add: log_in_order_def)

lemma log_in_order_broadcast:
  assumes "log_in_order u" and "mgr_logger u' = Logger_write (mgr_logger u) (broadcast_line s)"
    and "buffer u' = buffer u"
  shows "log_in_order u'"
proof -
  have "broadcast_line s \<notin> range (deliver_line a)" for a by auto
  with assms show ?thesis by (simp add: log_in_order_def author_lines_write_other)
qed

lemma log_in_order_deliver:
  assumes inv: "log_in_order u" and s: "0 < id_seq i" "id_seq i \<noteq> - 1"
  shows "log_in_order (deliver i True u)"
    "peer_abs (buffer (deliver i True u) a) =
       (if a = id_author i then insert (id_seq i) (peer_abs (buffer u a)) else peer_abs (buffer u a))"
proof -
  let ?p = "buffer u (id_author i)"
  have ok: "peer_ok ?p" "0 < bottom ?p" using inv by (auto simp: log_in_order_def peer_ok_def)
  note ins = fifo_insert_ok [OF ok(1) s]
  note b = deliver_buffer [OF ok(1) s(2)] and l = deliver_log [OF ok(1) s(2)]
  have "author_lines a (mgr_logger (deliver i True u)) =
      map (deliver_line a) (seqs_below (bottom (buffer (deliver i True u) a)))" for a
    using inv arg_cong [OF seqs_below_append [OF ok(2) ins(3)], of "map (deliver_line (id_author i))"]
    by (auto simp: b l log_in_order_def author_lines_writes fifo_run_def)
  with inv ins(1) show "log_in_order (deliver i True u)"
    by (simp add: log_in_order_def b) (simp add: l)
  show "peer_abs (buffer (deliver i True u) a) =
      (if a = id_author i then insert (id_seq i) (peer_abs (buffer u a)) else peer_abs (buffer u a))"
    by (simp add: b ins(2))
qed

lemma in_order_lines:
  assumes "log_in_order u"
  shows "\<exists>k. filter (\<lambda>x. x \<in> range (deliver_line a)) (lg_lines (mgr_logger u)) =
    map (\<lambda>j. deliver_line a (of_nat j)) [1 ..< Suc k]"
proof -
  let ?n = "unat (bottom (buffer u a))"
  from assms have "author_lines a (mgr_logger u) = map (deliver_line a) (seqs_below (bottom (buffer u a)))"
    and "0 < bottom (buffer u a)"
    by (simp_all add: log_in_order_def peer_ok_def)
  then have "filter (\<lambda>x. x \<in> range (deliver_line a)) (lg_lines (mgr_logger u)) =
      map (\<lambda>j. deliver_line a (of_nat j)) [1 ..< Suc (?n - 1)]"
    by (simp add: author_lines_def seqs_below_def o_def unat_gt_0 word_gt_0 del: upt_Suc)
  then show ?thesis by blast
qed

text \<open>A number is logged exactly when it and all smaller ones have been delivered.\<close>

lemma logged_iff_prefix:
  assumes "log_in_order u" and "0 < s"
  shows "deliver_line a s \<in> set (lg_lines (mgr_logger u)) \<longleftrightarrow>
    (\<forall>s'. 0 < s' \<and> s' \<le> s \<longrightarrow> s' \<in> peer_abs (buffer u a))"
proof -
  have "deliver_line a s \<in> set (lg_lines (mgr_logger u)) \<longleftrightarrow>
      deliver_line a s \<in> set (author_lines a (mgr_logger u))"
    by (simp add: author_lines_def)
  also have "\<dots> \<longleftrightarrow> s < bottom (buffer u a)"
    using assms by (auto simp: log_in_order_def)
  finally show ?thesis
    using assms peer_bottom_least [of "buffer u a" s] by (simp add: log_in_order_def)
qed

end

section \<open>Both classes implement the contract\<close>

lemma fold_LogDeliver:
  "fold (\<lambda>s. LogDeliver (Msg_Id s a)) ss u =
     u\<lparr>mgr_logger := fold (\<lambda>s l. Logger_write l (deliver_line a s)) ss (mgr_logger u)\<rparr>"
  by (induction ss arbitrary: u) (simp_all add: LogDeliver_line log_line_def)

lemma fifo_loop_eq:
  fixes l :: bool and a :: u32 and u :: "'a manager_scheme"
  assumes "peer_ok (as_peer p)" and "s \<noteq> - 1" and "fp_next p \<le> s"
  defines "r \<equiv> UFIFO_loop l a (oset_insert s (fp_pending p)) (fp_next p) u"
  shows "as_peer \<lparr>fp_next = fst r, fp_pending = oset_erase_all (fst (snd r)) (oset_insert s (fp_pending p))\<rparr> =
      fifo_insert s (as_peer p)"
    "snd (snd r) = (if l then u\<lparr>mgr_logger := fold (\<lambda>s l. Logger_write l (deliver_line a s))
        (fifo_run s (as_peer p)) (mgr_logger u)\<rparr> else u)"
proof -
  let ?xs = "oset_insert s (fp_pending p)"
  from insert_then_loop [of "as_peer p" s] assms(1-3)
  have xs: "oset ?xs" "\<forall>x \<in> set ?xs. fp_next p \<le> x \<and> x \<noteq> - 1"
    and ins: "\<lparr>bottom = fst (PeerState_loop (fp_next p) ?xs),
      ps_delivered = oset_erase_all (snd (PeerState_loop (fp_next p) ?xs)) ?xs\<rparr> = fifo_insert s (as_peer p)"
    by simp_all
  note loop = UFIFO_loop_eq [OF xs]
  show "as_peer \<lparr>fp_next = fst r, fp_pending = oset_erase_all (fst (snd r)) ?xs\<rparr> = fifo_insert s (as_peer p)"
    using ins by (simp add: r_def loop as_peer_def)
  have "fifo_run s (as_peer p) = snd (PeerState_loop (fp_next p) ?xs)"
    unfolding fifo_run_def ins [symmetric] by (simp add: PeerState_loop_consecutive [OF xs])
  then show "snd (snd r) = (if l then u\<lparr>mgr_logger := fold (\<lambda>s l. Logger_write l (deliver_line a s))
        (fifo_run s (as_peer p)) (mgr_logger u)\<rparr> else u)"
    by (simp add: r_def loop fold_LogDeliver)
qed

lemma fifo_old:
  assumes "s < fp_next p"
  shows "fifo_insert s (as_peer p) = as_peer p" "fifo_run s (as_peer p) = []"
  using assms by (simp_all add: fifo_insert_def fifo_run_def PeerState_Contains_def)

definition ufifo_buffer :: "'a ufifo_scheme \<Rightarrow> u32 \<Rightarrow> peer_state" where
  "ufifo_buffer u a = as_peer (case uf_peer_state u a of None \<Rightarrow> FifoPeer_init | Some p \<Rightarrow> p)"

definition rfifo_buffer :: "'a rfifo_scheme \<Rightarrow> u32 \<Rightarrow> peer_state" where
  "rfifo_buffer b a = as_peer (case rf_peer_state b a of None \<Rightarrow> FifoPeer_init | Some p \<Rightarrow> p)"

interpretation ufifo: fifo_layer UFIFO_DeliverInternal "ufifo_buffer :: 'a ufifo_scheme \<Rightarrow> u32 \<Rightarrow> peer_state"
proof unfold_locales
  fix u :: "'a ufifo_scheme" and i l
  define p where "p = (case uf_peer_state u (id_author i) of None \<Rightarrow> FifoPeer_init | Some st \<Rightarrow> st)"
  assume ok: "peer_ok (ufifo_buffer u (id_author i))" and s: "id_seq i \<noteq> - 1"
  then have okp: "peer_ok (as_peer p)" by (simp add: ufifo_buffer_def p_def)
  note loop = fifo_loop_eq [OF okp s]
  show "ufifo_buffer (UFIFO_DeliverInternal i l u) =
      (ufifo_buffer u)(id_author i := fifo_insert (id_seq i) (ufifo_buffer u (id_author i)))"
    by (cases "id_seq i < fp_next p")
      (auto simp: UFIFO_DeliverInternal_def Let_def p_def [symmetric] ufifo_buffer_def fun_eq_iff fifo_old
        loop not_less)
  show "mgr_logger (UFIFO_DeliverInternal i True u) =
      fold (\<lambda>s l. Logger_write l (deliver_line (id_author i) s))
        (fifo_run (id_seq i) (ufifo_buffer u (id_author i))) (mgr_logger u)"
    by (cases "id_seq i < fp_next p")
      (auto simp: UFIFO_DeliverInternal_def Let_def p_def [symmetric] ufifo_buffer_def fifo_old loop not_less)
qed

interpretation rfifo: fifo_layer RFIFO_DeliverInternal "rfifo_buffer :: 'a rfifo_scheme \<Rightarrow> u32 \<Rightarrow> peer_state"
proof unfold_locales
  fix b :: "'a rfifo_scheme" and i l
  define p where "p = (case rf_peer_state b (id_author i) of None \<Rightarrow> FifoPeer_init | Some st \<Rightarrow> st)"
  assume ok: "peer_ok (rfifo_buffer b (id_author i))" and s: "id_seq i \<noteq> - 1"
  then have okp: "peer_ok (as_peer p)" by (simp add: rfifo_buffer_def p_def)
  note loop = fifo_loop_eq [OF okp s]
  show "rfifo_buffer (RFIFO_DeliverInternal i l b) =
      (rfifo_buffer b)(id_author i := fifo_insert (id_seq i) (rfifo_buffer b (id_author i)))"
    by (cases "id_seq i < fp_next p")
      (auto simp: RFIFO_DeliverInternal_def RFIFO_loop_eq Let_def p_def [symmetric] rfifo_buffer_def
        fun_eq_iff fifo_old loop not_less)
  show "mgr_logger (RFIFO_DeliverInternal i True b) =
      fold (\<lambda>s l. Logger_write l (deliver_line (id_author i) s))
        (fifo_run (id_seq i) (rfifo_buffer b (id_author i))) (mgr_logger b)"
    by (cases "id_seq i < fp_next p")
      (auto simp: RFIFO_DeliverInternal_def RFIFO_loop_eq Let_def p_def [symmetric] rfifo_buffer_def
        fifo_old loop not_less)
qed

text \<open>The loops change the log only, so the classes also meet the contracts of their bases.\<close>

lemma UFIFO_loop_frame:
  "\<exists>l'. snd (snd (UFIFO_loop l a xs n u)) = u\<lparr>mgr_logger := l'\<rparr>"
proof (induction xs arbitrary: n u)
  case Nil
  show ?case by (auto intro: exI [of _ "mgr_logger u"])
next
  case (Cons x xs)
  obtain l1 where "(if l then LogDeliver (Msg_Id x a) u else u) = u\<lparr>mgr_logger := l1\<rparr>"
    by (cases l) (auto simp: LogDeliver_def log_line_def intro: that [of "mgr_logger u"])
  moreover obtain l2 where
    "snd (snd (UFIFO_loop l a xs (n + 1) (u\<lparr>mgr_logger := l1\<rparr>))) = u\<lparr>mgr_logger := l1\<rparr>\<lparr>mgr_logger := l2\<rparr>"
    using Cons.IH by blast
  ultimately show ?case
    by (auto simp: Let_def intro: exI [of _ "mgr_logger u"])
qed

lemma UFIFO_DeliverInternal_frame:
  "\<exists>l' P. UFIFO_DeliverInternal i l u = u\<lparr>mgr_logger := l', uf_peer_state := P\<rparr>"
proof -
  define p where "p = (case uf_peer_state u (id_author i) of None \<Rightarrow> FifoPeer_init | Some st \<Rightarrow> st)"
  let ?u = "u\<lparr>uf_peer_state := (uf_peer_state u)(id_author i \<mapsto> p)\<rparr>"
  obtain l' where "snd (snd (UFIFO_loop l (id_author i) (oset_insert (id_seq i) (fp_pending p))
      (fp_next p) ?u)) = ?u\<lparr>mgr_logger := l'\<rparr>"
    using UFIFO_loop_frame by blast
  then have new: "\<exists>P. UFIFO_DeliverInternal i l u = u\<lparr>mgr_logger := l', uf_peer_state := P\<rparr>"
    if "\<not> id_seq i < fp_next p"
    using that by (auto simp: UFIFO_DeliverInternal_def Let_def p_def [symmetric])
  have old: "UFIFO_DeliverInternal i l u =
      u\<lparr>mgr_logger := mgr_logger u, uf_peer_state := (uf_peer_state u)(id_author i \<mapsto> p)\<rparr>"
    if "id_seq i < fp_next p"
    using that by (simp add: UFIFO_DeliverInternal_def Let_def p_def [symmetric])
  show ?thesis by (rule case_split [of "id_seq i < fp_next p"]) (use old new in blast)+
qed

lemma RFIFO_DeliverInternal_frame:
  "\<exists>l' P. RFIFO_DeliverInternal i l u = u\<lparr>mgr_logger := l', rf_peer_state := P\<rparr>"
proof -
  define p where "p = (case rf_peer_state u (id_author i) of None \<Rightarrow> FifoPeer_init | Some st \<Rightarrow> st)"
  let ?u = "u\<lparr>rf_peer_state := (rf_peer_state u)(id_author i \<mapsto> p)\<rparr>"
  obtain l' where "snd (snd (RFIFO_loop l (id_author i) (oset_insert (id_seq i) (fp_pending p))
      (fp_next p) ?u)) = ?u\<lparr>mgr_logger := l'\<rparr>"
    using UFIFO_loop_frame unfolding RFIFO_loop_eq by blast
  then have new: "\<exists>P. RFIFO_DeliverInternal i l u = u\<lparr>mgr_logger := l', rf_peer_state := P\<rparr>"
    if "\<not> id_seq i < fp_next p"
    using that by (auto simp: RFIFO_DeliverInternal_def Let_def p_def [symmetric])
  have old: "RFIFO_DeliverInternal i l u =
      u\<lparr>mgr_logger := mgr_logger u, rf_peer_state := (rf_peer_state u)(id_author i \<mapsto> p)\<rparr>"
    if "id_seq i < fp_next p"
    using that by (simp add: RFIFO_DeliverInternal_def Let_def p_def [symmetric])
  show ?thesis by (rule case_split [of "id_seq i < fp_next p"]) (use old new in blast)+
qed

lemma UFIFO_DeliverInternal_same: "same_urb u (UFIFO_DeliverInternal i l u)"
  using UFIFO_DeliverInternal_frame [of i l u] by (auto simp: same_urb_def)

interpretation ufifo_urb: urb_class "ufifo_vt :: 'a ufifo_scheme vtable"
  by unfold_locales
    (simp_all add: ufifo_vt_def UFIFO_SendInternal_def UFIFO_NotifyInternal_def UFIFO_DeliverInternal_same)

section \<open>Runs of uniform FIFO broadcast\<close>

text \<open>
  The reorder buffer holds exactly the identifiers of the delivered set, and the log is in
  order.
\<close>

definition fifo_sync :: "'a ufifo_scheme \<Rightarrow> bool" where
  "fifo_sync u \<longleftrightarrow> \<not> deliver_to_upper_layer u \<and> ufifo.log_in_order u \<and>
     (\<forall>a. peer_abs (ufifo_buffer u a) = {s. Msg_Id s a \<in> set_abs (delivered u)})"

lemma ufifo_buffer_more: "urb.more u' = urb.more u \<Longrightarrow> ufifo_buffer u' = ufifo_buffer u"
  by (cases u; cases u') (simp add: ufifo_buffer_def fun_eq_iff)

lemma fifo_sync_frame:
  assumes "fifo_sync u" and "mgr_logger u' = mgr_logger u" and "urb.more u' = urb.more u"
    and "deliver_to_upper_layer u' = deliver_to_upper_layer u" and "delivered u' = delivered u"
  shows "fifo_sync u'"
  using assms(1,2,4,5) ufifo_buffer_more [OF assms(3)]
  by (simp add: fifo_sync_def ufifo.log_in_order_def)

lemma fifo_sync_deliver_one:
  assumes inv: "urb_inv u" and i: "i \<in> pending_for_delivery u" and sync: "fifo_sync u"
    and run: "URB_deliver_one ufifo_vt after_pop i u = Inr u'"
  shows "fifo_sync u'"
  using run
proof (cases rule: ufifo_urb.deliver_one_cases)
  case skip
  with sync show ?thesis by (auto intro: fifo_sync_frame)
next
  case (deliver u1)
  let ?u2 = "u1\<lparr>delivered := DeliveredSet_Insert i (delivered u1), acks := (acks u1)(i := None)\<rparr>"
  have s: "0 < id_seq i" "id_seq i \<noteq> - 1" using inv i by (auto simp: urb_inv_def delivery_ok_def)
  have abs: "set_abs (DeliveredSet_Insert i (delivered u)) = insert i (set_abs (delivered u))"
    by (rule ufifo_urb.delivered_Insert(1) [OF _ i deliver(2)]) (use inv in \<open>simp add: urb_inv_def\<close>)
  note f = ufifo_urb.move_window_frame [OF deliver(3)]
  have buf: "ufifo_buffer ?u2 = ufifo_buffer u" by (rule ufifo_buffer_more) (simp add: f(3))
  have order: "ufifo.log_in_order ?u2"
    using sync by (intro ufifo.log_in_order_cong [OF _ _ buf]) (simp_all add: fifo_sync_def f)
  have u': "u' = UFIFO_DeliverInternal i True ?u2" by (simp add: deliver(4) ufifo_vt_def)
  have same: "same_urb ?u2 u'" unfolding u' by (rule UFIFO_DeliverInternal_same)
  then have "delivered u' = DeliveredSet_Insert i (delivered u)"
    "deliver_to_upper_layer u' = deliver_to_upper_layer u"
    by (simp_all add: same_urb_def f)
  moreover have "ufifo.log_in_order u'" unfolding u' by (rule ufifo.log_in_order_deliver(1) [OF order s])
  moreover have "peer_abs (ufifo_buffer u' a) = {t. Msg_Id t a \<in> insert i (set_abs (delivered u))}" for a
    using ufifo.log_in_order_deliver(2) [OF order s, of a] sync
    unfolding u' buf by (cases i) (auto simp: fifo_sync_def)
  ultimately show ?thesis using sync by (simp add: fifo_sync_def abs)
qed

lemma fifo_sync_fold:
  assumes "fold_result (URB_deliver_one ufifo_vt after_pop) ids u = Inr u'"
    and "urb_inv u" and "fifo_sync u" and "distinct ids" and "set ids \<subseteq> pending_for_delivery u"
    and "reads_front after_pop"
  shows "fifo_sync u'"
  using ufifo_urb.fold_deliver_induct [where P = fifo_sync, OF assms(1-6)] fifo_sync_deliver_one by blast

lemma fifo_sync_step:
  assumes inv: "urb_inv u" and sync: "fifo_sync u" and pop: "reads_front after_pop"
    and step: "urb_step ufifo_vt after_pop u u'"
  shows "fifo_sync u'"
proof -
  have same: "fifo_sync u'" if "same_protocol u u'"
    by (rule fifo_sync_frame [OF sync]) (use that in \<open>simp_all add: same_protocol_def\<close>)
  from step show ?thesis
  proof (cases rule: urb_step.cases)
    case (step_send msg)
    note keeps = ufifo_urb.Send_keeps [OF step_send(1)]
    note buf = ufifo_buffer_more [OF ufifo_urb.Send_more [OF step_send(1)]]
    from sync have "ufifo.log_in_order u'"
      by (intro ufifo.log_in_order_broadcast [OF _ ufifo_urb.Send_logger [OF step_send(1)] buf])
        (simp add: fifo_sync_def)
    with sync keeps buf show ?thesis by (simp add: fifo_sync_def)
  next
    case (step_notify msg)
    have "\<not> deliver_to_upper_layer u" using sync by (simp add: fifo_sync_def)
    with sync ufifo_urb.Notify_keeps [OF step_notify(1)] ufifo_urb.Notify_logger [OF step_notify(1)]
    show ?thesis by (auto intro: fifo_sync_frame)
  next
    case (step_deliver ids)
    with inv sync pop show ?thesis
      by (auto simp: URB_DeliverPending_def split: if_splits intro: fifo_sync_fold)
  qed (use same same_protocol_steps in metis)+
qed

definition ufifo_started :: "ufifo \<Rightarrow> bool" where
  "ufifo_started u \<longleftrightarrow> (\<exists>l i pls. lg_is_open l \<and> lg_lines l = [] \<and> u = fold URB_Add pls (UFIFO_init l i))"

definition ufifo_next :: "ufifo \<Rightarrow> ufifo \<Rightarrow> bool" where
  "ufifo_next u u' \<longleftrightarrow> (\<exists>after_pop. reads_front after_pop \<and> urb_step ufifo_vt after_pop u u')"

lemma urb_fresh_UFIFO_init: "urb_fresh (UFIFO_init l i)"
  by (simp add: urb_fresh_def UFIFO_init_def URB_init_def manager.defs urb.defs)

lemma URB_Add_more: "urb.more (fold URB_Add pls u) = urb.more u"
  by (induction pls arbitrary: u) (simp_all add: URB_Add_def Let_def)

lemma ufifo_started_inv:
  assumes "ufifo_started u"
  shows "urb_inv u \<and> own_all u \<and> fifo_sync u"
proof -
  from assms obtain l i pls where l: "lg_is_open l" "lg_lines l = []"
    and u: "u = fold URB_Add pls (UFIFO_init l i)"
    by (auto simp: ufifo_started_def)
  have fresh: "urb_fresh u" unfolding u by (intro urb_fresh_Adds urb_fresh_UFIFO_init)
  have "mgr_logger u = l"
    by (simp add: u URB_Add_logger) (simp add: UFIFO_init_def URB_init_def Manager_init_def manager.defs urb.defs)
  moreover have "ufifo_buffer u = ufifo_buffer (UFIFO_init l i)"
    unfolding u by (rule ufifo_buffer_more [OF URB_Add_more])
  then have "ufifo_buffer u = (\<lambda>_. PeerState_init)"
    by (simp add: fun_eq_iff ufifo_buffer_def UFIFO_init_def URB_init_def manager.defs urb.defs)
  ultimately have "fifo_sync u"
    using fresh l by (auto simp: fifo_sync_def ufifo.log_in_order_def urb_fresh_def author_lines_def dset.abs_emp)
      (simp_all add: PeerState_init_def seqs_below_def)
  with fresh show ?thesis by (simp add: urb_fresh_inv)
qed

interpretation ufifo_runs: invariant ufifo_started ufifo_next "\<lambda>u. urb_inv u \<and> own_all u \<and> fifo_sync u"
proof unfold_locales
  fix u assume "ufifo_started u"
  then show "urb_inv u \<and> own_all u \<and> fifo_sync u" by (rule ufifo_started_inv)
next
  fix u u' assume "urb_inv u \<and> own_all u \<and> fifo_sync u" and "ufifo_next u u'"
  then show "urb_inv u' \<and> own_all u' \<and> fifo_sync u'"
    unfolding ufifo_next_def
    by (metis fifo_sync_step ufifo_urb.step_inv ufifo_urb.step_own_all)
qed

section \<open>Runs of reliable FIFO broadcast\<close>

inductive rfifo_step :: "'a rfifo_scheme \<Rightarrow> 'a rfifo_scheme \<Rightarrow> bool" where
  rstep_send: "Broadcast_Send rfifo_vt msg b = Inr b' \<Longrightarrow> rfifo_step b b'"
| rstep_notify: "vt_NotifyInternal rfifo_vt msg b = Inr b' \<Longrightarrow> 0 < id_seq (bm_id msg) \<Longrightarrow>
     id_seq (bm_id msg) \<noteq> - 1 \<Longrightarrow> rfifo_step b b'"
| rstep_links: "rfifo_step b (b\<lparr>perfect_links := links\<rparr>)"
| rstep_start: "Manager_Start b = Inr b' \<Longrightarrow> rfifo_step b b'"
| rstep_stop: "rfifo_step b (Manager_Stop b)"

definition rfifo_ok :: "'a rfifo_scheme \<Rightarrow> bool" where
  "rfifo_ok b \<longleftrightarrow> deliver_to_upper_layer b \<and> rfifo.log_in_order b"

definition rfifo_started :: "rfifo \<Rightarrow> bool" where
  "rfifo_started b \<longleftrightarrow> (\<exists>l i pls. lg_is_open l \<and> lg_lines l = [] \<and> b = fold Manager_Add pls (RFIFO_init l i))"

lemma rfifo_ok_frame:
  assumes "rfifo_ok b" and "mgr_logger b' = mgr_logger b" and "manager.more b' = manager.more b"
  shows "rfifo_ok b'"
proof -
  have "rfifo_buffer b' = rfifo_buffer b" "deliver_to_upper_layer b' = deliver_to_upper_layer b"
    using assms(3) by (cases b; cases b'; simp add: rfifo_buffer_def fun_eq_iff)+
  with assms(1,2) show ?thesis by (simp add: rfifo_ok_def rfifo.log_in_order_def)
qed

lemma RFIFO_Notify_ok:
  assumes "rfifo_ok b" and "vt_NotifyInternal rfifo_vt msg b = Inr b'"
    and "0 < id_seq (bm_id msg)" and "id_seq (bm_id msg) \<noteq> - 1"
  shows "rfifo_ok b'"
    "peer_abs (rfifo_buffer b' a) = (if a = id_author (bm_id msg)
       then insert (id_seq (bm_id msg)) (peer_abs (rfifo_buffer b a)) else peer_abs (rfifo_buffer b a))"
proof -
  from assms(1,2) have b': "b' = RFIFO_DeliverInternal (bm_id msg) True b"
    by (simp add: rfifo_vt_def RFIFO_NotifyInternal_def BEB_NotifyInternal_def rfifo_ok_def)
  have "deliver_to_upper_layer b'" using RFIFO_DeliverInternal_frame [of "bm_id msg" True b] assms(1)
    by (auto simp: b' rfifo_ok_def)
  moreover have "rfifo.log_in_order b" using assms(1) by (simp add: rfifo_ok_def)
  note rfifo.log_in_order_deliver [OF this assms(3,4)]
  ultimately show "rfifo_ok b'"
    "peer_abs (rfifo_buffer b' a) = (if a = id_author (bm_id msg)
       then insert (id_seq (bm_id msg)) (peer_abs (rfifo_buffer b a)) else peer_abs (rfifo_buffer b a))"
    by (simp_all add: b' rfifo_ok_def)
qed

lemma rfifo_ok_step:
  assumes ok: "rfifo_ok b" and step: "rfifo_step b b'"
  shows "rfifo_ok b'"
  using step
proof cases
  case (rstep_send msg)
  let ?l = "Logger_write (mgr_logger b) (broadcast_line (bc_n_messages_sent b))"
  from rstep_send have "mgr_logger b' = ?l" "rfifo_buffer b' = rfifo_buffer b"
    "deliver_to_upper_layer b' = deliver_to_upper_layer b"
    by (auto simp: Broadcast_Send_def Let_def rfifo_vt_def RFIFO_SendInternal_def BEB_SendInternal_eq
        LogSend_line log_line_def send_on_all_def rfifo_buffer_def fun_eq_iff split: if_splits)
  with ok show ?thesis
    using rfifo.log_in_order_broadcast by (auto simp: rfifo_ok_def)
next
  case (rstep_notify msg)
  with ok show ?thesis by (auto intro: RFIFO_Notify_ok)
next
  case rstep_start
  then show ?thesis
    by (intro rfifo_ok_frame [OF ok]) (auto simp: Manager_Start_def split: if_splits)
next
  case rstep_stop
  then show ?thesis
    by (intro rfifo_ok_frame [OF ok]) (auto simp: Manager_Stop_def)
next
  case (rstep_links links)
  then show ?thesis by (intro rfifo_ok_frame [OF ok]) simp_all
qed

lemma rfifo_started_ok:
  assumes "rfifo_started b"
  shows "rfifo_ok b" "rfifo_buffer b a = PeerState_init"
proof -
  from assms obtain l i pls where l: "lg_is_open l" "lg_lines l = []"
    and b: "b = fold Manager_Add pls (RFIFO_init l i)"
    by (auto simp: rfifo_started_def)
  have frame: "mgr_logger (fold Manager_Add pls b) = mgr_logger b \<and>
      manager.more (fold Manager_Add pls b) = manager.more b" for b :: rfifo
    by (induction pls arbitrary: b) (simp_all add: Manager_Add_def)
  have init: "rfifo_buffer (RFIFO_init l i) = (\<lambda>_. PeerState_init)"
    by (simp add: fun_eq_iff rfifo_buffer_def RFIFO_init_def manager.defs)
  then have "rfifo_ok (RFIFO_init l i)"
    using l by (auto simp: rfifo_ok_def rfifo.log_in_order_def author_lines_def RFIFO_init_def
        Manager_init_def manager.defs) (simp add: PeerState_init_def seqs_below_def)
  then show "rfifo_ok b" by (rule rfifo_ok_frame) (simp_all add: b frame)
  have "manager.more b = manager.more (RFIFO_init l i)" by (simp add: b frame)
  then have "rfifo_buffer b = rfifo_buffer (RFIFO_init l i)"
    by (cases b; cases "RFIFO_init l i") (simp add: rfifo_buffer_def fun_eq_iff)
  with init show "rfifo_buffer b a = PeerState_init" by simp
qed

interpretation rfifo_runs: invariant rfifo_started rfifo_step rfifo_ok
  by unfold_locales (auto intro: rfifo_started_ok rfifo_ok_step)

section \<open>Links below the FIFO classes\<close>

text \<open>The three classes leave the receiving side of the links alone.\<close>

lemma URB_SendInternal_receivers: "URB_SendInternal msg u = Inr u' \<Longrightarrow> same_receivers u u'"
  by (auto simp: URB_SendInternal_def same_receivers_def dest: BEB_SendInternal_receivers)

context urb_class
begin

lemma class_send_receivers: "vt_SendInternal vt msg u = Inr u' \<Longrightarrow> same_receivers u u'"
  by (simp add: vt_send URB_SendInternal_receivers)

lemma class_deliver_receivers: "same_receivers u (vt_DeliverInternal vt i l u)"
  using vt_deliver [of u i l] by (intro same_receivers_links_eq) (simp add: same_urb_def)

lemma class_notify_receivers: "vt_NotifyInternal vt msg u = Inr u' \<Longrightarrow> same_receivers u u'"
proof (erule Notify_cases)
  assume "same_urb u u'"
  then show ?thesis by (intro same_receivers_links_eq) (simp add: same_urb_def)
next
  assume "same_urb (u\<lparr>acks := (acks u)(bm_id msg \<mapsto> insert (bm_sender msg) (acks_of u (bm_id msg)))\<rparr>) u'"
  then show ?thesis by (intro same_receivers_links_eq) (simp add: same_urb_def)
next
  let ?v = "u\<lparr>acks := (acks u)(bm_id msg \<mapsto> insert (bm_sender msg) (acks_of u (bm_id msg))),
      pending_for_delivery := insert (bm_id msg) (pending_for_delivery u)\<rparr>"
  assume "same_urb (send_on_all (Broadcast_Serialize msg) ?v) u'"
  then have "perfect_links u' = perfect_links (send_on_all (Broadcast_Serialize msg) u)"
    by (simp add: same_urb_def send_on_all_def)
  then show ?thesis
    using same_receivers_send_on_all [of u "Broadcast_Serialize msg"]
    by (simp add: same_receivers_def)
qed

end

sublocale urb_class \<subseteq> class_layer: broadcast_layer vt
  by unfold_locales (auto intro: class_send_receivers class_notify_receivers class_deliver_receivers)

interpretation rfifo_links: broadcast_layer "rfifo_vt :: 'a rfifo_scheme vtable"
proof unfold_locales
  fix m :: "'a rfifo_scheme" and i l
  show deliver: "same_receivers m (vt_DeliverInternal rfifo_vt i l m)"
    using RFIFO_DeliverInternal_frame [of i l m]
    by (intro same_receivers_links_eq) (auto simp: rfifo_vt_def)
  show "same_receivers m m'" if "vt_NotifyInternal rfifo_vt msg m = Inr m'" for msg m'
    using that deliver RFIFO_DeliverInternal_frame [of "bm_id msg" True m]
    by (intro same_receivers_links_eq)
      (auto simp: rfifo_vt_def RFIFO_NotifyInternal_def BEB_NotifyInternal_def BEB_DeliverInternal_def
        split: if_splits)
qed (simp add: rfifo_vt_def RFIFO_SendInternal_def BEB_SendInternal_receivers)

section \<open>A run with messages out of order\<close>

text \<open>
  Process 1 hears messages 2 and 1 of process 3, in this order, and delivers after each.
\<close>

definition ex_m :: "u32 \<Rightarrow> bcast_message" where
  "ex_m s = \<lparr>bm_id = Msg_Id s 3, bm_sender = 3, bm_payload = []\<rparr>"

definition ex_fifo :: ufifo where
  "ex_fifo = fold URB_Add [ex_link 2, ex_link 3] (UFIFO_init ex_logger 1)"

definition ex_fifo_on :: ufifo where
  "ex_fifo_on = projr (URB_Start ex_fifo)"

definition ex_fifo_hear :: "u32 \<Rightarrow> ufifo \<Rightarrow> ufifo" where
  "ex_fifo_hear s u = projr (vt_NotifyInternal ufifo_vt (ex_m s) u)"

definition ex_fifo_turn :: "u32 \<Rightarrow> ufifo \<Rightarrow> ufifo" where
  "ex_fifo_turn s u = projr (URB_DeliverPending ufifo_vt Inr [Msg_Id s 3] u)"

definition ex_fifo_end :: ufifo where
  "ex_fifo_end = ex_fifo_turn 1 (ex_fifo_hear 1 (ex_fifo_turn 2 (ex_fifo_hear 2 ex_fifo_on)))"

lemmas ex_fifo_defs = ex_m_def ex_fifo_def ex_fifo_on_def ex_fifo_hear_def ex_fifo_turn_def
  UFIFO_init_def urb.defs ufifo_vt_def UFIFO_NotifyInternal_def UFIFO_DeliverInternal_def
  FifoPeer_init_def oset_insert_def insort_insert_key_def ex_urb_defs

lemma ex_fifo_runs:
  "URB_Start ex_fifo = Inr ex_fifo_on"
  "vt_NotifyInternal ufifo_vt (ex_m 2) ex_fifo_on = Inr (ex_fifo_hear 2 ex_fifo_on)"
  "honest ex_fifo_on (ex_m 2)"
  "pending_for_delivery (ex_fifo_hear 2 ex_fifo_on) = {Msg_Id 2 3}"
  "URB_DeliverPending ufifo_vt Inr [Msg_Id 2 3] (ex_fifo_hear 2 ex_fifo_on) =
     Inr (ex_fifo_turn 2 (ex_fifo_hear 2 ex_fifo_on))"
  by (simp_all add: ex_fifo_defs honest_def)

lemma ex_fifo_runs':
  defines "u \<equiv> ex_fifo_turn 2 (ex_fifo_hear 2 ex_fifo_on)"
  shows "vt_NotifyInternal ufifo_vt (ex_m 1) u = Inr (ex_fifo_hear 1 u)"
    "honest u (ex_m 1)"
    "pending_for_delivery (ex_fifo_hear 1 u) = {Msg_Id 1 3}"
    "URB_DeliverPending ufifo_vt Inr [Msg_Id 1 3] (ex_fifo_hear 1 u) = Inr ex_fifo_end"
    "lg_lines (mgr_logger u) = []"
    "lg_lines (mgr_logger ex_fifo_end) = [deliver_line 3 1, deliver_line 3 2]"
  unfolding ex_fifo_end_def u_def by (simp_all add: ex_fifo_defs honest_def)

lemma ex_fifo_reachable: "reachable ufifo_started ufifo_next ex_fifo_end"
proof -
  have rf: "reads_front Inr" by (simp add: reads_front_def)
  have step: "reachable ufifo_started ufifo_next u \<Longrightarrow> urb_step ufifo_vt Inr u u' \<Longrightarrow>
      reachable ufifo_started ufifo_next u'" for u u'
    by (erule reachable_step) (use rf in \<open>auto simp: ufifo_next_def\<close>)
  have "ufifo_started ex_fifo"
    unfolding ufifo_started_def ex_fifo_def
    by (rule exI [of _ ex_logger], rule exI [of _ 1], rule exI [of _ "[ex_link 2, ex_link 3]"])
      (simp add: ex_logger_def Logger_ctor_def Logger_file_open_def)
  then have "reachable ufifo_started ufifo_next ex_fifo" by (rule reachable_init)
  note step [OF this step_start [OF ex_fifo_runs(1)]]
  note step [OF this step_notify [OF ex_fifo_runs(2,3)]]
  from step [OF this step_deliver [OF ex_fifo_runs(5)]] ex_fifo_runs(4)
  have "reachable ufifo_started ufifo_next (ex_fifo_turn 2 (ex_fifo_hear 2 ex_fifo_on))" by simp
  note step [OF this step_notify [OF ex_fifo_runs'(1,2)]]
  note step [OF this step_deliver [OF ex_fifo_runs'(4)]]
  with ex_fifo_runs'(3) show ?thesis by simp
qed

definition ex_rfifo :: rfifo where
  "ex_rfifo = fold Manager_Add [ex_link 2, ex_link 3] (RFIFO_init ex_logger 1)"

definition ex_rfifo_after :: "bcast_message list \<Rightarrow> rfifo" where
  "ex_rfifo_after msgs = projr (fold_result (vt_NotifyInternal rfifo_vt) msgs ex_rfifo)"

lemma ex_rfifo_started: "rfifo_started ex_rfifo"
  unfolding rfifo_started_def ex_rfifo_def
  by (rule exI [of _ ex_logger], rule exI [of _ 1], rule exI [of _ "[ex_link 2, ex_link 3]"])
    (simp add: ex_logger_def Logger_ctor_def Logger_file_open_def)

lemma rfifo_notify_total:
  "fold_result (vt_NotifyInternal rfifo_vt) msgs b = Inr (projr (fold_result (vt_NotifyInternal rfifo_vt) msgs b))"
  by (induction msgs arbitrary: b)
    (simp_all add: rfifo_vt_def RFIFO_NotifyInternal_def BEB_NotifyInternal_def)

lemma rfifo_notify_reachable:
  assumes "reachable rfifo_started rfifo_step b" and "fold_result (vt_NotifyInternal rfifo_vt) msgs b = Inr b'"
    and "\<forall>m \<in> set msgs. 0 < id_seq (bm_id m) \<and> id_seq (bm_id m) \<noteq> - 1"
  shows "reachable rfifo_started rfifo_step b'"
  by (rule fold_result_invariant [where P = "reachable rfifo_started rfifo_step", OF assms(2,1)])
    (use assms(3) in \<open>blast intro: reachable_step rstep_notify\<close>)

lemma ex_rfifo_reachable: "reachable rfifo_started rfifo_step (ex_rfifo_after [ex_m 2, ex_m 2, ex_m 1])"
  unfolding ex_rfifo_after_def
  by (rule rfifo_notify_reachable [OF reachable_init [of rfifo_started, OF ex_rfifo_started] rfifo_notify_total])
    (simp add: ex_m_def)

section \<open>Properties\<close>

text \<open>
  Uniform FIFO broadcast, FIFO order and no duplication. In every run of a
  \<^verbatim>\<open>UniformFIFOBroadcast\<close> object with an open log, the delivery lines of each author, read
  in log order, are \<^verbatim>\<open>d author 1\<close>, \<^verbatim>\<open>d author 2\<close>, up to some number: no gap, no
  repetition, no inversion.
\<close>

lemma UFIFO_fifo_order:
  assumes "reachable ufifo_started ufifo_next u"
  shows "\<exists>k. filter (\<lambda>x. x \<in> range (deliver_line a)) (lg_lines (mgr_logger u)) =
    map (\<lambda>j. deliver_line a (of_nat j)) [1 ..< Suc k]"
  by (rule ufifo.in_order_lines) (use ufifo_runs.reachable_inv [OF assms] in \<open>simp add: fifo_sync_def\<close>)

text \<open>
  The FIFO layer loses nothing and adds nothing. In every run a line
  \<^verbatim>\<open>d author s\<close> is in the log exactly when uniform reliable broadcast has delivered the
  message and all earlier messages of the same author.
\<close>

lemma UFIFO_logs_delivered_prefix:
  assumes "reachable ufifo_started ufifo_next u" and "0 < s"
  shows "deliver_line a s \<in> set (lg_lines (mgr_logger u)) \<longleftrightarrow>
    (\<forall>s'. 0 < s' \<and> s' \<le> s \<longrightarrow> DeliveredSet_Contains (delivered u) (Msg_Id s' a))"
proof -
  have "fifo_sync u" using ufifo_runs.reachable_inv [OF assms(1)] by simp
  then show ?thesis
    using ufifo.logged_iff_prefix [OF _ assms(2), of u a]
    by (simp add: fifo_sync_def set_Contains_abs valid_id_def)
qed

text \<open>
  C26: Reliable FIFO broadcast, FIFO order. In every run of a \<^verbatim>\<open>ReliableFIFOBroadcast\<close>
  object with an open log, the delivery lines of each author are \<^verbatim>\<open>d author 1\<close>,
  \<^verbatim>\<open>d author 2\<close>, and so on without gap or repetition, even when the links hand up a
  message several times or out of order.
\<close>

theorem RFIFO_fifo_order:
  assumes "reachable rfifo_started rfifo_step b"
  shows "\<exists>k. filter (\<lambda>x. x \<in> range (deliver_line a)) (lg_lines (mgr_logger b)) =
    map (\<lambda>j. deliver_line a (of_nat j)) [1 ..< Suc k]"
  by (rule rfifo.in_order_lines) (use rfifo_runs.reachable_inv [OF assms] in \<open>simp add: rfifo_ok_def\<close>)

theorem RFIFO_fifo_order_witness:
  "\<exists>k. filter (\<lambda>x. x \<in> range (deliver_line 3)) (lg_lines (mgr_logger (ex_rfifo_after [ex_m 2, ex_m 2, ex_m 1]))) =
    map (\<lambda>j. deliver_line 3 (of_nat j)) [1 ..< Suc k]"
  by (rule RFIFO_fifo_order [OF ex_rfifo_reachable])

text \<open>
  Reliable FIFO broadcast logs what it heard. After the messages \<open>msgs\<close> have come in,
  in any order and with any repetition, \<^verbatim>\<open>d author s\<close> is logged exactly when the messages
  \<open>1 \<dots> s\<close> of the author are among them.
\<close>

lemma RFIFO_logs_heard_prefix:
  assumes "rfifo_started b" and "fold_result (vt_NotifyInternal rfifo_vt) msgs b = Inr b'"
    and "\<forall>m \<in> set msgs. 0 < id_seq (bm_id m) \<and> id_seq (bm_id m) \<noteq> - 1" and "0 < s"
  shows "deliver_line a s \<in> set (lg_lines (mgr_logger b')) \<longleftrightarrow>
    (\<forall>s'. 0 < s' \<and> s' \<le> s \<longrightarrow> Msg_Id s' a \<in> bm_id ` set msgs)"
proof -
  have "rfifo_ok b' \<and> (\<forall>a. peer_abs (rfifo_buffer b' a) =
      peer_abs (rfifo_buffer b a) \<union> {s. Msg_Id s a \<in> bm_id ` set msgs})"
    if "rfifo_ok b" "fold_result (vt_NotifyInternal rfifo_vt) msgs b = Inr b'"
      "\<forall>m \<in> set msgs. 0 < id_seq (bm_id m) \<and> id_seq (bm_id m) \<noteq> - 1" for msgs and b :: rfifo
    using that
  proof (induction msgs arbitrary: b)
    case Nil
    then show ?case by simp
  next
    case (Cons m msgs)
    then obtain b1 where b1: "vt_NotifyInternal rfifo_vt m b = Inr b1" "fold_result (vt_NotifyInternal rfifo_vt) msgs b1 = Inr b'"
      by auto
    note ok = RFIFO_Notify_ok [OF Cons.prems(1) b1(1)]
    have "0 < id_seq (bm_id m)" "id_seq (bm_id m) \<noteq> - 1" using Cons.prems(3) by simp_all
    with ok Cons.IH [OF _ b1(2)] Cons.prems(3) show ?case by (cases "bm_id m") auto
  qed
  from this [OF rfifo_started_ok(1) [OF assms(1)] assms(2,3)] rfifo_started_ok(2) [OF assms(1)]
  have "rfifo.log_in_order b'" "peer_abs (rfifo_buffer b' a) = {s. Msg_Id s a \<in> bm_id ` set msgs}"
    by (simp_all add: rfifo_ok_def)
  with rfifo.logged_iff_prefix [OF _ assms(4), of b' a] show ?thesis by simp
qed

end
