(* ===== verification/Config_Parser.thy ===== *)
theory Config_Parser
  imports DA_Prelude "HOL-Library.Multiset"
begin

text \<open>
  Command line, hosts file and config file (\<^verbatim>\<open>parser.hpp\<close>, \<^verbatim>\<open>parser.cpp\<close>). The C library
  calls that resolve names are the record \<open>libc\<close>, the file system is a partial function
  from paths to contents. What the source uses of the C++ library is modelled: the
  formatted extraction of unsigned integers and words from a string stream, the lines that
  \<^verbatim>\<open>std::getline\<close> yields and \<^verbatim>\<open>std::stoi\<close> on digit strings.
\<close>

section \<open>Strings\<close>

definition is_space :: "char \<Rightarrow> bool" where
  "is_space c \<longleftrightarrow> of_char c = (32 :: nat) \<or> 9 \<le> (of_char c :: nat) \<and> of_char c \<le> (13 :: nat)"

definition LeftTrim :: "string \<Rightarrow> string" where
  "LeftTrim s = dropWhile is_space s"

definition RightTrim :: "string \<Rightarrow> string" where
  "RightTrim s = rev (dropWhile is_space (rev s))"

definition Trim :: "string \<Rightarrow> string" where
  "Trim s = RightTrim (LeftTrim s)"

definition IsPositiveNumber :: "string \<Rightarrow> bool" where
  "IsPositiveNumber s \<longleftrightarrow> s \<noteq> [] \<and> list_all is_digit s"

text \<open>\<^verbatim>\<open>std::stoi\<close> on a non-empty digit string: \<open>None\<close> when it throws \<^verbatim>\<open>std::out_of_range\<close>.\<close>

definition stoi :: "string \<Rightarrow> int option" where
  "stoi s = (if read_nat s < 2 ^ 31 then Some (int (read_nat s)) else None)"

text \<open>
  \<^verbatim>\<open>stream >> x\<close> for an unsigned integer of \<open>w\<close> bits: white space is skipped, then an
  optional sign and the longest run of digits are read. The stream fails when there is no
  digit or the magnitude does not fit; a minus sign negates modulo \<open>2 ^ w\<close>.
\<close>

definition extract_unsigned :: "nat \<Rightarrow> string \<Rightarrow> (nat \<times> string) option" where
  "extract_unsigned w s =
     (let s = dropWhile is_space s;
          neg = (s \<noteq> [] \<and> hd s = CHR ''-'');
          s = (if s \<noteq> [] \<and> (hd s = CHR ''-'' \<or> hd s = CHR ''+'') then tl s else s);
          digits = takeWhile is_digit s;
          v = read_nat digits
      in if digits = [] \<or> v \<ge> 2 ^ w then None
         else Some (if neg then (2 ^ w - v) mod 2 ^ w else v, dropWhile is_digit s))"

text \<open>\<^verbatim>\<open>stream >> s\<close> for a string: one word.\<close>

definition extract_word :: "string \<Rightarrow> (string \<times> string) option" where
  "extract_word s =
     (let s = dropWhile is_space s; word = takeWhile (\<lambda>c. \<not> is_space c) s
      in if word = [] then None else Some (word, dropWhile (\<lambda>c. \<not> is_space c) s))"

text \<open>The lines that successive \<^verbatim>\<open>std::getline\<close> calls yield.\<close>

fun getlines :: "string \<Rightarrow> string list" where
  "getlines [] = []"
| "getlines (c # cs) =
     (if c = CHR 0x0A then [] # getlines cs
      else (case getlines cs of [] \<Rightarrow> [[c]] | l # ls \<Rightarrow> (c # l) # ls))"

section \<open>Hosts\<close>

record host =
  h_ip :: u32
  h_port :: u16
  h_id :: u32

text \<open>Entries of a \<^verbatim>\<open>getaddrinfo\<close> list: an IPv4 address, or another family.\<close>

datatype addrinfo = AI_INET u32 | AI_Other

record libc =
  lc_inet_pton :: "string \<Rightarrow> int"
  lc_inet_addr :: "string \<Rightarrow> u32"
  lc_inet_ntop :: "u32 \<Rightarrow> string"
  lc_getaddrinfo :: "string \<Rightarrow> addrinfo list option"
  lc_strerror :: string
  lc_freeaddrinfo_returns :: bool

definition htons :: "u16 \<Rightarrow> u16" where
  "htons p = or (push_bit 8 p) (drop_bit 8 p)"

definition IsValidAddress :: "libc \<Rightarrow> string \<Rightarrow> bool" where
  "IsValidAddress lc ipAddress \<longleftrightarrow> lc_inet_pton lc ipAddress \<noteq> 0"

fun IpLookup_loop :: "libc \<Rightarrow> addrinfo list \<Rightarrow> u32 result" where
  "IpLookup_loop lc [] = Inl (Runtime_Error ''No host resolves to IPv4'')"
| "IpLookup_loop lc (AI_INET a # res) = Inr (lc_inet_addr lc (lc_inet_ntop lc a))"
| "IpLookup_loop lc (AI_Other # res) = IpLookup_loop lc res"

text \<open>
  When \<^verbatim>\<open>getaddrinfo\<close> fails it leaves \<^verbatim>\<open>res\<close> unset, and the code passes the uninitialised pointer to
  \<^verbatim>\<open>freeaddrinfo\<close> before it throws. Whether that call returns is \<open>lc_freeaddrinfo_returns\<close>.
\<close>

definition IpLookup :: "libc \<Rightarrow> string \<Rightarrow> u32 result" where
  "IpLookup lc host =
     (case lc_getaddrinfo lc host of
        None \<Rightarrow>
          if lc_freeaddrinfo_returns lc
          then Inl (Runtime_Error (''Could not resolve host `'' @ host @ ''` to IP: '' @ lc_strerror lc))
          else Inl Uninitialised_Pointer
      | Some res \<Rightarrow> IpLookup_loop lc res)"

definition Host_ctor :: "libc \<Rightarrow> string \<Rightarrow> u16 \<Rightarrow> u32 \<Rightarrow> host result" where
  "Host_ctor lc ip_or_hostname p i =
     bind_result (if IsValidAddress lc ip_or_hostname then Inr (lc_inet_addr lc ip_or_hostname)
                  else IpLookup lc ip_or_hostname)
       (\<lambda>ip. Inr \<lparr>h_ip = ip, h_port = htons p, h_id = i\<rparr>)"

definition port_readable :: "host \<Rightarrow> u16" where
  "port_readable h = htons (h_port h)"

section \<open>Parser\<close>

datatype exec_mode = kPerfectLinks | kFIFOBroadcast

record parser =
  p_argv :: "string list"
  requires_config :: bool
  parsed :: bool
  p_config_path :: string
  p_hosts_path :: string
  p_output_path :: string
  p_hosts :: "host list"
  p_id :: u32
  receiver_id :: u32
  p_n_messages_to_send :: u32
  p_exec_mode :: exec_mode

definition Parser_ctor :: "string list \<Rightarrow> bool \<Rightarrow> parser" where
  "Parser_ctor argv rc =
     \<lparr>p_argv = argv, requires_config = rc, parsed = False, p_config_path = [], p_hosts_path = [],
      p_output_path = [], p_hosts = [], p_id = 0, receiver_id = 0, p_n_messages_to_send = 0,
      p_exec_mode = kFIFOBroadcast\<rparr>"

definition CheckParsed :: "parser \<Rightarrow> unit result" where
  "CheckParsed p = (if parsed p then Inr () else Inl (Runtime_Error ''Invoke Parse() first''))"

definition Parser_config_path :: "parser \<Rightarrow> string result" where
  "Parser_config_path p =
     bind_result (CheckParsed p)
       (\<lambda>_. if \<not> requires_config p
            then Inl (Runtime_Error ''Parser is configured to ignore the config path'')
            else Inr (p_config_path p))"

definition Parser_hosts_path :: "parser \<Rightarrow> string result" where
  "Parser_hosts_path p = bind_result (CheckParsed p) (\<lambda>_. Inr (p_hosts_path p))"

definition Parser_output_path :: "parser \<Rightarrow> string result" where
  "Parser_output_path p = bind_result (CheckParsed p) (\<lambda>_. Inr (p_output_path p))"

definition Parser_hosts :: "parser \<Rightarrow> host list result" where
  "Parser_hosts p = bind_result (CheckParsed p) (\<lambda>_. Inr (p_hosts p))"

definition Parser_id :: "parser \<Rightarrow> u32 result" where
  "Parser_id p = bind_result (CheckParsed p) (\<lambda>_. Inr (p_id p))"

definition Parser_n_messages_to_send :: "parser \<Rightarrow> u32 result" where
  "Parser_n_messages_to_send p = bind_result (CheckParsed p) (\<lambda>_. Inr (p_n_messages_to_send p))"

definition Parser_target_id :: "parser \<Rightarrow> u32 result" where
  "Parser_target_id p = bind_result (CheckParsed p) (\<lambda>_. Inr (receiver_id p))"

text \<open>\<^verbatim>\<open>id_ - 1\<close> wraps around at 32 bits before it is compared with the 64-bit size.\<close>

definition local_host :: "parser \<Rightarrow> host result" where
  "local_host p =
     (if unat (p_id p - 1) \<ge> length (p_hosts p)
      then Inl (Invalid_Argument ''Id is outside list of hosts.'')
      else Inr (p_hosts p ! unat (p_id p - 1)))"

definition target_host :: "parser \<Rightarrow> host result" where
  "target_host p =
     (if unat (receiver_id p - 1) \<ge> length (p_hosts p)
      then Inl (Invalid_Argument ''Receiver id is outside list of hosts.'')
      else Inr (p_hosts p ! unat (receiver_id p - 1)))"

definition Help :: "parser \<Rightarrow> 'a result" where
  "Help p = Inl (Runtime_Error (
     if \<not> requires_config p
     then ''Usage: '' @ p_argv p ! 0 @ '' --id ID --hosts HOSTS --output OUTPUT''
     else ''Usage: '' @ p_argv p ! 0 @ '' --id ID --hosts HOSTS --output OUTPUT CONFIG''))"

text \<open>The argument parsers: the returned flag and the parser after the call.\<close>

definition ParseId :: "parser \<Rightarrow> bool \<times> parser" where
  "ParseId p =
     (if length (p_argv p) < 3 then (False, p)
      else if p_argv p ! 1 = ''--id'' then
        (if IsPositiveNumber (p_argv p ! 2) then
           (case stoi (p_argv p ! 2) of
              None \<Rightarrow> (False, p)
            | Some v \<Rightarrow> (True, p\<lparr>p_id := of_int (max 0 v)\<rparr>))
         else (False, p))
      else (False, p))"

definition ParseMode :: "parser \<Rightarrow> parser result" where
  "ParseMode p =
     (if length (p_argv p) < 10 then Inr p
      else if p_argv p ! 8 = ''--mode'' then
        (if p_argv p ! 9 = ''pl'' then Inr (p\<lparr>p_exec_mode := kPerfectLinks\<rparr>)
         else if p_argv p ! 9 = ''fifo'' then Inr (p\<lparr>p_exec_mode := kFIFOBroadcast\<rparr>)
         else Inl (Runtime_Error ''Invalid execution mode provided.''))
      else Inr p)"

definition ParseHostPath :: "parser \<Rightarrow> bool \<times> parser" where
  "ParseHostPath p =
     (if length (p_argv p) < 5 then (False, p)
      else if p_argv p ! 3 = ''--hosts'' then (True, p\<lparr>p_hosts_path := p_argv p ! 4\<rparr>)
      else (False, p))"

definition ParseOutputPath :: "parser \<Rightarrow> bool \<times> parser" where
  "ParseOutputPath p =
     (if length (p_argv p) < 7 then (False, p)
      else if p_argv p ! 5 = ''--output'' then (True, p\<lparr>p_output_path := p_argv p ! 6\<rparr>)
      else (False, p))"

definition ParseConfigPath :: "parser \<Rightarrow> bool \<times> parser" where
  "ParseConfigPath p =
     (if \<not> requires_config p then (True, p)
      else if length (p_argv p) < 8 then (False, p)
      else (True, p\<lparr>p_config_path := p_argv p ! 7\<rparr>))"

definition ParseInternal :: "parser \<Rightarrow> (bool \<times> parser) result" where
  "ParseInternal p =
     (let (ok, p) = ParseId p in if \<not> ok then Inr (False, p)
      else let (ok, p) = ParseHostPath p in if \<not> ok then Inr (False, p)
      else let (ok, p) = ParseOutputPath p in if \<not> ok then Inr (False, p)
      else let (ok, p) = ParseConfigPath p in if \<not> ok then Inr (False, p)
      else bind_result (ParseMode p) (\<lambda>p. Inr (True, p)))"

text \<open>\<^verbatim>\<open>iss >> id >> ip >> port\<close>; one line of the hosts file, with its number \<open>n_lines\<close>.\<close>

definition extract_host :: "string \<Rightarrow> (nat \<times> string \<times> nat) option" where
  "extract_host line =
     Option.bind (extract_unsigned 32 line) (\<lambda>(i, rest).
       Option.bind (extract_word rest) (\<lambda>(ip, rest).
         Option.bind (extract_unsigned 16 rest) (\<lambda>(port, _). Some (i, ip, port))))"

definition parse_host_line :: "libc \<Rightarrow> string \<Rightarrow> nat \<Rightarrow> string \<Rightarrow> host option result" where
  "parse_host_line lc path n_lines line =
     (if Trim line = [] then Inr None
      else
        (case extract_host line of
           None \<Rightarrow> Inl (Invalid_Argument (''Parsing for `'' @ path @ ''` failed at line '' @ show_nat n_lines))
         | Some (i, ip, port) \<Rightarrow>
             bind_result (Host_ctor lc ip (of_nat port) (of_nat i)) (\<lambda>h. Inr (Some h))))"

fun parse_host_lines :: "libc \<Rightarrow> string \<Rightarrow> nat \<Rightarrow> string list \<Rightarrow> host list \<Rightarrow> host list result" where
  "parse_host_lines lc path n_lines [] hosts = Inr hosts"
| "parse_host_lines lc path n_lines (line # lines) hosts =
     bind_result (parse_host_line lc path (n_lines + 1) line)
       (\<lambda>r. parse_host_lines lc path (n_lines + 1) lines
              (case r of None \<Rightarrow> hosts | Some h \<Rightarrow> hosts @ [h]))"

text \<open>
  \<^verbatim>\<open>std::sort\<close> by identifier. The order of hosts with the same identifier is unspecified in
  C++; the stable \<open>sort_key\<close> is one of the possible results, and the only one when the
  identifiers are distinct.
\<close>

definition check_hosts :: "string \<Rightarrow> host list \<Rightarrow> host list result" where
  "check_hosts path hosts =
     (if length hosts < 2
      then Inl (Invalid_Argument (''`'' @ path @ ''` must contain at least two hosts''))
      else
        (let minID = Min (set (map (unat \<circ> h_id) hosts));
             maxID = Max (set (map (unat \<circ> h_id) hosts))
         in if minID \<noteq> 1 \<or> maxID \<noteq> length hosts
            then Inl (Invalid_Argument (''In `'' @ path @
                   ''` IDs of processes have to start from 1 and be compact''))
            else Inr (sort_key h_id hosts)))"

definition ParseHostsFile :: "libc \<Rightarrow> (string \<rightharpoonup> string) \<Rightarrow> parser \<Rightarrow> parser result" where
  "ParseHostsFile lc fs p =
     bind_result (Parser_hosts_path p)
       (\<lambda>path. case fs path of
          None \<Rightarrow> Inl (Invalid_Argument (''`'' @ path @ ''` does not exist.''))
        | Some contents \<Rightarrow>
            bind_result (parse_host_lines lc path 0 (getlines contents) (p_hosts p))
              (\<lambda>hosts. bind_result (check_hosts path hosts) (\<lambda>hosts. Inr (p\<lparr>p_hosts := hosts\<rparr>))))"

text \<open>The first line of the config file; an empty file leaves the line empty.\<close>

definition ParseConfigFile :: "(string \<rightharpoonup> string) \<Rightarrow> parser \<Rightarrow> parser result" where
  "ParseConfigFile fs p =
     bind_result (Parser_config_path p)
       (\<lambda>path. case fs path of
          None \<Rightarrow> Inl (Invalid_Argument (''`'' @ path @ ''` does not exist.''))
        | Some contents \<Rightarrow>
            (let line = (case getlines contents of [] \<Rightarrow> [] | l # _ \<Rightarrow> l);
                 bad = Inl (Invalid_Argument (''Parsing for `'' @ path @ ''` failed at line 1''))
             in if Trim line = [] then Inl (Runtime_Error ''Config file is empty.'')
                else
                  (case p_exec_mode p of
                     kPerfectLinks \<Rightarrow>
                       (case extract_unsigned 32 line of
                          None \<Rightarrow> bad
                        | Some (n, rest) \<Rightarrow>
                            (case extract_unsigned 32 rest of
                               None \<Rightarrow> bad
                             | Some (r, _) \<Rightarrow>
                                 Inr (p\<lparr>p_n_messages_to_send := of_nat n, receiver_id := of_nat r\<rparr>)))
                   | kFIFOBroadcast \<Rightarrow>
                       (case extract_unsigned 32 line of
                          None \<Rightarrow> bad
                        | Some (n, _) \<Rightarrow> Inr (p\<lparr>p_n_messages_to_send := of_nat n\<rparr>)))))"

definition Parser_Parse :: "libc \<Rightarrow> (string \<rightharpoonup> string) \<Rightarrow> parser \<Rightarrow> parser result" where
  "Parser_Parse lc fs p =
     bind_result (ParseInternal p)
       (\<lambda>(ok, p). bind_result (if ok then Inr () else Help p)
          (\<lambda>_. let p = p\<lparr>parsed := True\<rparr>
               in bind_result (ParseHostsFile lc fs p)
                    (\<lambda>p. if requires_config p then ParseConfigFile fs p else Inr p)))"

section \<open>Lexical lemmas\<close>

lemma getlines_line: "CHR 0x0A \<notin> set l \<Longrightarrow> getlines (l @ CHR 0x0A # rest) = l # getlines rest"
  by (induction l) auto

lemma getlines_unlines:
  assumes "\<forall>l \<in> set ls. CHR 0x0A \<notin> set l"
  shows "getlines (concat (map (\<lambda>l. l @ [CHR 0x0A]) ls)) = ls"
  using assms by (induction ls) (simp_all add: getlines_line)

lemma digit_not_space: "is_digit c \<Longrightarrow> \<not> is_space c"
  by (auto simp: is_digit_def is_space_def)

lemma digit_not_sign: "is_digit c \<Longrightarrow> c \<noteq> CHR ''-'' \<and> c \<noteq> CHR ''+''"
  by (auto simp: is_digit_def)

lemma is_space_simps [simp]: "is_space CHR '' ''" "is_space CHR 0x0A" "\<not> is_digit CHR '' ''"
  by (simp_all add: is_space_def is_digit_def)

lemma show_nat_all_digits: "list_all is_digit (show_nat n)"
  using show_nat_digits by (auto simp: list_all_iff)

lemma takeWhile_show_nat:
  assumes "rest = [] \<or> \<not> is_digit (hd rest)"
  shows "takeWhile is_digit (show_nat n @ rest) = show_nat n" "dropWhile is_digit (show_nat n @ rest) = rest"
  using assms show_nat_digits [of _ n]
  by (auto simp: takeWhile_append2 dropWhile_append2) (cases rest; simp)+

lemma extract_unsigned_show:
  assumes "n < 2 ^ w" and "rest = [] \<or> \<not> is_digit (hd rest)" and "\<forall>c \<in> set sp. is_space c"
  shows "extract_unsigned w (sp @ show_nat n @ rest) = Some (n, rest)"
proof -
  obtain c cs where cs: "show_nat n = c # cs" by (metis show_nat_not_Nil neq_Nil_conv)
  then have c: "is_digit c" using show_nat_digits [of c n] by simp
  then have skip: "dropWhile is_space (sp @ show_nat n @ rest) = show_nat n @ rest"
    using assms(3) digit_not_space [OF c] by (simp add: dropWhile_append2 cs)
  have sign: "hd (show_nat n @ rest) \<noteq> CHR ''-''" "hd (show_nat n @ rest) \<noteq> CHR ''+''"
    using digit_not_sign [OF c] by (simp_all add: cs)
  show ?thesis
    using assms(1) takeWhile_show_nat [OF assms(2), of n] sign
    by (simp add: extract_unsigned_def Let_def skip)
qed

lemma extract_word_show:
  assumes "w \<noteq> []" and "\<forall>c \<in> set w. \<not> is_space c" and "rest = [] \<or> is_space (hd rest)"
    and "\<forall>c \<in> set sp. is_space c"
  shows "extract_word (sp @ w @ rest) = Some (w, rest)"
proof -
  have "dropWhile is_space (sp @ w @ rest) = w @ rest"
    using assms by (cases w) (simp_all add: dropWhile_append2)
  moreover have "takeWhile (\<lambda>c. \<not> is_space c) (w @ rest) = w" "dropWhile (\<lambda>c. \<not> is_space c) (w @ rest) = rest"
    using assms(2,3) by (auto simp: takeWhile_append2 dropWhile_append2) (cases rest; simp)+
  ultimately show ?thesis using assms(1) by (simp add: extract_word_def Let_def)
qed

lemma Trim_Nil_iff: "Trim s = [] \<longleftrightarrow> (\<forall>c \<in> set s. is_space c)"
proof -
  have "Trim s = [] \<longleftrightarrow> (\<forall>c \<in> set (dropWhile is_space s). is_space c)"
    by (simp add: Trim_def RightTrim_def LeftTrim_def)
  also have "\<dots> \<longleftrightarrow> (\<forall>c \<in> set s. is_space c)"
    by (metis dropWhile_eq_Nil_conv hd_dropWhile hd_in_set list.set(1) empty_iff)
  finally show ?thesis .
qed

text \<open>A host line as the tools write it: identifier, name, port.\<close>

definition host_line :: "u32 \<times> string \<times> u16 \<Rightarrow> string" where
  "host_line e = (case e of (i, name, port) \<Rightarrow>
     show_u32 i @ '' '' @ name @ '' '' @ show_nat (unat port))"

definition good_name :: "string \<Rightarrow> bool" where
  "good_name name \<longleftrightarrow> name \<noteq> [] \<and> (\<forall>c \<in> set name. \<not> is_space c)"

lemma extract_host_line:
  assumes "good_name name"
  shows "extract_host (host_line (i, name, port)) = Some (unat i, name, unat port)"
proof -
  have i: "unat i < 2 ^ 32" and port: "unat port < 2 ^ 16"
    using unsigned_less [of i] unsigned_less [of port] by simp_all
  have "extract_unsigned 32 ([] @ show_nat (unat i) @ '' '' @ name @ '' '' @ show_nat (unat port)) =
      Some (unat i, '' '' @ name @ '' '' @ show_nat (unat port))"
    by (rule extract_unsigned_show [OF i]) simp_all
  moreover have "extract_word ('' '' @ name @ '' '' @ show_nat (unat port)) =
      Some (name, '' '' @ show_nat (unat port))"
    by (rule extract_word_show) (use assms in \<open>simp_all add: good_name_def\<close>)
  moreover have "extract_unsigned 16 ('' '' @ show_nat (unat port) @ []) = Some (unat port, [])"
    by (rule extract_unsigned_show [OF port]) simp_all
  ultimately show ?thesis by (simp add: extract_host_def host_line_def show_u32_def)
qed

lemma parse_host_line_host_line:
  assumes "good_name name"
  shows "parse_host_line lc path n (host_line (i, name, port)) =
    bind_result (Host_ctor lc name port i) (\<lambda>h. Inr (Some h))"
proof -
  obtain c where "c \<in> set (show_nat (unat i))" by (metis show_nat_not_Nil last_in_set)
  with digit_not_space [OF show_nat_digits] have "Trim (host_line (i, name, port)) \<noteq> []"
    by (auto simp: Trim_Nil_iff host_line_def show_u32_def)
  then show ?thesis by (simp add: parse_host_line_def extract_host_line [OF assms])
qed

lemma parse_host_lines_host_lines:
  assumes "list_all2 (\<lambda>(i, name, port) h. good_name name \<and> Host_ctor lc name port i = Inr h) es hs"
  shows "parse_host_lines lc path n (map host_line es) hs0 = Inr (hs0 @ hs)"
  using assms
proof (induction es hs arbitrary: n hs0 rule: list_all2_induct)
  case Nil
  show ?case by simp
next
  case (Cons e es h hs)
  then show ?case by (cases e) (simp add: parse_host_line_host_line)
qed

lemma newline_host_line: "good_name name \<Longrightarrow> CHR 0x0A \<notin> set (host_line (i, name, port))"
  using show_nat_digits [of "CHR 0x0A"]
  by (auto simp: host_line_def good_name_def show_u32_def is_digit_def)

section \<open>Host tables\<close>

lemma check_hosts_eq:
  "check_hosts path hosts = Inr hs \<longleftrightarrow>
     2 \<le> length hosts \<and> Min (unat ` h_id ` set hosts) = 1 \<and>
     Max (unat ` h_id ` set hosts) = length hosts \<and> hs = sort_key h_id hosts"
  by (auto simp: check_hosts_def Let_def image_comp)

text \<open>Distinct identifiers with minimum 1 and maximum \<open>n\<close> are exactly \<open>1 \<dots> n\<close>.\<close>

lemma compact_ids:
  assumes "distinct (map h_id hosts)" and "hosts \<noteq> []"
    and "Min (unat ` h_id ` set hosts) = 1" and "Max (unat ` h_id ` set hosts) = length hosts"
  shows "map (unat \<circ> h_id) (sort_key h_id hosts) = [1 ..< Suc (length hosts)]"
proof -
  let ?ids = "map (unat \<circ> h_id) hosts" and ?s = "map (unat \<circ> h_id) (sort_key h_id hosts)"
  have fin: "finite (unat ` h_id ` set hosts)" by simp
  have "distinct ?ids" using assms(1) by (auto simp: distinct_map inj_on_def) (metis word_unat_eq_iff)
  then have "card (set ?ids) = length hosts" by (metis distinct_card length_map)
  moreover have "set ?ids \<subseteq> {1 .. length hosts}"
  proof
    fix k assume "k \<in> set ?ids"
    then have "k \<in> unat ` h_id ` set hosts" by auto
    with Min_le [OF fin] Max_ge [OF fin] assms(3,4) show "k \<in> {1 .. length hosts}" by fastforce
  qed
  ultimately have ids: "set ?ids = {1 .. length hosts}"
    by (intro card_subset_eq) simp_all
  have "sorted (map h_id (sort_key h_id hosts))" by simp
  then have "sorted ?s" by (simp add: sorted_map sorted_wrt_map word_le_nat_alt comp_def)
  moreover have "distinct ?s"
    using \<open>distinct ?ids\<close> by (simp add: distinct_map comp_def)
  moreover have "set ?s = set [1 ..< Suc (length hosts)]"
    using ids by (simp add: image_comp atLeastLessThanSuc_atLeastAtMost del: upt_Suc)
  ultimately show ?thesis
    by (intro sorted_distinct_set_unique) (simp_all del: upt_Suc)
qed

lemma htons_htons [simp]: "htons (htons p) = p"
  by (rule bit_word_eqI)
    (auto simp: htons_def bit_or_iff bit_push_bit_iff bit_drop_bit_eq not_le dest: bit_imp_le_length)

section \<open>Properties\<close>

text \<open>
  C34: Round trip of the hosts file. When the file consists of the lines
  \<^verbatim>\<open>id name port\<close> for entries whose identifiers are \<open>1 \<dots> n\<close> in any order (\<open>n\<close> at least
  2) and whose names are single words that resolve, \<^verbatim>\<open>ParseHostsFile\<close> succeeds and the
  hosts vector holds exactly these hosts, ordered by identifier.
\<close>

theorem ParseHostsFile_roundtrip:
  assumes "list_all2 (\<lambda>(i, name, port) h. good_name name \<and> Host_ctor lc name port i = Inr h) es hs"
    and "2 \<le> length hs" and "distinct (map h_id hs)" and "unat ` h_id ` set hs = {1 .. length hs}"
    and "parsed p" and "p_hosts p = []"
    and "fs (p_hosts_path p) = Some (concat (map (\<lambda>e. host_line e @ [CHR 0x0A]) es))"
  shows "\<exists>hosts. ParseHostsFile lc fs p = Inr (p\<lparr>p_hosts := hosts\<rparr>) \<and> mset hosts = mset hs \<and>
    map (unat \<circ> h_id) hosts = [1 ..< Suc (length hs)]"
proof -
  have "CHR 0x0A \<notin> set (host_line e)" if "e \<in> set es" for e
  proof -
    obtain i name port where e: "e = (i, name, port)" by (cases e)
    from assms(1) that have "good_name name" by (auto simp: list_all2_conv_all_nth in_set_conv_nth e)
    then show ?thesis by (simp add: e newline_host_line)
  qed
  then have "getlines (concat (map (\<lambda>e. host_line e @ [CHR 0x0A]) es)) = map host_line es"
    using getlines_unlines [of "map host_line es"] by (simp add: comp_def)
  with parse_host_lines_host_lines [OF assms(1)]
  have lines: "parse_host_lines lc (p_hosts_path p) 0
      (getlines (concat (map (\<lambda>e. host_line e @ [CHR 0x0A]) es))) [] = Inr hs" by simp
  have mm: "Min (unat ` h_id ` set hs) = 1" "Max (unat ` h_id ` set hs) = length hs"
    using assms(2) by (auto simp: assms(4) intro: Min_eqI Max_eqI)
  then have "check_hosts (p_hosts_path p) hs = Inr (sort_key h_id hs)"
    using assms(2) by (simp add: check_hosts_eq)
  then have "ParseHostsFile lc fs p = Inr (p\<lparr>p_hosts := sort_key h_id hs\<rparr>)"
    using assms(5-7) lines by (simp add: ParseHostsFile_def Parser_hosts_path_def CheckParsed_def)
  moreover have "hs \<noteq> []" using assms(2) by auto
  ultimately show ?thesis using compact_ids [OF assms(3) _ mm] by (auto simp del: upt_Suc)
qed

text \<open>An environment for examples: a name resolves to the value of its digits.\<close>

definition ex_libc :: libc where
  "ex_libc = \<lparr>lc_inet_pton = (\<lambda>_. 1), lc_inet_addr = (\<lambda>s. of_nat (read_nat s)), lc_inet_ntop = (\<lambda>_. []),
     lc_getaddrinfo = (\<lambda>_. None), lc_strerror = [], lc_freeaddrinfo_returns = False\<rparr>"

definition ex_parser :: parser where
  "ex_parser = (Parser_ctor [''da_proc'', ''--id'', ''2''] True)\<lparr>parsed := True, p_hosts_path := ''hosts'', p_id := 2\<rparr>"

definition ex_host :: "u32 \<Rightarrow> host" where
  "ex_host i = \<lparr>h_ip = 7, h_port = htons 9000, h_id = i\<rparr>"

definition ex_hosts_file :: "u32 list \<Rightarrow> string \<rightharpoonup> string" where
  "ex_hosts_file is = [''hosts'' \<mapsto> concat (map (\<lambda>i. host_line (i, ''7'', 9000) @ [CHR 0x0A]) is)]"

lemma ex_Host_ctor: "Host_ctor ex_libc ''7'' 9000 i = Inr (ex_host i)"
  by (simp add: Host_ctor_def IsValidAddress_def ex_libc_def ex_host_def read_nat_def digit_value_def)

theorem ParseHostsFile_roundtrip_witness:
  "\<exists>hosts. ParseHostsFile ex_libc (ex_hosts_file [2, 1]) ex_parser = Inr (ex_parser\<lparr>p_hosts := hosts\<rparr>) \<and>
     map (unat \<circ> h_id) hosts = [1, 2]"
proof -
  let ?es = "[(2, ''7'', 9000), (1, ''7'', 9000)] :: (u32 \<times> string \<times> u16) list"
  have "list_all2 (\<lambda>(i, name, port) h. good_name name \<and> Host_ctor ex_libc name port i = Inr h) ?es
      [ex_host 2, ex_host 1]"
    by (simp add: ex_Host_ctor good_name_def is_space_def)
  moreover have "unat ` h_id ` set [ex_host 2, ex_host 1] = {1 .. length [ex_host 2, ex_host 1]}"
    by (auto simp: ex_host_def)
  moreover have "distinct (map h_id [ex_host 2, ex_host 1])" by (simp add: ex_host_def)
  moreover have "ex_hosts_file [2, 1] (p_hosts_path ex_parser) =
      Some (concat (map (\<lambda>e. host_line e @ [CHR 0x0A]) ?es))"
    by (simp add: ex_hosts_file_def ex_parser_def)
  moreover have "parsed ex_parser" "p_hosts ex_parser = []" by (simp_all add: ex_parser_def Parser_ctor_def)
  ultimately show ?thesis
    using ParseHostsFile_roundtrip [of ex_libc ?es "[ex_host 2, ex_host 1]" ex_parser "ex_hosts_file [2, 1]"]
    by (auto simp: upt_rec)
qed

text \<open>
  The host table is indexed by identifier. If the identifiers in the hosts file are
  distinct, then after a successful \<^verbatim>\<open>ParseHostsFile\<close> \<^verbatim>\<open>local_host()\<close> returns the host that
  carries the own identifier, and it throws exactly for identifiers outside \<open>1 \<dots> n\<close> (the
  identifier 0 included, for which the index wraps around).
\<close>

lemma local_host_by_id:
  assumes "ParseHostsFile lc fs p = Inr p'" and "distinct (map h_id (p_hosts p'))"
    and "length (p_hosts p') < 2 ^ 32"
  shows "case local_host p' of
      Inr h \<Rightarrow> h \<in> set (p_hosts p') \<and> h_id h = p_id p'
    | Inl e \<Rightarrow> e = Invalid_Argument ''Id is outside list of hosts.'' \<and>
        (p_id p' = 0 \<or> unat (p_id p') > length (p_hosts p'))"
proof -
  from assms(1) obtain hosts path where checked: "check_hosts path hosts = Inr (p_hosts p')"
    by (auto simp: ParseHostsFile_def split: option.splits)
  then have "distinct (map h_id hosts)" using assms(2)
    by (simp add: check_hosts_eq distinct_map)
  with checked have ids: "map (unat \<circ> h_id) (p_hosts p') = [1 ..< Suc (length (p_hosts p'))]"
    using compact_ids [of hosts] by (fastforce simp: check_hosts_eq simp del: upt_Suc)
  show ?thesis
  proof (cases "unat (p_id p' - 1) < length (p_hosts p')")
    case True
    let ?k = "unat (p_id p' - 1)"
    have "unat (h_id (p_hosts p' ! ?k)) = map (unat \<circ> h_id) (p_hosts p') ! ?k" using True by simp
    also have "\<dots> = Suc ?k" unfolding ids using True by (simp add: nth_upt del: upt_Suc)
    finally have "h_id (p_hosts p' ! ?k) = of_nat (Suc ?k)" by (metis of_nat_unat ucast_id)
    then have "h_id (p_hosts p' ! ?k) = p_id p'" by simp
    with True show ?thesis by (simp add: local_host_def)
  next
    case False
    have "length (p_hosts p') < unat (p_id p')" if "p_id p' \<noteq> 0"
    proof -
      have "unat (p_id p' - 1) = unat (p_id p') - 1" using that by (simp add: unat_minus_one)
      moreover have "0 < length (p_hosts p')" using checked by (auto simp: check_hosts_eq)
      ultimately show ?thesis using False by linarith
    qed
    then have "p_id p' = 0 \<or> length (p_hosts p') < unat (p_id p')" by blast
    with False show ?thesis by (simp add: local_host_def)
  qed
qed

lemma ex_hosts_parse:
  assumes "2 \<le> length is" and "Min (unat ` set is) = 1" and "Max (unat ` set is) = length is"
  shows "ParseHostsFile ex_libc (ex_hosts_file is) ex_parser =
    Inr (ex_parser\<lparr>p_hosts := sort_key h_id (map ex_host is)\<rparr>)"
proof -
  let ?es = "map (\<lambda>i. (i, ''7'', 9000 :: u16)) is"
  have name: "good_name ''7''" by (simp add: good_name_def is_space_def)
  then have "list_all2 (\<lambda>(i, name, port) h. good_name name \<and> Host_ctor ex_libc name port i = Inr h) ?es
      (map ex_host is)"
    by (simp add: list_all2_map1 list_all2_map2 list_all2_same ex_Host_ctor)
  note lines = parse_host_lines_host_lines [OF this, of _ 0 "[]"]
  have "getlines (concat (map (\<lambda>e. host_line e @ [CHR 0x0A]) ?es)) = map host_line ?es"
    using getlines_unlines [of "map host_line ?es"] newline_host_line [OF name] by (simp add: comp_def)
  moreover have "h_id ` ex_host ` set is = set is" by (force simp: ex_host_def)
  ultimately show ?thesis
    using lines assms
    by (simp add: ParseHostsFile_def Parser_hosts_path_def CheckParsed_def ex_parser_def Parser_ctor_def
        ex_hosts_file_def check_hosts_eq comp_def)
qed

text \<open>
  The compactness check of \<^verbatim>\<open>ParseHostsFile\<close> looks at the smallest and the largest
  identifier only: the identifiers 1, 1, 3 pass although the error message promises compact
  identifiers, and \<^verbatim>\<open>local_host()\<close> of process 2 is then a host with identifier 1.
\<close>

lemma duplicate_ids_accepted:
  "ParseHostsFile ex_libc (ex_hosts_file [1, 1, 3]) ex_parser =
     Inr (ex_parser\<lparr>p_hosts := [ex_host 1, ex_host 1, ex_host 3]\<rparr>) \<and>
   local_host (ex_parser\<lparr>p_hosts := [ex_host 1, ex_host 1, ex_host 3]\<rparr>) = Inr (ex_host 1) \<and>
   p_id ex_parser = 2"
proof -
  have "sort_key h_id (map ex_host [1, 1, 3]) = [ex_host 1, ex_host 1, ex_host 3]"
    by (simp add: ex_host_def)
  then show ?thesis
    using ex_hosts_parse [of "[1, 1, 3]"] by (simp add: local_host_def ex_parser_def Parser_ctor_def)
qed

section \<open>The command line\<close>

text \<open>
  The documented form \<^verbatim>\<open>prog --id ID --hosts HOSTS --output OUTPUT CONFIG\<close>, with \<^verbatim>\<open>ID\<close> a digit string
  below \<open>2 ^ 31\<close>, at the beginning of a command line: its values, and the arguments that follow.
\<close>

fun documented_args :: "string list \<Rightarrow> (nat \<times> string \<times> string \<times> string \<times> string list) option" where
  "documented_args (prog # f1 # i # f2 # hosts # f3 # output # config # rest) =
     (if f1 = ''--id'' \<and> f2 = ''--hosts'' \<and> f3 = ''--output'' \<and> i \<noteq> [] \<and> list_all is_digit i \<and> read_nat i < 2 ^ 31
      then Some (read_nat i, hosts, output, config, rest) else None)"
| "documented_args _ = None"

text \<open>The mode that the arguments after the documented form ask for.\<close>

fun asked_mode :: "string list \<Rightarrow> exec_mode option" where
  "asked_mode (f # m # rest) =
     (if f \<noteq> ''--mode'' then Some kFIFOBroadcast
      else if m = ''pl'' then Some kPerfectLinks
      else if m = ''fifo'' then Some kFIFOBroadcast
      else None)"
| "asked_mode _ = Some kFIFOBroadcast"

lemma documented_args_eq:
  "documented_args argv =
     (if 8 \<le> length argv \<and> argv ! 1 = ''--id'' \<and> argv ! 3 = ''--hosts'' \<and> argv ! 5 = ''--output'' \<and>
         IsPositiveNumber (argv ! 2) \<and> read_nat (argv ! 2) < 2 ^ 31
      then Some (read_nat (argv ! 2), argv ! 4, argv ! 6, argv ! 7, drop 8 argv) else None)"
  by (cases argv rule: documented_args.cases) (simp_all add: IsPositiveNumber_def)

lemma asked_mode_eq:
  "asked_mode (drop 8 argv) =
     (if length argv < 10 \<or> argv ! 8 \<noteq> ''--mode'' then Some kFIFOBroadcast
      else if argv ! 9 = ''pl'' then Some kPerfectLinks
      else if argv ! 9 = ''fifo'' then Some kFIFOBroadcast else None)"
proof (cases "10 \<le> length argv")
  case True
  then have "drop 8 argv = argv ! 8 # argv ! 9 # drop 10 argv"
    by (simp add: Cons_nth_drop_Suc numeral_eq_Suc)
  with True show ?thesis by simp
next
  case False
  then have "length (drop 8 argv) < 2" by simp
  then have "asked_mode (drop 8 argv) = Some kFIFOBroadcast" by (cases "drop 8 argv" rule: asked_mode.cases) simp_all
  with False show ?thesis by simp
qed

text \<open>
  C35: The command line. \<^verbatim>\<open>ParseInternal\<close> rejects exactly the lines that do not begin with the documented
  form \<^verbatim>\<open>prog --id ID --hosts HOSTS --output OUTPUT CONFIG\<close>, with \<^verbatim>\<open>ID\<close> a digit string below \<open>2 ^ 31\<close>.
  After it, \<^verbatim>\<open>--mode\<close> with anything else than \<^verbatim>\<open>pl\<close> or \<^verbatim>\<open>fifo\<close> throws, and every other rest is
  accepted, whatever it is: the values of the form are stored and the mode is FIFO broadcast unless the
  rest begins with \<^verbatim>\<open>--mode pl\<close>. So more lines are accepted than the usage message allows.
\<close>

theorem ParseInternal_command_line:
  "case documented_args argv of
     None \<Rightarrow> (\<exists>p. ParseInternal (Parser_ctor argv True) = Inr (False, p))
   | Some (i, hosts, output, config, rest) \<Rightarrow>
       ParseInternal (Parser_ctor argv True) =
         (case asked_mode rest of
            None \<Rightarrow> Inl (Runtime_Error ''Invalid execution mode provided.'')
          | Some mode \<Rightarrow> Inr (True, (Parser_ctor argv True)
              \<lparr>p_id := of_nat i, p_hosts_path := hosts, p_output_path := output, p_config_path := config,
               p_exec_mode := mode\<rparr>))"
  unfolding documented_args_eq
  by (auto simp: asked_mode_eq ParseInternal_def ParseId_def ParseHostPath_def ParseOutputPath_def ParseConfigPath_def
      ParseMode_def Parser_ctor_def stoi_def Let_def)

text \<open>
  Config file. A first line that holds the number of messages - and, for perfect links, the
  identifier of the receiver - is read back exactly; what follows in the file is ignored.
\<close>

lemma ParseConfigFile_roundtrip:
  assumes "parsed p" and "requires_config p"
    and "fs (p_config_path p) = Some ((case p_exec_mode p of kPerfectLinks \<Rightarrow> show_u32 n @ '' '' @ show_u32 r
        | kFIFOBroadcast \<Rightarrow> show_u32 n) @ CHR 0x0A # rest)"
  shows "ParseConfigFile fs p = Inr (case p_exec_mode p of
      kPerfectLinks \<Rightarrow> p\<lparr>p_n_messages_to_send := n, receiver_id := r\<rparr>
    | kFIFOBroadcast \<Rightarrow> p\<lparr>p_n_messages_to_send := n\<rparr>)"
proof -
  let ?line = "case p_exec_mode p of kPerfectLinks \<Rightarrow> show_u32 n @ '' '' @ show_u32 r | kFIFOBroadcast \<Rightarrow> show_u32 n"
  have nl: "CHR 0x0A \<notin> set (show_u32 k)" for k :: u32
    using show_nat_digits [of "CHR 0x0A"] by (auto simp: show_u32_def is_digit_def)
  have "getlines (?line @ CHR 0x0A # rest) = ?line # getlines rest"
    by (rule getlines_line) (use nl in \<open>auto split: exec_mode.splits\<close>)
  moreover have "Trim ?line \<noteq> []"
  proof -
    obtain c where "c \<in> set (show_nat (unat n))" by (metis show_nat_not_Nil last_in_set)
    with digit_not_space [OF show_nat_digits] show ?thesis
      by (auto simp: Trim_Nil_iff show_u32_def split: exec_mode.splits)
  qed
  moreover have k: "unat k < 2 ^ 32" for k :: u32 using unsigned_less [of k] by simp
  have "extract_unsigned 32 ([] @ show_nat (unat n) @ '' '' @ show_nat (unat r)) =
      Some (unat n, '' '' @ show_nat (unat r))"
    by (rule extract_unsigned_show [OF k]) simp_all
  moreover have "extract_unsigned 32 ('' '' @ show_nat (unat r) @ []) = Some (unat r, [])"
    by (rule extract_unsigned_show [OF k]) simp_all
  moreover have "extract_unsigned 32 ([] @ show_nat (unat n) @ []) = Some (unat n, [])"
    by (rule extract_unsigned_show [OF k]) simp_all
  ultimately show ?thesis
    using assms by (cases "p_exec_mode p")
      (simp_all add: ParseConfigFile_def Parser_config_path_def CheckParsed_def Let_def show_u32_def)
qed

end
