(* ===== verification/Console_Info.thy ===== *)
theory Console_Info
  imports Config_Parser
begin

text \<open>
  What the program prints about its configuration before it starts (\<^verbatim>\<open>info_display.cpp\<close>): the
  lines on the console. \<open>inet_ntoa\<close> is the C library function, \<open>pid\<close> the result of
  \<^verbatim>\<open>getpid()\<close>.
\<close>

definition ip_readable :: "(u32 \<Rightarrow> string) \<Rightarrow> host \<Rightarrow> string" where
  "ip_readable inet_ntoa h = inet_ntoa (h_ip h)"

definition info_Localhost :: "nat \<Rightarrow> parser \<Rightarrow> string list result" where
  "info_Localhost pid p =
     bind_result (Parser_id p) (\<lambda>i. Inr
       [''[INFO] My ID: '' @ show_u32 i,
        ''[INFO] My PID: '' @ show_nat pid,
        ''[INFO] From a new terminal type `kill -SIGINT '' @ show_nat pid @ [CHR 0x27] @ '' or '' @ [CHR 0x27] @
          ''kill -SIGTERM '' @ show_nat pid @ [CHR 0x27] @ '' to stop processing packets.'',
        ''[INFO]''])"

definition info_host :: "(u32 \<Rightarrow> string) \<Rightarrow> host \<Rightarrow> string list" where
  "info_host inet_ntoa h =
     [''[INFO] '' @ show_u32 (h_id h),
      ''[INFO] Human-readable IP: '' @ ip_readable inet_ntoa h,
      ''[INFO] Machine-readable IP: '' @ show_u32 (h_ip h),
      ''[INFO] Human-readbale Port: '' @ show_nat (unat (port_readable h)),
      ''[INFO] Machine-readbale Port: '' @ show_nat (unat (h_port h)),
      ''[INFO]'']"

definition info_Hosts :: "(u32 \<Rightarrow> string) \<Rightarrow> parser \<Rightarrow> string list result" where
  "info_Hosts inet_ntoa p =
     bind_result (Parser_hosts p) (\<lambda>hosts. Inr
       ([''[INFO] List of resolved hosts is:'', ''[INFO] =========================='']
        @ concat (map (info_host inet_ntoa) hosts) @ [''[INFO]'']))"

definition info_ExecArgs :: "parser \<Rightarrow> string list result" where
  "info_ExecArgs p =
     bind_result (Parser_hosts_path p) (\<lambda>hosts.
     bind_result (Parser_output_path p) (\<lambda>output.
     bind_result (if requires_config p
                  then bind_result (Parser_config_path p) (\<lambda>config.
                    Inr [''[INFO] Path to config:'', ''[INFO] ==============='', ''[INFO] '' @ config, ''[INFO]''])
                  else Inr []) (\<lambda>config. Inr
       ([''[INFO] Path to hosts:'', ''[INFO] ==============='', ''[INFO] '' @ hosts, ''[INFO]'',
         ''[INFO] Path to output:'', ''[INFO] ==============='', ''[INFO] '' @ output, ''[INFO]''] @ config))))"

text \<open>After parsing none of the three throws.\<close>

lemma info_total:
  assumes "parsed p"
  shows "\<exists>l. info_Localhost pid p = Inr l" "\<exists>l. info_Hosts inet_ntoa p = Inr l" "\<exists>l. info_ExecArgs p = Inr l"
  using assms
  by (simp_all add: info_Localhost_def info_Hosts_def info_ExecArgs_def Parser_id_def Parser_hosts_def
      Parser_hosts_path_def Parser_output_path_def Parser_config_path_def CheckParsed_def)

end
