(* ===== verification/Process_Drivers.thy ===== *)
theory Process_Drivers
  imports FIFO_Broadcast Console_Info
begin

text \<open>
  The drivers (\<^verbatim>\<open>drivers.cpp\<close>) and the entry point (\<^verbatim>\<open>main.cpp\<close>): they build the server, the
  client, the links and the manager of a process from the parsed configuration, start the
  threads and send the configured number of messages. \<open>os\<close> holds what the operating system
  answers. The log is part of the manager that writes to it. A driver is modelled up to
  \<^verbatim>\<open>WaitForever()\<close>, as the run in which no other thread takes a step before the last message is
  sent; \<open>Driver_Threads\<close> has the sends of the FIFO driver between the steps of the other threads.
\<close>

section \<open>Exceptions at the boundary of a function\<close>

text \<open>
  An exception that leaves a \<^verbatim>\<open>noexcept\<close> function or \<^verbatim>\<open>main\<close> ends the program; \<^verbatim>\<open>or_exit\<close> is
  \<^verbatim>\<open>catch (const std::exception &e) { ... std::exit(EXIT_FAILURE); }\<close>.
\<close>

fun noexcept_call :: "'a result \<Rightarrow> 'a result" where
  "noexcept_call (Inl (Runtime_Error e)) = Inl Terminate"
| "noexcept_call (Inl (Invalid_Argument e)) = Inl Terminate"
| "noexcept_call r = r"

fun or_exit :: "'a result \<Rightarrow> 'a result" where
  "or_exit (Inl (Runtime_Error e)) = Inl Exit_Failure"
| "or_exit (Inl (Invalid_Argument e)) = Inl Exit_Failure"
| "or_exit r = r"

lemma noexcept_call_Inr [simp]: "noexcept_call r = Inr x \<longleftrightarrow> r = Inr x"
  by (cases r rule: noexcept_call.cases) simp_all

lemma or_exit_Inr [simp]: "or_exit r = Inr x \<longleftrightarrow> r = Inr x"
  by (cases r rule: or_exit.cases) simp_all

section \<open>Drivers\<close>

record os =
  os_can_open :: "string \<Rightarrow> bool"
  os_disk :: "string \<rightharpoonup> string list"
  os_socket :: int
  os_bind :: int
  os_pid :: nat
  os_inet_ntoa :: "u32 \<Rightarrow> string"

record 'm app =
  app_server :: "u32 udp_server"
  app_client :: udp_client
  app_manager :: 'm

definition open_endpoints ::
  "os \<Rightarrow> parser \<Rightarrow> host \<Rightarrow> (logger \<times> u32 udp_server \<times> udp_client) result" where
  "open_endpoints os p me =
     or_exit (bind_result (Parser_output_path p)
       (\<lambda>path. let l = Logger_ctor (os_can_open os) (os_disk os) path
               in bind_result (UDPServer_ctor (os_socket os) (os_bind os) (h_ip me) (h_port me))
                    (\<lambda>srv. bind_result (UDPClient_ctor_fd (srv_sockfd srv) False)
                       (\<lambda>cl. Inr (l, srv, cl)))))"

definition add_link ::
  "(perfect_link \<Rightarrow> 'm \<Rightarrow> 'm) \<Rightarrow> u32 \<Rightarrow> host \<Rightarrow> u32 udp_server \<times> 'm \<Rightarrow> u32 udp_server \<times> 'm" where
  "add_link add i peer st =
     (let r = PerfectLink_ctor i (h_id peer) (h_ip peer) (h_port peer) (fst st)
      in (snd r, add (fst r) (snd st)))"

text \<open>\<^verbatim>\<open>for (peer : hosts) if (id != peer.id) ...\<close>\<close>

definition add_links ::
  "(perfect_link \<Rightarrow> 'm \<Rightarrow> 'm) \<Rightarrow> u32 \<Rightarrow> host list \<Rightarrow> u32 udp_server \<times> 'm \<Rightarrow> u32 udp_server \<times> 'm" where
  "add_links add i hosts st =
     fold (\<lambda>peer st. if i \<noteq> h_id peer then add_link add i peer st else st) hosts st"

definition FIFO_setup :: "os \<Rightarrow> parser \<Rightarrow> (u32 \<times> ufifo app) result" where
  "FIFO_setup os p =
     bind_result (noexcept_call (Parser_id p)) (\<lambda>i.
     bind_result (noexcept_call (Parser_hosts p)) (\<lambda>hosts.
     bind_result (noexcept_call (Parser_n_messages_to_send p)) (\<lambda>n.
     bind_result (noexcept_call (local_host p)) (\<lambda>me.
     bind_result (open_endpoints os p me) (\<lambda>(l, srv, cl).
       let st = add_links URB_Add i hosts (srv, UFIFO_init l i)
       in bind_result (UDPServer_Start (fst st)) (\<lambda>srv.
          bind_result (URB_Start (snd st)) (\<lambda>m.
            Inr (n, \<lparr>app_server = srv, app_client = cl, app_manager = m\<rparr>))))))))"

text \<open>\<^verbatim>\<open>for (i = 0; i < n_messages; ++i) fifo->Send("")\<close>\<close>

definition FIFO_sends :: "u32 \<Rightarrow> 'a ufifo_scheme \<Rightarrow> 'a ufifo_scheme result" where
  "FIFO_sends n m = fold_result (\<lambda>_. URB_Send ufifo_vt '''') [0 ..< unat n] m"

definition drivers_FIFOBroadcast :: "os \<Rightarrow> parser \<Rightarrow> ufifo app result" where
  "drivers_FIFOBroadcast os p =
     bind_result (FIFO_setup os p)
       (\<lambda>(n, a). bind_result (FIFO_sends n (app_manager a)) (\<lambda>m. Inr (a\<lparr>app_manager := m\<rparr>)))"

definition PL_sends :: "u32 \<Rightarrow> u32 \<Rightarrow> 'a manager_scheme \<Rightarrow> 'a manager_scheme" where
  "PL_sends target n m = fold (\<lambda>_. BasicManager_Send target '''') [0 ..< unat n] m"

definition drivers_PerfectLinks :: "os \<Rightarrow> parser \<Rightarrow> manager app result" where
  "drivers_PerfectLinks os p =
     bind_result (noexcept_call (Parser_id p)) (\<lambda>i.
     bind_result (noexcept_call (Parser_hosts p)) (\<lambda>hosts.
     bind_result (noexcept_call (Parser_n_messages_to_send p)) (\<lambda>n.
     bind_result (noexcept_call (local_host p)) (\<lambda>me.
     bind_result (noexcept_call (target_host p)) (\<lambda>target.
     bind_result (open_endpoints os p me) (\<lambda>(l, srv, cl).
       bind_result (UDPServer_Start srv) (\<lambda>srv.
         let st = (if i \<noteq> h_id target then add_link Manager_Add i target (srv, Manager_init l)
                   else add_links Manager_Add i hosts (srv, Manager_init l))
         in bind_result (Manager_Start (snd st)) (\<lambda>m.
              Inr \<lparr>app_server = fst st, app_client = cl,
                   app_manager = (if i \<noteq> h_id target then PL_sends (h_id target) n m else m)\<rparr>))))))))"

text \<open>
  \<^verbatim>\<open>StopExecution\<close> once the set-up is complete; \<open>stop\<close> is the virtual \<^verbatim>\<open>Stop\<close> of the manager.
\<close>

definition StopExecution ::
  "('a manager_scheme \<Rightarrow> 'a manager_scheme) \<Rightarrow> 'a manager_scheme app \<Rightarrow> 'a manager_scheme app" where
  "StopExecution stop a =
     (let m = stop (app_manager a);
          srv = UDPServer_Stop (app_server a)
      in a\<lparr>app_manager := m\<lparr>mgr_logger := Logger_Flush (mgr_logger m)\<rparr>, app_server := srv\<rparr>)"

section \<open>The program\<close>

datatype running = Run_PerfectLinks "manager app" | Run_FIFOBroadcast "ufifo app"

text \<open>The lines on the console and the process that runs, or how the program ended.\<close>

definition main_program ::
  "libc \<Rightarrow> (string \<rightharpoonup> string) \<Rightarrow> os \<Rightarrow> string list \<Rightarrow> (string list \<times> running) result" where
  "main_program lc fs os argv =
     bind_result (or_exit (Parser_Parse lc fs (Parser_ctor argv True))) (\<lambda>p.
     bind_result (noexcept_call (info_Localhost (os_pid os) p)) (\<lambda>l1.
     bind_result (noexcept_call (info_Hosts (os_inet_ntoa os) p)) (\<lambda>l2.
     bind_result (noexcept_call (info_ExecArgs p)) (\<lambda>l3.
       case p_exec_mode p of
         kPerfectLinks \<Rightarrow> bind_result (drivers_PerfectLinks os p) (\<lambda>a. Inr (l1 @ l2 @ l3, Run_PerfectLinks a))
       | kFIFOBroadcast \<Rightarrow> bind_result (drivers_FIFOBroadcast os p) (\<lambda>a. Inr (l1 @ l2 @ l3, Run_FIFOBroadcast a))))))"

text \<open>
  The handler of SIGINT and SIGTERM, once the set-up is complete: the lines it prints and the
  process as it leaves it, before the program ends with success. \<open>strsignal\<close> is the C library
  function.
\<close>

definition stop_execution :: "(int \<Rightarrow> string) \<Rightarrow> int \<Rightarrow> running \<Rightarrow> string list \<times> running" where
  "stop_execution strsignal signum r =
     ([[], ''[INFO] '' @ strsignal signum @ '' signal received.'',
       ''[INFO] Immediately stopping network packet processing.'', ''[INFO] Writing output.''],
      case r of Run_PerfectLinks a \<Rightarrow> Run_PerfectLinks (StopExecution Manager_Stop a)
              | Run_FIFOBroadcast a \<Rightarrow> Run_FIFOBroadcast (StopExecution URB_Stop a))"

section \<open>Adding links\<close>

definition host_addr :: "host \<Rightarrow> machine" where
  "host_addr h = Machine (h_ip h) (h_port h)"

definition link_to :: "u32 \<Rightarrow> host \<Rightarrow> perfect_link" where
  "link_to i h = \<lparr>pl_id = i, pl_target_id = h_id h, pl_target_addr = host_addr h, pl_n_messages_sent = 1,
     acks_to_send = {}, messages_to_send = Map.empty, messages_delivered = Map.empty, managers = []\<rparr>"

lemma add_link_eq:
  "add_link add i peer (srv, m) = (UDPServer_Attach (h_id peer) (host_addr peer) srv, add (link_to i peer) m)"
  by (simp add: add_link_def PerfectLink_ctor_def Let_def link_to_def host_addr_def UDPClient_Address_def)

text \<open>The peers, in the order of the hosts file, as links and as subscriptions of the server.\<close>

lemma add_links_eq:
  "add_links add i hosts (srv, m) =
     (fold (\<lambda>(obs, a). UDPServer_Attach obs a)
        (map (\<lambda>h. (h_id h, host_addr h)) (filter (\<lambda>h. i \<noteq> h_id h) hosts)) srv,
      fold add (map (link_to i) (filter (\<lambda>h. i \<noteq> h_id h) hosts)) m)"
  unfolding add_links_def
  by (induction hosts arbitrary: srv m) (auto simp: add_link_eq)

text \<open>What adding a list of links with distinct peers does, for both \<^verbatim>\<open>Add\<close> methods.\<close>

locale adds_links =
  fixes add :: "perfect_link \<Rightarrow> 'a manager_scheme \<Rightarrow> 'a manager_scheme"
  assumes add_perfect_links: "perfect_links (add pl m) =
      (perfect_links m)(pl_target_id pl \<mapsto> PL_Subscribe This_Manager pl)"
    and add_n_processes: "n_processes (add pl m) = n_processes m + 1"
    and add_logger: "mgr_logger (add pl m) = mgr_logger m"
begin

lemma adds_links:
  assumes "distinct (map h_id hs)"
  shows "perfect_links (fold add (map (link_to i) hs) m) j =
      (case map_of (map (\<lambda>h. (h_id h, h)) hs) j of
         Some h \<Rightarrow> Some (PL_Subscribe This_Manager (link_to i h)) | None \<Rightarrow> perfect_links m j)"
  using assms
proof (induction hs arbitrary: m)
  case Nil
  then show ?case by simp
next
  case (Cons h hs)
  have "map_of (map (\<lambda>h. (h_id h, h)) hs) (h_id h) = None"
    using Cons.prems by (force simp: map_of_eq_None_iff)
  then show ?case using Cons by (auto simp: add_perfect_links link_to_def split: option.splits)
qed

lemma adds_n_processes: "n_processes (fold add pls m) = n_processes m + of_nat (length pls)"
  by (induction pls arbitrary: m) (simp_all add: add_n_processes)

lemma adds_logger: "mgr_logger (fold add pls m) = mgr_logger m"
  by (induction pls arbitrary: m) (simp_all add: add_logger)

end

interpretation basic_adds: adds_links Manager_Add
  by unfold_locales (simp_all add: Manager_Add_def)

interpretation urb_adds: adds_links "URB_Add :: perfect_link \<Rightarrow> 'a urb_scheme \<Rightarrow> 'a urb_scheme"
  by unfold_locales (simp_all add: URB_Add_def Let_def)

section \<open>Sending the configured messages\<close>

lemma unat_u32_max: "unat (- 1 :: u32) = 2 ^ 32 - 1"
  by (simp add: unsigned_minus_1_eq_mask mask_eq_exp_minus_1)

lemma URB_Send_empty: "\<exists>u'. URB_Send ufifo_vt [] u = Inr u'"
  by (simp add: URB_Send_def Let_def ufifo_vt_def UFIFO_SendInternal_def URB_SendInternal_def
      BEB_SendInternal_eq string_bytes_def)

lemma URB_Send_counts:
  assumes "URB_Send vt msg u = Inr u'" and "urb_class vt"
  shows "bc_n_messages_sent u' = bc_n_messages_sent u + 1"
    "length (own_pending_for_broadcast u') = length (own_pending_for_broadcast u) +
       (if n_own_pending_delivery_ideal u \<le> n_own_pending_for_delivery u then 1 else 0)"
    "n_own_pending_for_delivery u' = n_own_pending_for_delivery u +
       (if n_own_pending_delivery_ideal u \<le> n_own_pending_for_delivery u then 0 else 1)"
    "n_own_pending_delivery_ideal u' = n_own_pending_delivery_ideal u"
  by (rule urb_class.Send_cases [OF assms(2,1)]; simp add: same_urb_def)+

lemma unat_window_step:
  "unat (if ideal \<le> n then n else n + 1) = (if unat ideal \<le> unat n then unat n else Suc (unat n))" for n ideal :: u32
proof (cases "ideal \<le> n")
  case True
  then show ?thesis by (simp add: word_le_nat_alt)
next
  case False
  then have "1 + n \<noteq> 0" by (metis add.commute add_eq_0_iff2 linear word_n1_ge order_antisym_conv)
  with False show ?thesis by (simp add: word_le_nat_alt add.commute [of n] unatSuc)
qed

lemma FIFO_sends_run:
  assumes "reachable ufifo_started ufifo_next u" and "bc_n_messages_sent u = 1"
    and "lg_lines (mgr_logger u) = []" and "own_pending_for_broadcast u = []"
    and "n_own_pending_for_delivery u = 0" and "k + 1 < 2 ^ 32"
  shows "\<exists>u'. fold_result (\<lambda>_. URB_Send ufifo_vt []) [0 ..< k] u = Inr u' \<and>
    reachable ufifo_started ufifo_next u' \<and> unat (bc_n_messages_sent u') = k + 1 \<and>
    lg_lines (mgr_logger u') = map (\<lambda>j. broadcast_line (of_nat j)) [1 ..< Suc k] \<and>
    n_own_pending_delivery_ideal u' = n_own_pending_delivery_ideal u \<and>
    unat (n_own_pending_for_delivery u') = min k (unat (n_own_pending_delivery_ideal u)) \<and>
    length (own_pending_for_broadcast u') = k - unat (n_own_pending_delivery_ideal u)"
  using assms(6)
proof (induction k)
  case 0
  then show ?case using assms by simp
next
  case (Suc k)
  then obtain u1 where u1: "fold_result (\<lambda>_. URB_Send ufifo_vt []) [0 ..< k] u = Inr u1"
    "reachable ufifo_started ufifo_next u1" "unat (bc_n_messages_sent u1) = k + 1"
    "lg_lines (mgr_logger u1) = map (\<lambda>j. broadcast_line (of_nat j)) [1 ..< Suc k]"
    "n_own_pending_delivery_ideal u1 = n_own_pending_delivery_ideal u"
    "unat (n_own_pending_for_delivery u1) = min k (unat (n_own_pending_delivery_ideal u))"
    "length (own_pending_for_broadcast u1) = k - unat (n_own_pending_delivery_ideal u)"
    by auto
  obtain u2 where u2: "URB_Send ufifo_vt [] u1 = Inr u2" using URB_Send_empty by blast
  note c = URB_Send_counts [OF u2 ufifo_urb.urb_class_axioms]
  have not_max: "bc_n_messages_sent u1 \<noteq> - 1"
    using Suc.prems u1(3) by (auto simp: unat_u32_max)
  have "reads_front Inr" by (simp add: reads_front_def)
  then have "ufifo_next u1 u2" using step_send [OF u2 not_max] by (auto simp: ufifo_next_def)
  with u1(2) have r: "reachable ufifo_started ufifo_next u2" by (rule reachable_step)
  have "lg_is_open (mgr_logger u1)"
    using ufifo_runs.reachable_inv [OF u1(2)] by (simp add: fifo_sync_def ufifo.log_in_order_def)
  then have lines: "lg_lines (mgr_logger u2) = map (\<lambda>j. broadcast_line (of_nat j)) [1 ..< Suc (Suc k)]"
    using ufifo_urb.Send_logger [OF u2] u1(3,4)
    by (simp add: Logger_write_lines) (metis of_nat_Suc of_nat_unat ucast_id add.commute plus_1_eq_Suc)
  have "unat (bc_n_messages_sent u2) = Suc k + 1"
    using not_max u1(3) unfolding c(1) by (metis Suc_eq_plus1 add.commute add_eq_0_iff2 unatSuc)
  moreover have "unat (n_own_pending_for_delivery u2) = min (Suc k) (unat (n_own_pending_delivery_ideal u))"
    unfolding c(3) using unat_window_step [of "n_own_pending_delivery_ideal u1" "n_own_pending_for_delivery u1"]
      u1(5,6) by (auto simp: min_def split: if_splits)
  moreover have "length (own_pending_for_broadcast u2) = Suc k - unat (n_own_pending_delivery_ideal u)"
    using u1(5-7) c(2) by (auto simp: word_le_nat_alt min_def split: if_splits)
  ultimately show ?case
    using u1(1,5) u2 r lines c(4) by (simp add: fold_result_append del: upt_Suc) (simp add: fold_result_append)
qed

section \<open>Set-up\<close>

lemma URB_Adds_threads:
  "ack_thread (fold URB_Add pls u) = ack_thread u" "send_thread (fold URB_Add pls u) = send_thread u"
  "deliver_thread (fold URB_Add pls u) = deliver_thread u"
  by (induction pls arbitrary: u) (simp_all add: URB_Add_def Let_def)

lemma UFIFO_init_fields [simp]:
  "ack_thread (UFIFO_init l i) = False" "send_thread (UFIFO_init l i) = False"
  "deliver_thread (UFIFO_init l i) = False" "perfect_links (UFIFO_init l i) = Map.empty"
  "n_processes (UFIFO_init l i) = 1" "mgr_logger (UFIFO_init l i) = l" "bc_id (UFIFO_init l i) = i"
  by (simp_all add: UFIFO_init_def URB_init_def Manager_init_def manager.defs urb.defs)

lemma attach_all_thread:
  "receive_thread (fold (\<lambda>(obs, a). UDPServer_Attach obs a) subs srv) = receive_thread srv"
  by (induction subs arbitrary: srv) (simp_all add: case_prod_beta UDPServer_Attach_def)

lemma attach_all_socket:
  "srv_sockfd (fold (\<lambda>(obs, a). UDPServer_Attach obs a) subs srv) = srv_sockfd srv"
  "server_addr (fold (\<lambda>(obs, a). UDPServer_Attach obs a) subs srv) = server_addr srv"
  "srv_on (fold (\<lambda>(obs, a). UDPServer_Attach obs a) subs srv) = srv_on srv"
  by (induction subs arbitrary: srv) (simp_all add: case_prod_beta UDPServer_Attach_def)

text \<open>
  A process that listens: one socket, bound to the address of the own host, for receiving and sending,
  and every switch and thread of the two base classes on.
\<close>

definition listens :: "os \<Rightarrow> host \<Rightarrow> 'a manager_scheme app \<Rightarrow> bool" where
  "listens os me a \<longleftrightarrow>
     0 \<le> os_socket os \<and> srv_sockfd (app_server a) = os_socket os \<and> cl_sockfd (app_client a) = os_socket os \<and>
     server_addr (app_server a) = Machine (h_ip me) (h_port me) \<and>
     srv_on (app_server a) \<and> receive_thread (app_server a) \<and>
     on (app_manager a) \<and> ack_thread (app_manager a) \<and> send_thread (app_manager a)"

lemma open_endpoints_cases:
  assumes "parsed p"
  shows "open_endpoints os p me =
    (if os_socket os < 0 \<or> os_bind os < 0 then Inl Exit_Failure
     else Inr (Logger_ctor (os_can_open os) (os_disk os) (p_output_path p),
       \<lparr>srv_sockfd = os_socket os, server_addr = host_addr me, srv_on = False, receive_thread = False,
        observers = Map.empty\<rparr>,
       \<lparr>cl_sockfd = os_socket os, sock_owner = False\<rparr>))"
  using assms
  by (simp add: open_endpoints_def Parser_output_path_def CheckParsed_def Let_def UDPServer_ctor_def
      UDPClient_ctor_fd_def UDPClient_Address_def host_addr_def)

abbreviation peers :: "parser \<Rightarrow> host list" where
  "peers p \<equiv> filter (\<lambda>h. p_id p \<noteq> h_id h) (p_hosts p)"

text \<open>The manager that the set-up builds, before it is started.\<close>

definition fifo_manager :: "os \<Rightarrow> parser \<Rightarrow> ufifo" where
  "fifo_manager os p = fold URB_Add (map (link_to (p_id p)) (peers p))
     (UFIFO_init (Logger_ctor (os_can_open os) (os_disk os) (p_output_path p)) (p_id p))"

lemma FIFO_setup_cases:
  assumes "parsed p"
  shows "FIFO_setup os p =
    (case local_host p of
       Inl e \<Rightarrow> Inl Terminate
     | Inr me \<Rightarrow>
         if os_socket os < 0 \<or> os_bind os < 0 then Inl Exit_Failure
         else Inr (p_n_messages_to_send p,
           \<lparr>app_server = (fold (\<lambda>(obs, a). UDPServer_Attach obs a)
                (map (\<lambda>h. (h_id h, host_addr h)) (peers p))
                \<lparr>srv_sockfd = os_socket os, server_addr = host_addr me, srv_on = False,
                 receive_thread = False, observers = Map.empty\<rparr>)\<lparr>srv_on := True, receive_thread := True\<rparr>,
            app_client = \<lparr>cl_sockfd = os_socket os, sock_owner = False\<rparr>,
            app_manager = (fifo_manager os p)\<lparr>on := True, ack_thread := True, send_thread := True,
                deliver_thread := True\<rparr>\<rparr>))"
proof -
  have start: "URB_Start (fifo_manager os p) = Inr ((fifo_manager os p)\<lparr>on := True, ack_thread := True,
      send_thread := True, deliver_thread := True\<rparr>)"
    by (simp add: fifo_manager_def URB_Start_def Manager_Start_def URB_Adds_threads)
  have "noexcept_call (local_host p) = (case local_host p of Inl e \<Rightarrow> Inl Terminate | Inr me \<Rightarrow> Inr me)"
    by (simp add: local_host_def)
  with assms start show ?thesis
    by (auto simp: FIFO_setup_def Parser_id_def Parser_hosts_def Parser_n_messages_to_send_def CheckParsed_def
        open_endpoints_cases add_links_eq UDPServer_Start_def attach_all_thread fifo_manager_def
        split: sum.splits)
qed

lemma fifo_manager_started:
  assumes "os_can_open os (p_output_path p)"
  shows "ufifo_started (fifo_manager os p)"
  unfolding ufifo_started_def fifo_manager_def using assms
  by (intro exI [of _ "Logger_ctor (os_can_open os) (os_disk os) (p_output_path p)"] exI conjI refl)
    (simp_all add: Logger_ctor_def Logger_file_open_def)

lemma fifo_manager_running:
  assumes "os_can_open os (p_output_path p)" and "FIFO_setup os p = Inr (n, a)" and "parsed p"
  shows "reachable ufifo_started ufifo_next (app_manager a)" "urb_fresh (app_manager a)"
    "lg_lines (mgr_logger (app_manager a)) = []"
proof -
  let ?m = "fifo_manager os p"
  have a: "app_manager a = ?m\<lparr>on := True, ack_thread := True, send_thread := True, deliver_thread := True\<rparr>"
    using assms(2,3) by (auto simp: FIFO_setup_cases split: sum.splits if_splits)
  have "URB_Start ?m = Inr (app_manager a)"
    by (simp add: a fifo_manager_def URB_Start_def Manager_Start_def URB_Adds_threads)
  then have "ufifo_next ?m (app_manager a)"
    using step_start by (auto simp: ufifo_next_def reads_front_def intro!: exI [of _ Inr])
  with reachable_init [of ufifo_started, OF fifo_manager_started [OF assms(1)]]
  show "reachable ufifo_started ufifo_next (app_manager a)" by (rule reachable_step)
  have "urb_fresh ?m" unfolding fifo_manager_def by (intro urb_fresh_Adds urb_fresh_UFIFO_init)
  then show "urb_fresh (app_manager a)" by (simp add: a urb_fresh_def)
  show "lg_lines (mgr_logger (app_manager a)) = []"
    using assms(1) by (simp add: a fifo_manager_def URB_Add_logger Logger_ctor_def Logger_file_open_def)
qed

lemma length_filter_key:
  "distinct (map f xs) \<Longrightarrow> k \<in> f ` set xs \<Longrightarrow> length (filter (\<lambda>x. k = f x) xs) = 1"
  by (induction xs) (auto simp: filter_empty_conv)

text \<open>The links, the process count and the routing table after the set-up.\<close>

lemma FIFO_setup_wiring:
  assumes "FIFO_setup os p = Inr (n, a)" and "parsed p"
    and "distinct (map h_id (p_hosts p))" and "p_id p \<in> h_id ` set (p_hosts p)"
  shows "(\<forall>h \<in> set (p_hosts p). h_id h \<noteq> p_id p \<longrightarrow>
      perfect_links (app_manager a) (h_id h) = Some (PL_Subscribe This_Manager (link_to (p_id p) h))) \<and>
    dom (perfect_links (app_manager a)) = h_id ` set (p_hosts p) - {p_id p} \<and>
    n_processes (app_manager a) = of_nat (length (p_hosts p)) \<and>
    observers_at (app_server a) addr =
      map h_id (filter (\<lambda>h. h_id h \<noteq> p_id p \<and> host_addr h = addr) (p_hosts p))"
proof -
  have dist: "distinct (map h_id (peers p))" using assms(3) by (simp add: distinct_map_filter)
  obtain me where a: "app_manager a = (fifo_manager os p)\<lparr>on := True, ack_thread := True, send_thread := True,
      deliver_thread := True\<rparr>"
    and srv: "app_server a = (fold (\<lambda>(obs, a). UDPServer_Attach obs a)
        (map (\<lambda>h. (h_id h, host_addr h)) (peers p)) \<lparr>srv_sockfd = os_socket os, server_addr = host_addr me,
          srv_on = False, receive_thread = False, observers = Map.empty\<rparr>)\<lparr>srv_on := True, receive_thread := True\<rparr>"
    using assms(1,2) by (auto simp: FIFO_setup_cases split: sum.splits if_splits)
  have links: "perfect_links (app_manager a) j =
      map_option (\<lambda>h. PL_Subscribe This_Manager (link_to (p_id p) h)) (map_of (map (\<lambda>h. (h_id h, h)) (peers p)) j)"
    for j
    by (simp add: a fifo_manager_def urb_adds.adds_links [OF dist] split: option.splits)
  have "map_of (map (\<lambda>h. (h_id h, h)) (peers p)) (h_id h) = Some h"
    if "h \<in> set (p_hosts p)" "h_id h \<noteq> p_id p" for h
    using that dist by (intro map_of_is_SomeI) (auto simp: comp_def)
  moreover have "dom (perfect_links (app_manager a)) = h_id ` set (p_hosts p) - {p_id p}"
    unfolding links by (force simp: dom_def map_of_eq_None_iff simp flip: not_None_eq)
  moreover have "length (p_hosts p) = Suc (length (peers p))"
  proof -
    have "length (filter (\<lambda>h. p_id p = h_id h) (p_hosts p)) = 1"
      using assms(3,4) by (rule length_filter_key)
    then show ?thesis using sum_length_filter_compl [of "\<lambda>h. p_id p = h_id h" "p_hosts p"] by simp
  qed
  moreover have "observers_at (app_server a) addr =
      map h_id (filter (\<lambda>h. h_id h \<noteq> p_id p \<and> host_addr h = addr) (p_hosts p))"
  proof -
    have frame: "observers_at (s\<lparr>srv_on := True, receive_thread := True\<rparr>) m = observers_at s m"
      for s :: "u32 udp_server" and m by (simp add: observers_at_def)
    have "observers_at \<lparr>srv_sockfd = os_socket os, server_addr = host_addr me, srv_on = False,
        receive_thread = False, observers = Map.empty\<rparr> addr = ([] :: u32 list)"
      by (simp add: observers_at_def)
    then show ?thesis
      unfolding srv frame observers_at_Attach_all
      by (simp add: filter_map comp_def eq_commute [of "p_id p"])
  qed
  moreover have "n_processes (app_manager a) = 1 + of_nat (length (peers p))"
    by (simp add: a fifo_manager_def urb_adds.adds_n_processes)
  ultimately show ?thesis by (simp add: links)
qed

section \<open>An example process\<close>

definition ex_os :: os where
  "ex_os = \<lparr>os_can_open = (\<lambda>_. True), os_disk = Map.empty, os_socket = 3, os_bind = 0,
     os_pid = 1, os_inet_ntoa = (\<lambda>_. '''')\<rparr>"

definition ex_config :: parser where
  "ex_config = ex_parser\<lparr>p_hosts := [ex_host 1, ex_host 2, ex_host 3], p_output_path := ''out'',
     p_n_messages_to_send := 5\<rparr>"

definition ex_app :: "ufifo app" where
  "ex_app = snd (projr (FIFO_setup ex_os ex_config))"

lemma ex_config_fields [simp]:
  "parsed ex_config" "p_id ex_config = 2" "p_hosts ex_config = [ex_host 1, ex_host 2, ex_host 3]"
  "p_output_path ex_config = ''out''" "p_n_messages_to_send ex_config = 5"
  "local_host ex_config = Inr (ex_host 2)" "os_can_open ex_os f" "os_socket ex_os = 3" "os_bind ex_os = 0"
  "h_id (ex_host i) = i"
  by (simp_all add: ex_config_def ex_parser_def ex_os_def Parser_ctor_def local_host_def ex_host_def)

lemma ex_setup: "FIFO_setup ex_os ex_config = Inr (5, ex_app)"
  by (simp add: ex_app_def FIFO_setup_cases)

section \<open>Properties\<close>

text \<open>
  C30: Topology. When the identifiers in the hosts table are distinct and contain the own one,
  the set-up of FIFO broadcast creates exactly one link per other host, aimed at its address
  and subscribed once, counts all processes, and routes datagrams by source address to the
  links of the hosts with that address.
\<close>

theorem FIFO_setup_topology:
  assumes "FIFO_setup os p = Inr (n, a)" and "parsed p"
    and "distinct (map h_id (p_hosts p))" and "p_id p \<in> h_id ` set (p_hosts p)"
  shows "(\<forall>h \<in> set (p_hosts p). h_id h \<noteq> p_id p \<longrightarrow>
      perfect_links (app_manager a) (h_id h) = Some (PL_Subscribe This_Manager (link_to (p_id p) h))) \<and>
    dom (perfect_links (app_manager a)) = h_id ` set (p_hosts p) - {p_id p} \<and>
    n_processes (app_manager a) = of_nat (length (p_hosts p)) \<and>
    observers_at (app_server a) addr =
      map h_id (filter (\<lambda>h. h_id h \<noteq> p_id p \<and> host_addr h = addr) (p_hosts p))"
  by (rule FIFO_setup_wiring [OF assms])

theorem FIFO_setup_topology_witness:
  "dom (perfect_links (app_manager ex_app)) = {1, 3} \<and> n_processes (app_manager ex_app) = 3 \<and>
   observers_at (app_server ex_app) (host_addr (ex_host 1)) = [1, 3]"
proof -
  have "distinct (map h_id (p_hosts ex_config))" "p_id ex_config \<in> h_id ` set (p_hosts ex_config)" by simp_all
  from FIFO_setup_topology [OF ex_setup ex_config_fields(1) this, of "host_addr (ex_host 1)"]
  show ?thesis by (auto simp: host_addr_def ex_host_def)
qed

text \<open>
  The FIFO driver, when no other thread of the process takes a step before the last message is sent: it
  ends the program, exits, or leaves a listening process with all messages logged, as many in the
  network as fit the window, and the others queued.
\<close>

lemma URB_Send_threads:
  assumes "URB_Send ufifo_vt msg u = Inr u'"
  shows "on u' = on u \<and> ack_thread u' = ack_thread u \<and> send_thread u' = send_thread u \<and> deliver_thread u' = deliver_thread u"
proof -
  have "case URB_Send ufifo_vt msg u of Inl e \<Rightarrow> True | Inr u' \<Rightarrow>
      on u' = on u \<and> ack_thread u' = ack_thread u \<and> send_thread u' = send_thread u \<and> deliver_thread u' = deliver_thread u"
    by (simp add: URB_Send_def ufifo_vt_def UFIFO_SendInternal_def URB_SendInternal_def BEB_SendInternal_eq LogSend_line
        log_line_def send_on_all_def Let_def)
  with assms show ?thesis by simp
qed

lemma FIFO_sends_threads:
  assumes "FIFO_sends n u = Inr u'"
  shows "on u' = on u \<and> ack_thread u' = ack_thread u \<and> send_thread u' = send_thread u \<and> deliver_thread u' = deliver_thread u"
  by (rule fold_result_invariant [OF assms [unfolded FIFO_sends_def]]) (auto dest: URB_Send_threads)

lemma FIFO_sends_total: "\<exists>u'. FIFO_sends n u = Inr u'"
  using fold_result_total [of "\<lambda>_. True" u "[0 ..< unat n]" "\<lambda>_. URB_Send ufifo_vt []"]
  by (auto simp: FIFO_sends_def URB_Send_empty)

lemma FIFO_driver_exact:
  assumes "parsed p"
  shows "case local_host p of
      Inl _ \<Rightarrow> drivers_FIFOBroadcast os p = Inl Terminate
    | Inr me \<Rightarrow>
        if os_socket os < 0 \<or> os_bind os < 0 then drivers_FIFOBroadcast os p = Inl Exit_Failure
        else \<exists>a0 m. FIFO_setup os p = Inr (p_n_messages_to_send p, a0) \<and> FIFO_sends (p_n_messages_to_send p) (app_manager a0) = Inr m \<and>
          drivers_FIFOBroadcast os p = Inr (a0\<lparr>app_manager := m\<rparr>) \<and>
          listens os me (a0\<lparr>app_manager := m\<rparr>) \<and> listens os me a0 \<and> deliver_thread m \<and> deliver_thread (app_manager a0)"
proof (cases "local_host p")
  case (Inl e)
  with assms show ?thesis by (simp add: drivers_FIFOBroadcast_def FIFO_setup_cases)
next
  case (Inr me)
  show ?thesis
  proof (cases "os_socket os < 0 \<or> os_bind os < 0")
    case True
    with Inr assms show ?thesis by (auto simp: drivers_FIFOBroadcast_def FIFO_setup_cases)
  next
    case False
    with Inr assms obtain a0 where a0: "FIFO_setup os p = Inr (p_n_messages_to_send p, a0)"
      "listens os me a0" "deliver_thread (app_manager a0)"
      by (auto simp: FIFO_setup_cases listens_def attach_all_socket host_addr_def)
    obtain m where m: "FIFO_sends (p_n_messages_to_send p) (app_manager a0) = Inr m" using FIFO_sends_total by blast
    from FIFO_sends_threads [OF this] a0 have "listens os me (a0\<lparr>app_manager := m\<rparr>)" "deliver_thread m"
      by (simp_all add: listens_def)
    with Inr False a0 m show ?thesis by (simp add: drivers_FIFOBroadcast_def)
  qed
qed

lemma FIFO_sends_outcome:
  assumes "parsed p" and "os_can_open os (p_output_path p)" and "p_n_messages_to_send p \<noteq> - 1"
    and built: "FIFO_setup os p = Inr (n, a)" and sends: "FIFO_sends n (app_manager a) = Inr m"
  shows "reachable ufifo_started ufifo_next m"
    "lg_lines (mgr_logger m) = map (\<lambda>j. broadcast_line (of_nat j)) [1 ..< Suc (unat n)]"
    "unat (n_own_pending_for_delivery m) = min (unat n) (unat (n_own_pending_delivery_ideal m))"
    "length (own_pending_for_broadcast m) = unat n - unat (n_own_pending_delivery_ideal m)"
proof -
  have n: "n = p_n_messages_to_send p"
    using built assms(1) by (auto simp: FIFO_setup_cases split: sum.splits if_splits)
  have small: "unat n + 1 < 2 ^ 32"
  proof -
    have "unat n \<noteq> unat (- 1 :: u32)" using assms(3) by (simp add: n flip: word_unat_eq_iff)
    with unat_lt2p_32 [of n] show ?thesis unfolding unat_u32_max by simp
  qed
  note run = fifo_manager_running [OF assms(2) built assms(1)]
  have "bc_n_messages_sent (app_manager a) = 1" "own_pending_for_broadcast (app_manager a) = []"
    "n_own_pending_for_delivery (app_manager a) = 0"
    using run(2) by (simp_all add: urb_fresh_def)
  from FIFO_sends_run [OF run(1) this(1) run(3) this(2,3) small] sends
  show "reachable ufifo_started ufifo_next m"
    "lg_lines (mgr_logger m) = map (\<lambda>j. broadcast_line (of_nat j)) [1 ..< Suc (unat n)]"
    "unat (n_own_pending_for_delivery m) = min (unat n) (unat (n_own_pending_delivery_ideal m))"
    "length (own_pending_for_broadcast m) = unat n - unat (n_own_pending_delivery_ideal m)"
    by (simp_all add: FIFO_sends_def del: upt_Suc)
qed

text \<open>What the process of either mode has running, and its log.\<close>

fun running_log :: "running \<Rightarrow> logger" where
  "running_log (Run_PerfectLinks a) = mgr_logger (app_manager a)"
| "running_log (Run_FIFOBroadcast a) = mgr_logger (app_manager a)"

fun running_threads :: "running \<Rightarrow> bool list" where
  "running_threads (Run_PerfectLinks a) =
     [on (app_manager a), send_thread (app_manager a), ack_thread (app_manager a), srv_on (app_server a)]"
| "running_threads (Run_FIFOBroadcast a) =
     [on (app_manager a), send_thread (app_manager a), ack_thread (app_manager a), srv_on (app_server a),
      deliver_thread (app_manager a)]"

text \<open>
  Shutdown. On a signal to a started process of either mode, the handler stops all sending,
  delivering and receiving threads and writes the complete log to the output file: its lines are
  exactly the lines logged so far, and no other file changes.
\<close>

lemma stop_execution_writes:
  assumes "lg_is_open (running_log r)" and "hd (running_threads r)"
  shows "let r' = snd (stop_execution strsignal signum r); l = running_log r
    in lg_disk (running_log r') = (lg_disk l)(lg_path l \<mapsto> lg_lines l) \<and> set (running_threads r') = {False}"
  using assms
  by (cases r) (simp_all add: stop_execution_def StopExecution_def Let_def URB_Stop_def Manager_Stop_def
      Logger_Flush_def UDPServer_Stop_def)

end
