(* ===== verification/Broadcast_Log.thy ===== *)
theory Broadcast_Log
  imports FIFO_Broadcast
begin

text \<open>
  What a process logs when it broadcasts: in every run of uniform FIFO broadcast the lines
  \<^verbatim>\<open>b s\<close> of the log are those of the sequence numbers handed out so far, in order.
\<close>

definition own_lines :: "logger \<Rightarrow> string list" where
  "own_lines l = filter (\<lambda>x. x \<in> range broadcast_line) (lg_lines l)"

definition own_logged :: "'a urb_scheme \<Rightarrow> bool" where
  "own_logged u \<longleftrightarrow> lg_is_open (mgr_logger u) \<and>
     own_lines (mgr_logger u) = map broadcast_line (seqs_below (bc_n_messages_sent u))"

lemma own_lines_deliver [simp]: "own_lines (Logger_write l (deliver_line a s)) = own_lines l"
  by (auto simp: own_lines_def Logger_write_lines)

lemma own_lines_broadcast:
  "lg_is_open l \<Longrightarrow> own_lines (Logger_write l (broadcast_line s)) = own_lines l @ [broadcast_line s]"
  by (simp add: own_lines_def Logger_write_lines)

lemma own_logged_frame:
  assumes "own_logged u" and "mgr_logger u' = mgr_logger u" and "bc_n_messages_sent u' = bc_n_messages_sent u"
  shows "own_logged u'"
  using assms by (simp add: own_logged_def)

lemma UFIFO_loop_own:
  "own_lines (mgr_logger (snd (snd (UFIFO_loop l a xs n u)))) = own_lines (mgr_logger u)"
  "lg_is_open (mgr_logger (snd (snd (UFIFO_loop l a xs n u)))) = lg_is_open (mgr_logger u)"
  by (induction xs arbitrary: n u) (simp_all add: Let_def LogDeliver_line log_line_def)

lemma UFIFO_DeliverInternal_own:
  "own_lines (mgr_logger (UFIFO_DeliverInternal i l u)) = own_lines (mgr_logger u)"
  "lg_is_open (mgr_logger (UFIFO_DeliverInternal i l u)) = lg_is_open (mgr_logger u)"
  by (simp_all add: UFIFO_DeliverInternal_def Let_def UFIFO_loop_own)

lemma own_logged_deliver_one:
  assumes "own_logged u" and run: "URB_deliver_one ufifo_vt after_pop i u = Inr u'"
  shows "own_logged u'"
  using run
proof (cases rule: ufifo_urb.deliver_one_cases)
  case skip
  with assms(1) show ?thesis by (simp add: own_logged_def)
next
  case (deliver u1)
  let ?u2 = "u1\<lparr>delivered := DeliveredSet_Insert i (delivered u1), acks := (acks u1)(i := None)\<rparr>"
  have u': "u' = UFIFO_DeliverInternal i True ?u2" by (simp add: deliver(4) ufifo_vt_def)
  have "bc_n_messages_sent u' = bc_n_messages_sent ?u2"
    using UFIFO_DeliverInternal_same [of ?u2 i True] by (simp add: u' same_urb_def)
  moreover have "bc_n_messages_sent u1 = bc_n_messages_sent u"
    using deliver(3) by (cases rule: ufifo_urb.move_window_cases) simp_all
  ultimately show ?thesis
    using assms(1) ufifo_urb.move_window_frame(1) [OF deliver(3)]
    by (simp add: own_logged_def) (simp add: u' UFIFO_DeliverInternal_own)
qed

lemma own_logged_send:
  assumes log: "own_logged u" and run: "URB_Send ufifo_vt msg u = Inr u'"
    and n: "bc_n_messages_sent u \<noteq> - 1" "0 < bc_n_messages_sent u"
  shows "own_logged u'"
proof -
  let ?n = "bc_n_messages_sent u"
  have n': "bc_n_messages_sent u' = ?n + 1"
    using run by (cases rule: ufifo_urb.Send_cases) (simp_all add: same_urb_def)
  have s: "unat (?n + 1) = Suc (unat ?n)"
    using n(1) by (metis add.commute add_eq_0_iff2 unatSuc)
  then have "?n \<le> ?n + 1" by (simp add: word_le_nat_alt)
  from seqs_below_append [OF n(2) this] have "seqs_below (?n + 1) = seqs_below ?n @ [?n]"
    by (simp add: s)
  with log show ?thesis
    by (simp add: own_logged_def n' ufifo_urb.Send_logger [OF run] own_lines_broadcast)
qed

lemma own_logged_step:
  assumes inv: "urb_inv u \<and> own_all u \<and> fifo_sync u" and log: "own_logged u" and pop: "reads_front after_pop"
    and step: "urb_step ufifo_vt after_pop u u'"
  shows "own_logged u'"
proof -
  have same: "own_logged u'" if "same_protocol u u'"
    by (rule own_logged_frame [OF log]) (use that in \<open>simp_all add: same_protocol_def\<close>)
  from step show ?thesis
  proof (cases rule: urb_step.cases)
    case (step_send msg)
    with log inv show ?thesis by (auto intro: own_logged_send simp: urb_inv_def own_ok_def)
  next
    case (step_notify msg)
    have "bc_n_messages_sent u' = bc_n_messages_sent u"
      using step_notify(1) by (cases rule: ufifo_urb.Notify_cases) (simp_all add: same_urb_def)
    moreover have "\<not> deliver_to_upper_layer u" using inv by (simp add: fifo_sync_def)
    ultimately show ?thesis
      using log ufifo_urb.Notify_logger(1) [OF step_notify(1)] by (auto intro: own_logged_frame)
  next
    case (step_deliver ids)
    show ?thesis
    proof (cases "on u")
      case True
      with step_deliver have "fold_result (URB_deliver_one ufifo_vt after_pop) ids u = Inr u'"
        by (simp add: URB_DeliverPending_def)
      from ufifo_urb.fold_deliver_induct [where P = own_logged, OF this _ log] inv step_deliver pop
      show ?thesis using own_logged_deliver_one by blast
    qed (use step_deliver log in \<open>simp add: URB_DeliverPending_def\<close>)
  qed (use same same_protocol_steps in metis)+
qed

lemma own_logged_started:
  assumes "ufifo_started u"
  shows "own_logged u"
proof -
  from assms obtain l i pls where l: "lg_is_open l" "lg_lines l = []"
    and u: "u = fold URB_Add pls (UFIFO_init l i)"
    by (auto simp: ufifo_started_def)
  have "urb_fresh u" unfolding u by (intro urb_fresh_Adds urb_fresh_UFIFO_init)
  moreover have "mgr_logger u = l"
    by (simp add: u URB_Add_logger) (simp add: UFIFO_init_def URB_init_def Manager_init_def manager.defs urb.defs)
  ultimately show ?thesis
    using l by (simp add: own_logged_def own_lines_def urb_fresh_def seqs_below_def)
qed

interpretation ufifo_log: invariant ufifo_started ufifo_next
  "\<lambda>u. (urb_inv u \<and> own_all u \<and> fifo_sync u) \<and> own_logged u"
proof unfold_locales
  fix u assume "ufifo_started u"
  then show "(urb_inv u \<and> own_all u \<and> fifo_sync u) \<and> own_logged u"
    by (simp add: own_logged_started ufifo_started_inv)
next
  fix u u' assume "(urb_inv u \<and> own_all u \<and> fifo_sync u) \<and> own_logged u" and "ufifo_next u u'"
  then show "(urb_inv u' \<and> own_all u' \<and> fifo_sync u') \<and> own_logged u'"
    using ufifo_runs.inv_step own_logged_step unfolding ufifo_next_def by metis
qed

text \<open>A sequence number has been logged exactly when it has been handed out.\<close>

lemma broadcast_logged_iff:
  assumes "reachable ufifo_started ufifo_next u"
  shows "broadcast_line s \<in> set (lg_lines (mgr_logger u)) \<longleftrightarrow> 0 < s \<and> s < bc_n_messages_sent u"
proof -
  have "broadcast_line s \<in> set (lg_lines (mgr_logger u)) \<longleftrightarrow> broadcast_line s \<in> set (own_lines (mgr_logger u))"
    by (simp add: own_lines_def)
  also have "\<dots> \<longleftrightarrow> 0 < s \<and> s < bc_n_messages_sent u"
    using ufifo_log.reachable_inv [OF assms] by (auto simp: own_logged_def)
  finally show ?thesis .
qed

end
