(* ===== verification/Distributed_System.thy ===== *)
theory Distributed_System
  imports Process_Drivers Broadcast_Log
begin

text \<open>
  The whole system: processes that run the FIFO driver and exchange datagrams over a network
  that may lose, repeat, delay and reorder them. A datagram that has been sent stays in the
  set \<open>net\<close>; losing it is not receiving it, repeating it is receiving it again. A process that
  crashes takes no further steps.
\<close>

section \<open>What an operation does to the view of a process\<close>

text \<open>The parts of a manager that never change after the set-up.\<close>

definition wires :: "'a urb_scheme \<Rightarrow> u32 \<times> u32 \<times> (u32 \<rightharpoonup> u32 \<times> machine \<times> manager_ptr list)" where
  "wires m = (bc_id m, n_processes m,
     \<lambda>j. map_option (\<lambda>pl. (pl_target_id pl, pl_target_addr pl, managers pl)) (perfect_links m j))"

text \<open>The payloads that the links of a process retransmit.\<close>

definition queued :: "'a manager_scheme \<Rightarrow> bytes set" where
  "queued m = {bs. \<exists>j pl s. perfect_links m j = Some pl \<and> messages_to_send pl s = Some bs}"

text \<open>
  A local step: the wiring is kept, the known messages grow by some of \<open>E\<close>, and whatever is
  newly queued is the image of a known message.
\<close>

definition local_step :: "msg_id set \<Rightarrow> 'a urb_scheme \<Rightarrow> 'a urb_scheme \<Rightarrow> bool" where
  "local_step E m m' \<longleftrightarrow> wires m' = wires m \<and> known m \<subseteq> known m' \<and> known m' \<subseteq> known m \<union> E \<and>
     (\<forall>bs \<in> queued m'. bs \<in> queued m \<or> (\<exists>msg. bs = Broadcast_Serialize msg \<and> bm_id msg \<in> known m'))"

lemma wires_bc_id: "wires m' = wires m \<Longrightarrow> bc_id m' = bc_id m"
  by (simp add: wires_def)

lemma wires_n_processes: "wires m' = wires m \<Longrightarrow> n_processes m' = n_processes m"
  by (simp add: wires_def)

lemma local_step_refl [simp]: "local_step E m m"
  by (simp add: local_step_def)

lemma local_step_trans:
  assumes "local_step E a b" and "local_step E b c"
  shows "local_step E a c"
  using assms unfolding local_step_def by (metis (no_types, lifting) Un_assoc Un_mono order.trans order.refl
      subset_iff sup.absorb_iff2 sup.cobounded2 sup.idem sup_commute)

lemma queued_send_on_all: "queued (send_on_all bs m) \<subseteq> insert bs (queued m)"
  by (auto simp: queued_def PL_Send_messages split: if_splits) blast

lemma queued_links_eq: "perfect_links m' = perfect_links m \<Longrightarrow> queued m' = queued m"
  by (simp add: queued_def)

lemma wires_send_on_all [simp]: "wires (send_on_all bs m) = wires m"
  by (simp add: wires_def option.map_comp comp_def PL_Send_def Let_def)

lemma known_send_on_all [simp]: "known (send_on_all bs m) = known m"
  by (simp add: known_def)

lemma same_urb_view:
  assumes "same_urb m m'"
  shows "wires m' = wires m" "known m' = known m" "queued m' = queued m" "acks_of m' = acks_of m"
  using assms by (auto simp: same_urb_def wires_def known_def queued_def acks_of_def)

lemma local_step_send:
  assumes "bm_id msg \<in> known v" and "wires v = wires m" and "known m \<subseteq> known v"
    and "known v \<subseteq> known m \<union> E" and "queued v = queued m"
    and "same_urb (send_on_all (Broadcast_Serialize msg) v) m'"
  shows "local_step E m m'"
  using assms same_urb_view [OF assms(6)] queued_send_on_all [of "Broadcast_Serialize msg" v]
  by (auto simp: local_step_def)

lemma local_step_quiet:
  assumes "wires m' = wires m" and "known m' = known m" and "queued m' \<subseteq> queued m"
  shows "local_step E m m'"
  using assms by (auto simp: local_step_def)

context urb_class
begin

lemma Send_local:
  assumes "URB_Send vt msg u = Inr u'"
  shows "local_step {i. id_author i = bc_id u} u u'" "acks_of u' = acks_of u" "delivered u' = delivered u"
proof -
  show "delivered u' = delivered u" by (rule Send_keeps [OF assms])
  show "acks_of u' = acks_of u"
    using assms by (cases rule: Send_cases; simp add: same_urb_def acks_of_def fun_eq_iff)
  from assms show "local_step {i. id_author i = bc_id u} u u'"
  proof (cases rule: Send_cases)
    case (queue m)
    from same_urb_view [OF queue(3)] show ?thesis
      by (intro local_step_quiet) (auto simp: wires_def known_def queued_def)
  next
    case (send m)
    show ?thesis
      by (rule local_step_send [OF _ _ _ _ _ send(4)])
        (auto simp: known_def wires_def queued_def send(2))
  qed
qed

lemma Notify_local:
  assumes "vt_NotifyInternal vt msg u = Inr u'"
  shows "local_step {bm_id msg} u u'"
    "acks_of u' i \<subseteq> acks_of u i \<union> (if i = bm_id msg then {bm_sender msg} else {})"
    "delivered u' = delivered u"
proof -
  show "delivered u' = delivered u" by (rule Notify_keeps [OF assms])
  show "acks_of u' i \<subseteq> acks_of u i \<union> (if i = bm_id msg then {bm_sender msg} else {})"
    using assms
  proof (cases rule: Notify_cases)
    case seen
    with same_urb_view(4) [OF seen(2)] show ?thesis by simp
  next
    case ack
    with same_urb_view(4) [OF ack(3)] show ?thesis by simp
  next
    case relay
    with same_urb_view(4) [OF relay(4)] show ?thesis by (auto simp: acks_of_def)
  qed
  from assms show "local_step {bm_id msg} u u'"
  proof (cases rule: Notify_cases)
    case seen
    from same_urb_view [OF seen(2)] show ?thesis by (simp add: local_step_quiet)
  next
    case ack
    from same_urb_view [OF ack(3)] show ?thesis
      by (intro local_step_quiet) (auto simp: wires_def known_def queued_def)
  next
    case relay
    show ?thesis
      by (rule local_step_send [OF _ _ _ _ _ relay(4)])
        (auto simp: known_def wires_def queued_def)
  qed
qed

lemma move_window_local:
  assumes "URB_move_window vt after_pop i u = Inr u'" and "reads_front after_pop"
    and "\<forall>m \<in> set (own_pending_for_broadcast u). id_author (bm_id m) = bc_id u"
  shows "local_step {i. id_author i = bc_id u} u u'"
  using assms(1)
proof (cases rule: move_window_cases)
  case (refill front rest msg)
  with assms(2) have "msg = front" by (auto simp: reads_front_def)
  then have author: "id_author (bm_id msg) = bc_id u" using assms(3) refill(3) by simp
  show ?thesis
    by (rule local_step_send [of msg "u\<lparr>own_pending_for_broadcast := rest,
          pending_for_delivery := insert (bm_id msg) (pending_for_delivery u)\<rparr>"])
      (use author in \<open>auto simp: refill(6) known_def wires_def queued_def\<close>)
qed (auto intro!: local_step_quiet simp: wires_def known_def queued_def)

lemma deliver_one_local:
  assumes inv: "urb_inv u" and i: "i \<in> pending_for_delivery u" and pop: "reads_front after_pop"
    and run: "URB_deliver_one vt after_pop i u = Inr u'"
  shows "local_step {i. id_author i = bc_id u} u u'" "acks_of u' j \<subseteq> acks_of u j"
proof -
  have mine: "\<forall>m \<in> set (own_pending_for_broadcast u). id_author (bm_id m) = bc_id u"
    using inv by (simp add: urb_inv_def own_ok_def)
  have "local_step {i. id_author i = bc_id u} u u' \<and> acks_of u' j \<subseteq> acks_of u j"
    using run
  proof (cases rule: deliver_one_cases)
    case skip
    then show ?thesis
      by (auto intro!: local_step_quiet simp: wires_def known_def queued_def acks_of_def split: if_splits)
  next
    case (deliver u1)
    let ?v = "u\<lparr>acks := (acks u)(i \<mapsto> acks_of u i), pending_for_delivery := pending_for_delivery u - {i}\<rparr>"
    let ?u2 = "u1\<lparr>delivered := DeliveredSet_Insert i (delivered u1), acks := (acks u1)(i := None)\<rparr>"
    have step: "local_step {i. id_author i = bc_id u} ?v u1"
      using move_window_local [OF deliver(3) pop] mine by simp
    have d: "set_abs (DeliveredSet_Insert i (delivered u)) = insert i (set_abs (delivered u))"
      by (rule delivered_Insert(1) [OF _ i deliver(2)]) (use inv in \<open>simp add: urb_inv_def\<close>)
    note keeps = move_window_keeps [OF deliver(3)]
    have same: "same_urb ?u2 u'" unfolding deliver(4) by (rule vt_deliver)
    note view = same_urb_view [OF same]
    have k: "known u' = insert i (known u1)" "known ?v = known u - {i} \<or> known ?v = known u"
      unfolding view(2) using keeps(1) d by (auto simp: known_def)
    have iv: "i \<in> known u" "known ?v \<subseteq> known u" "known u \<subseteq> insert i (known ?v)"
      using i by (auto simp: known_def)
    have w: "wires u' = wires u1" "queued u' = queued u1" "wires ?v = wires u" "queued ?v = queued u"
      unfolding view(1,3) by (simp_all add: wires_def queued_def)
    have "local_step {i. id_author i = bc_id u} u u'"
      using step iv unfolding local_step_def k(1) w by blast
    moreover have "acks_of u' j \<subseteq> acks_of u j"
      unfolding view(4) using keeps(2) by (auto simp: acks_of_def split: if_splits)
    ultimately show ?thesis by simp
  qed
  then show "local_step {i. id_author i = bc_id u} u u'" "acks_of u' j \<subseteq> acks_of u j" by simp_all
qed

lemma fold_deliver_local:
  assumes "fold_result (URB_deliver_one vt after_pop) ids u = Inr u'"
    and "urb_inv u" and "distinct ids" and "set ids \<subseteq> pending_for_delivery u" and "reads_front after_pop"
  shows "local_step {i. id_author i = bc_id u} u u' \<and> (\<forall>j. acks_of u' j \<subseteq> acks_of u j) \<and>
    set_abs (delivered u') \<subseteq> set_abs (delivered u) \<union> {i \<in> set ids. majority_seen u i}"
  using assms(1-4)
proof (induction ids arbitrary: u)
  case Nil
  then show ?case by simp
next
  case (Cons i ids)
  from Cons.prems(1) obtain u1 where u1: "URB_deliver_one vt after_pop i u = Inr u1"
    and rest: "fold_result (URB_deliver_one vt after_pop) ids u1 = Inr u'" by auto
  have i: "i \<in> pending_for_delivery u" using Cons.prems(4) by simp
  note loc = deliver_one_local [OF Cons.prems(2) i assms(5) u1]
  note eff = deliver_one_effect [OF Cons.prems(2) i u1]
  from Cons.IH [OF rest] deliver_one_inv [OF Cons.prems(2) i assms(5) u1] Cons.prems(3,4)
  have IH: "local_step {i. id_author i = bc_id u1} u1 u'" "\<forall>j. acks_of u' j \<subseteq> acks_of u1 j"
    "set_abs (delivered u') \<subseteq> set_abs (delivered u1) \<union> {i \<in> set ids. majority_seen u1 i}"
    by auto
  have maj: "majority_seen u1 j = majority_seen u j" if "j \<in> set ids" for j
    using eff that Cons.prems(3) by (metis distinct.simps(2))
  have "bc_id u1 = bc_id u" using loc(1) by (intro wires_bc_id) (simp add: local_step_def)
  with IH(1) local_step_trans [OF loc(1)] have "local_step {i. id_author i = bc_id u} u u'" by simp
  moreover have "\<forall>j. acks_of u' j \<subseteq> acks_of u j"
    using IH(2) deliver_one_local(2) [OF Cons.prems(2) i assms(5) u1] by blast
  moreover have "set_abs (delivered u1) \<subseteq> set_abs (delivered u) \<union> {j \<in> {i}. majority_seen u j}"
    using eff by auto
  then have "set_abs (delivered u') \<subseteq> set_abs (delivered u) \<union> {j \<in> set (i # ids). majority_seen u j}"
    using IH(3) maj by auto
  ultimately show ?case by blast
qed

end

section \<open>The system\<close>

text \<open>
  \<open>net\<close> holds the datagrams that have been sent, with source and destination address; \<open>procs\<close>
  gives the state of the process with a given identifier.
\<close>

record sys =
  procs :: "u32 \<Rightarrow> ufifo app"
  net :: "(machine \<times> machine \<times> bytes) set"

definition set_proc :: "u32 \<Rightarrow> ufifo app \<Rightarrow> sys \<Rightarrow> sys" where
  "set_proc q a s = s\<lparr>procs := (procs s)(q := a)\<rparr>"

definition emit :: "machine \<Rightarrow> dgram list \<Rightarrow> sys \<Rightarrow> sys" where
  "emit src out s = s\<lparr>net := net s \<union> {(src, dst, bs) |bs dst. (bs, dst) \<in> set out}\<rparr>"

abbreviation mgr :: "sys \<Rightarrow> u32 \<Rightarrow> ufifo" where
  "mgr s q \<equiv> app_manager (procs s q)"

abbreviation set_mgr :: "u32 \<Rightarrow> ufifo \<Rightarrow> sys \<Rightarrow> sys" where
  "set_mgr q m s \<equiv> set_proc q ((procs s q)\<lparr>app_manager := m\<rparr>) s"

text \<open>The observer that the server calls: the link to a peer, below the FIFO broadcast object.\<close>

definition link_notify :: "time \<Rightarrow> u32 \<Rightarrow> bytes \<Rightarrow> ufifo \<Rightarrow> ufifo result" where
  "link_notify now j bs m = PL_Notify (Broadcast_Notify ufifo_vt) now j bs m"

text \<open>
  All processes read the same hosts table \<open>hs\<close>. In a turn of the acknowledgement thread
  \<open>oa\<close> enumerates the set \<^verbatim>\<open>acks_to_send_\<close> of each link.
\<close>

definition sys_init :: "host list \<Rightarrow> sys \<Rightarrow> bool" where
  "sys_init hs s \<longleftrightarrow> net s = {} \<and>
     (\<forall>q \<in> h_id ` set hs. \<exists>os p n. parsed p \<and> p_hosts p = hs \<and> p_id p = q \<and>
        os_can_open os (p_output_path p) \<and> FIFO_setup os p = Inr (n, procs s q))"

inductive sys_step :: "host list \<Rightarrow> sys \<Rightarrow> sys \<Rightarrow> bool" for hs where
  sys_send: "h \<in> set hs \<Longrightarrow> q = h_id h \<Longrightarrow> URB_Send ufifo_vt msg (mgr s q) = Inr m' \<Longrightarrow>
     bc_n_messages_sent (mgr s q) \<noteq> - 1 \<Longrightarrow> sys_step hs s (set_mgr q m' s)"
| sys_deliver: "h \<in> set hs \<Longrightarrow> q = h_id h \<Longrightarrow> reads_front after_pop \<Longrightarrow> distinct ids \<Longrightarrow>
     set ids = pending_for_delivery (mgr s q) \<Longrightarrow>
     URB_DeliverPending ufifo_vt after_pop ids (mgr s q) = Inr m' \<Longrightarrow> sys_step hs s (set_mgr q m' s)"
| sys_messages: "h \<in> set hs \<Longrightarrow> q = h_id h \<Longrightarrow>
     Manager_SendMessages sendto links ord (mgr s q) = Inr out \<Longrightarrow>
     sys_step hs s (emit (host_addr h) out s)"
| sys_acks: "h \<in> set hs \<Longrightarrow> q = h_id h \<Longrightarrow>
     Manager_SendAcks sendto strong now links oa od (mgr s q) = (out, m') \<Longrightarrow> distinct links \<Longrightarrow>
     (\<And>j pl. perfect_links (mgr s q) j = Some pl \<Longrightarrow> set (oa j) = acks_to_send pl) \<Longrightarrow>
     sys_step hs s (emit (host_addr h) out (set_mgr q m' s))"
| sys_receive: "h \<in> set hs \<Longrightarrow> q = h_id h \<Longrightarrow> (src, host_addr h, bs) \<in> net s \<Longrightarrow>
     UDPServer_Receive (link_notify now) (Some (bs, src)) (app_server (procs s q), mgr s q) = Inr (srv', m') \<Longrightarrow>
     sys_step hs s (set_proc q ((procs s q)\<lparr>app_server := srv', app_manager := m'\<rparr>) s)"

section \<open>Steps of the links\<close>

text \<open>A step of the links below the protocol: nothing else changes and no payload is added.\<close>

definition quiet :: "'a urb_scheme \<Rightarrow> 'a urb_scheme \<Rightarrow> bool" where
  "quiet m m' \<longleftrightarrow> m' = m\<lparr>perfect_links := perfect_links m'\<rparr> \<and> wires m' = wires m \<and> queued m' \<subseteq> queued m"

lemma quiet_refl [simp]: "quiet m m"
  by (simp add: quiet_def)

lemma quiet_trans:
  assumes "quiet a b" and "quiet b c"
  shows "quiet a c"
proof -
  from assms have "c = a\<lparr>perfect_links := perfect_links b\<rparr>\<lparr>perfect_links := perfect_links c\<rparr>"
    unfolding quiet_def by metis
  also have "\<dots> = a\<lparr>perfect_links := perfect_links c\<rparr>" by simp
  finally have "c = a\<lparr>perfect_links := perfect_links c\<rparr>" .
  moreover have "wires c = wires a" "queued c \<subseteq> queued a" using assms unfolding quiet_def by auto
  ultimately show ?thesis unfolding quiet_def by blast
qed

lemma quiet_view:
  assumes "quiet m m'"
  shows "known m' = known m" "acks_of m' = acks_of m" "delivered m' = delivered m" "local_step E m m'"
    "urb_step vt after_pop m m'"
proof -
  from assms have m': "m' = m\<lparr>perfect_links := perfect_links m'\<rparr>" by (simp add: quiet_def)
  show k: "known m' = known m" by (subst m') (simp add: known_def)
  show "acks_of m' = acks_of m" by (subst m') (simp add: acks_of_def fun_eq_iff)
  show "delivered m' = delivered m" by (subst m') simp
  show "local_step E m m'" using assms k by (intro local_step_quiet) (simp_all add: quiet_def)
  show "urb_step vt after_pop m m'" by (subst m') (rule step_links)
qed

lemma quiet_update_link:
  assumes "\<And>pl. pl_target_id (f pl) = pl_target_id pl \<and> pl_target_addr (f pl) = pl_target_addr pl \<and>
      managers (f pl) = managers pl"
    and "\<And>pl. perfect_links m i = Some pl \<Longrightarrow> ran (messages_to_send (f pl)) \<subseteq> ran (messages_to_send pl)"
  shows "quiet m (update_link i f m)"
proof -
  have "queued (update_link i f m) \<subseteq> queued m"
    using assms(2) unfolding queued_def ran_def by (fastforce split: if_splits)
  moreover have "wires (update_link i f m) = wires m"
    using assms(1) by (auto simp: wires_def update_link_def option.map_comp comp_def fun_eq_iff)
  ultimately show ?thesis by (simp add: quiet_def update_link_def)
qed

lemma quiet_SendAcks: "quiet m (snd (Manager_SendAcks sendto strong now links oa od m))"
proof (rule Manager_SendAcks_induct)
  fix m1 i pl assume q: "quiet m m1" and pl: "perfect_links m1 i = Some pl"
  let ?f = "\<lambda>_. snd (PL_SendAcks sendto strong now (oa i) (od i) pl)"
  have "update_link i ?f m1 = update_link i (\<lambda>pl'. if pl' = pl then ?f pl else pl') m1"
    using pl by (simp add: update_link_def)
  moreover have "quiet m1 (update_link i (\<lambda>pl'. if pl' = pl then ?f pl else pl') m1)"
    by (rule quiet_update_link) auto
  ultimately show "quiet m (update_link i ?f m1)" using quiet_trans [OF q] by simp
qed simp

lemma SendAcks_out:
  assumes "(bs, dst) \<in> set (fst (Manager_SendAcks sendto strong now links oa od m))"
  shows "\<exists>a. bs = PL_ack_packet a"
proof -
  let ?f = "\<lambda>i (out, m). case perfect_links m i of None \<Rightarrow> (out, m)
    | Some pl \<Rightarrow> (let r = PL_SendAcks sendto strong now (oa i) (od i) pl
                 in (out @ fst r, update_link i (\<lambda>_. snd r) m))"
  have one: "\<exists>a. bs = PL_ack_packet a" if "(bs, dst) \<in> set (fst (PL_SendAcks sendto strong now ord od pl))"
    for ord od pl
    using that by (auto simp: PL_SendAcks_def try_send_def split: if_splits sum.splits)
  have "(bs, dst) \<in> set (fst (fold ?f links (out, m))) \<Longrightarrow> (bs, dst) \<in> set out \<or> (\<exists>a. bs = PL_ack_packet a)"
    for out m
  proof (induction links arbitrary: out m)
    case (Cons i links)
    show ?case
    proof (cases "perfect_links m i")
      case None
      with Cons show ?thesis by simp
    next
      case (Some pl)
      with Cons.prems Cons.IH [of "out @ fst (PL_SendAcks sendto strong now (oa i) (od i) pl)"] one
      show ?thesis by (fastforce simp: Let_def)
    qed
  qed simp
  from this [of "[]" m] assms show ?thesis by (simp add: Manager_SendAcks_def split: if_splits)
qed

lemma SendMessages_out:
  assumes "Manager_SendMessages sendto links ord m = Inr out" and "(bs, dst) \<in> set out"
  shows "\<exists>pm. bs = PL_Serialize pm \<and> length bs \<le> 14 \<and> pm_payload pm \<in> queued m"
proof -
  have "\<exists>pm. bs = PL_Serialize pm \<and> length bs \<le> 14 \<and> pm_payload pm \<in> queued m"
    if "Manager_send_loop sendto links ord m = Inr out" "(bs, dst) \<in> set out" for out
    using that
  proof (induction links arbitrary: out)
    case (Cons i links)
    show ?case
    proof (cases "perfect_links m i")
      case None
      with Cons show ?thesis by simp
    next
      case (Some pl)
      with Cons.prems(1) obtain out1 out2 where "PL_SendMessages sendto (ord i) pl = Inr out1"
        "Manager_send_loop sendto links ord m = Inr out2" "out = out1 @ out2"
        by auto
      moreover have ?thesis if "(bs, dst) \<in> set out1" "PL_SendMessages sendto (ord i) pl = Inr out1"
      proof -
        from PL_SendMessages_sound [OF that(2,1)] obtain s p where
          p: "messages_to_send pl s = Some p" "bs = PL_Serialize \<lparr>pm_seq = s, pm_payload = p\<rparr>" "length p \<le> 9"
          by auto
        with Some have "p \<in> queued m" by (auto simp: queued_def)
        with p(2,3) show ?thesis by (intro exI [of _ "\<lparr>pm_seq = s, pm_payload = p\<rparr>"]) simp
      qed
      ultimately show ?thesis using Cons by auto
    qed
  qed simp
  with assms show ?thesis by (auto simp: Manager_SendMessages_def split: if_splits)
qed

text \<open>
  Receiving a datagram on the link to \<open>j\<close>: either a step of the links only, or
  \<^verbatim>\<open>NotifyInternal\<close> of the broadcast message it carries, between two such steps.
\<close>

lemma link_notify_cases:
  assumes "link_notify now j bs m = Inr m'" and "perfect_links m j = Some pl"
    and "pl_target_id pl = j" and "managers pl = [This_Manager]"
  obtains (links) "quiet m m'"
  | (notify) pm bm m1 m2 where "PL_Parse bs = Some (Msg pm)" "Broadcast_Parse j (pm_payload pm) = Some bm"
      "quiet m m1" "vt_NotifyInternal ufifo_vt bm m1 = Inr m2" "quiet m2 m'"
proof (cases "PL_Parse bs")
  case None
  with assms(1,2) links show ?thesis by (simp add: link_notify_def PL_Notify_def)
next
  case (Some packet)
  show ?thesis
  proof (cases packet)
    case (Ack a)
    have "m' = update_link j (\<lambda>pl. pl\<lparr>messages_to_send := (messages_to_send pl)(a := None)\<rparr>) m"
      using assms(1,2) Some Ack by (simp add: link_notify_def PL_Notify_def)
    moreover have "quiet m (update_link j (\<lambda>pl. pl\<lparr>messages_to_send := (messages_to_send pl)(a := None)\<rparr>) m)"
      by (rule quiet_update_link) (auto simp: ran_def)
    ultimately show ?thesis using links by simp
  next
    case (Msg pm)
    let ?m1 = "update_link j (\<lambda>pl. pl\<lparr>acks_to_send := insert (pm_seq pm) (acks_to_send pl)\<rparr>) m"
    let ?stamp = "update_link j (\<lambda>pl. pl\<lparr>messages_delivered := (messages_delivered pl)(pm_seq pm \<mapsto> now)\<rparr>)"
    have q: "quiet m ?m1" "quiet m2 (?stamp m2)" for m2 :: ufifo
      by (rule quiet_update_link; simp)+
    from assms Some Msg obtain m2 where m': "m' = ?stamp m2"
      and m2: "m2 = ?m1 \<or> Broadcast_Notify ufifo_vt j pm ?m1 = Inr m2"
      by (auto simp: link_notify_def PL_Notify_def Let_def split: if_splits)
    have last: "quiet m2 m'" unfolding m' by (rule q(2))
    from m2 consider "m2 = ?m1" | bm where "Broadcast_Parse j (pm_payload pm) = Some bm"
        "vt_NotifyInternal ufifo_vt bm ?m1 = Inr m2"
      by (auto simp: Broadcast_Notify_def split: option.splits)
    then show ?thesis
    proof cases
      case 1
      show ?thesis by (rule links [OF quiet_trans [OF q(1) last [unfolded 1]]])
    next
      case 2
      show ?thesis by (rule notify [OF Some [unfolded Msg] 2(1) q(1) 2(2) last])
    qed
  qed
qed

section \<open>The invariant of the system\<close>

definition hosts_ok :: "host list \<Rightarrow> bool" where
  "hosts_ok hs \<longleftrightarrow> distinct (map h_id hs) \<and> distinct (map host_addr hs) \<and> length hs < 2 ^ 32"

abbreviation ids_of :: "host list \<Rightarrow> u32 set" where
  "ids_of hs \<equiv> h_id ` set hs"

definition wired :: "host list \<Rightarrow> u32 \<Rightarrow> ufifo app \<Rightarrow> bool" where
  "wired hs q a \<longleftrightarrow> bc_id (app_manager a) = q \<and> n_processes (app_manager a) = of_nat (length hs) \<and>
     dom (perfect_links (app_manager a)) = ids_of hs - {q} \<and>
     (\<forall>j pl. perfect_links (app_manager a) j = Some pl \<longrightarrow> pl_target_id pl = j \<and> managers pl = [This_Manager]) \<and>
     (\<forall>h \<in> set hs. observers_at (app_server a) (host_addr h) = (if h_id h = q then [] else [h_id h]))"

text \<open>The processes that know a message.\<close>

definition knowers :: "host list \<Rightarrow> sys \<Rightarrow> msg_id \<Rightarrow> u32 set" where
  "knowers hs s i = {j \<in> ids_of hs. i \<in> known (mgr s j)}"

definition proc_ok :: "host list \<Rightarrow> sys \<Rightarrow> u32 \<Rightarrow> ufifo app \<Rightarrow> bool" where
  "proc_ok hs s q a \<longleftrightarrow> wired hs q a \<and> reachable ufifo_started ufifo_next (app_manager a) \<and>
     (\<forall>i \<in> known (app_manager a). id_author i \<in> knowers hs s i) \<and>
     (\<forall>bs \<in> queued (app_manager a). \<forall>k bm. Broadcast_Parse k bs = Some bm \<longrightarrow> bm_id bm \<in> known (app_manager a)) \<and>
     (\<forall>i. acks_of (app_manager a) i \<subseteq> knowers hs s i - {q}) \<and>
     (\<forall>i \<in> set_abs (delivered (app_manager a)). length hs div 2 < card (knowers hs s i))"

definition net_ok :: "host list \<Rightarrow> sys \<Rightarrow> bool" where
  "net_ok hs s \<longleftrightarrow> (\<forall>src dst bs. (src, dst, bs) \<in> net s \<longrightarrow>
     (\<exists>h \<in> set hs. src = host_addr h \<and>
        (\<forall>pm k bm. PL_Parse (take 14 bs) = Some (Msg pm) \<longrightarrow> Broadcast_Parse k (pm_payload pm) = Some bm \<longrightarrow>
           bm_id bm \<in> known (mgr s (h_id h)))))"

definition sys_inv :: "host list \<Rightarrow> sys \<Rightarrow> bool" where
  "sys_inv hs s \<longleftrightarrow> (\<forall>q \<in> ids_of hs. proc_ok hs s q (procs s q)) \<and> net_ok hs s"

lemma wired_wires:
  assumes "wired hs q a" and "wires (app_manager a') = wires (app_manager a)"
    and "\<And>m. observers_at (app_server a') m = observers_at (app_server a) m"
  shows "wired hs q a'"
proof -
  let ?w = "\<lambda>a j. map_option (\<lambda>pl. (pl_target_id pl, pl_target_addr pl, managers pl)) (perfect_links (app_manager a) j)"
  have w: "?w a' j = ?w a j" for j using assms(2) by (simp add: wires_def fun_eq_iff)
  have "dom (perfect_links (app_manager a')) = dom (perfect_links (app_manager a))"
    using w by (metis (no_types, lifting) domIff map_option_is_None subsetI subset_antisym)
  moreover have "pl_target_id pl = j \<and> managers pl = [This_Manager]"
    if "perfect_links (app_manager a') j = Some pl" for j pl
  proof -
    from w [of j] that obtain pl' where "perfect_links (app_manager a) j = Some pl'"
      "pl_target_id pl = pl_target_id pl'" "managers pl = managers pl'"
      by (auto simp: map_option_case split: option.splits)
    with assms(1) show ?thesis by (simp add: wired_def)
  qed
  ultimately show ?thesis
    using assms(1,3) wires_bc_id [OF assms(2)] wires_n_processes [OF assms(2)] by (simp add: wired_def)
qed

text \<open>What a process knows only grows, and with it the sets of knowers.\<close>

lemma knowers_mono:
  assumes "\<And>j. known (mgr s j) \<subseteq> known (mgr s' j)"
  shows "knowers hs s i \<subseteq> knowers hs s' i" "card (knowers hs s i) \<le> card (knowers hs s' i)"
  using assms by (auto simp: knowers_def intro!: card_mono)

lemma proc_ok_mono:
  assumes "proc_ok hs s q a" and "\<And>j. known (mgr s j) \<subseteq> known (mgr s' j)"
  shows "proc_ok hs s' q a"
proof -
  have mono: "knowers hs s i \<subseteq> knowers hs s' i" "card (knowers hs s i) \<le> card (knowers hs s' i)" for i
    using knowers_mono [OF assms(2)] by blast+
  then have "\<forall>i \<in> set_abs (delivered (app_manager a)). length hs div 2 < card (knowers hs s' i)"
    using assms(1) less_le_trans unfolding proc_ok_def by blast
  with assms(1) mono(1) show ?thesis unfolding proc_ok_def by blast
qed

lemma net_ok_mono:
  assumes "net_ok hs s" and "\<And>j. known (mgr s j) \<subseteq> known (mgr s' j)" and "net s' = net s"
  shows "net_ok hs s'"
  unfolding net_ok_def assms(3)
proof (intro allI impI)
  fix src dst bs assume "(src, dst, bs) \<in> net s"
  with assms(1) obtain h where h: "h \<in> set hs" "src = host_addr h"
    "\<And>pm k bm. PL_Parse (take 14 bs) = Some (Msg pm) \<Longrightarrow> Broadcast_Parse k (pm_payload pm) = Some bm \<Longrightarrow>
       bm_id bm \<in> known (mgr s (h_id h))"
    unfolding net_ok_def by blast
  with assms(2) [of "h_id h"]
  show "\<exists>h \<in> set hs. src = host_addr h \<and> (\<forall>pm k bm. PL_Parse (take 14 bs) = Some (Msg pm) \<longrightarrow>
      Broadcast_Parse k (pm_payload pm) = Some bm \<longrightarrow> bm_id bm \<in> known (mgr s' (h_id h)))"
    by (intro bexI [of _ h]) auto
qed

lemma proc_ok_step:
  assumes ok: "proc_ok hs s q a" and q: "q \<in> ids_of hs" and a: "a = procs s q"
    and wires: "wired hs q a'" and reach: "reachable ufifo_started ufifo_next (app_manager a')"
    and step: "local_step E (app_manager a) (app_manager a')"
    and new: "\<forall>i \<in> E. id_author i = q \<or> id_author i \<in> knowers hs s i"
    and acks: "\<forall>i. acks_of (app_manager a') i \<subseteq> acks_of (app_manager a) i \<union> (knowers hs s i - {q})"
    and del: "\<forall>i \<in> set_abs (delivered (app_manager a')). i \<in> set_abs (delivered (app_manager a)) \<or>
       length hs div 2 < card (knowers hs s i)"
  defines "s' \<equiv> set_proc q a' s"
  shows "proc_ok hs s' q a'" "\<And>j. known (mgr s j) \<subseteq> known (mgr s' j)"
proof -
  show grow: "known (mgr s j) \<subseteq> known (mgr s' j)" for j
    using step by (auto simp: s'_def set_proc_def a local_step_def)
  have mono: "knowers hs s i \<subseteq> knowers hs s' i" "card (knowers hs s i) \<le> card (knowers hs s' i)" for i
    using knowers_mono [OF grow] by blast+
  have self: "mgr s' q = app_manager a'" by (simp add: s'_def set_proc_def)
  have "id_author i \<in> knowers hs s' i" if i: "i \<in> known (app_manager a')" for i
  proof (cases "id_author i = q")
    case True
    with i q self show ?thesis by (simp add: knowers_def)
  next
    case False
    with i step new ok have "id_author i \<in> knowers hs s i"
      unfolding local_step_def proc_ok_def by blast
    with mono show ?thesis by blast
  qed
  moreover have "bm_id bm \<in> known (app_manager a')"
    if "bs \<in> queued (app_manager a')" "Broadcast_Parse k bs = Some bm" for bs k bm
  proof -
    from step that(1) consider "bs \<in> queued (app_manager a)"
      | msg where "bs = Broadcast_Serialize msg" "bm_id msg \<in> known (app_manager a')"
      unfolding local_step_def by blast
    then show ?thesis
    proof cases
      case 1
      with ok that(2) have "bm_id bm \<in> known (app_manager a)" unfolding proc_ok_def by metis
      with step show ?thesis unfolding local_step_def by (metis subsetD)
    next
      case 2
      with that(2) show ?thesis by auto
    qed
  qed
  moreover have "acks_of (app_manager a') i \<subseteq> knowers hs s' i - {q}" for i
    using acks ok mono(1) [of i] unfolding proc_ok_def by blast
  moreover have "length hs div 2 < card (knowers hs s' i)" if "i \<in> set_abs (delivered (app_manager a'))" for i
    using del ok that mono(2) [of i] less_le_trans unfolding proc_ok_def by blast
  ultimately show "proc_ok hs s' q a'" using wires reach by (simp add: proc_ok_def)
qed

lemma sys_inv_update:
  assumes inv: "sys_inv hs s" and q: "q \<in> ids_of hs"
    and wires: "wired hs q a'" and reach: "reachable ufifo_started ufifo_next (app_manager a')"
    and step: "local_step E (mgr s q) (app_manager a')"
    and new: "\<forall>i \<in> E. id_author i = q \<or> id_author i \<in> knowers hs s i"
    and acks: "\<forall>i. acks_of (app_manager a') i \<subseteq> acks_of (mgr s q) i \<union> (knowers hs s i - {q})"
    and del: "\<forall>i \<in> set_abs (delivered (app_manager a')). i \<in> set_abs (delivered (mgr s q)) \<or>
       length hs div 2 < card (knowers hs s i)"
  shows "sys_inv hs (set_proc q a' s)"
proof -
  have ok: "proc_ok hs s q (procs s q)" using inv q by (auto simp: sys_inv_def)
  note mine = proc_ok_step [OF ok q refl wires reach step new acks del]
  have "proc_ok hs (set_proc q a' s) j (procs (set_proc q a' s) j)" if "j \<in> ids_of hs" for j
  proof (cases "j = q")
    case True
    with mine(1) show ?thesis by (simp add: set_proc_def)
  next
    case False
    moreover have "proc_ok hs s j (procs s j)" using inv that by (auto simp: sys_inv_def)
    ultimately show ?thesis using proc_ok_mono mine(2) by (simp add: set_proc_def)
  qed
  moreover have "net_ok hs (set_proc q a' s)"
    using inv by (intro net_ok_mono [OF _ mine(2)]) (simp_all add: sys_inv_def set_proc_def)
  ultimately show ?thesis by (simp add: sys_inv_def)
qed

lemma sys_inv_emit:
  assumes "sys_inv hs s" and "h \<in> set hs"
    and "\<And>bs dst pm k bm. (bs, dst) \<in> set out \<Longrightarrow> PL_Parse (take 14 bs) = Some (Msg pm) \<Longrightarrow>
       Broadcast_Parse k (pm_payload pm) = Some bm \<Longrightarrow> bm_id bm \<in> known (mgr s (h_id h))"
  shows "sys_inv hs (emit (host_addr h) out s)"
proof -
  have procs: "procs (emit (host_addr h) out s) = procs s" by (simp add: emit_def)
  then have know: "knowers hs (emit (host_addr h) out s) = knowers hs s" by (simp add: knowers_def fun_eq_iff)
  have "net_ok hs (emit (host_addr h) out s)"
    using assms unfolding net_ok_def procs sys_inv_def by (auto simp: emit_def)
  with assms(1) show ?thesis by (simp add: sys_inv_def proc_ok_def procs know)
qed

text \<open>A message that the sender of a datagram knows is honest for the receiver.\<close>

lemma known_valid:
  assumes "urb_inv m" and "i \<in> known m"
  shows "0 < id_seq i \<and> id_seq i \<noteq> - 1"
proof (cases "i \<in> pending_for_delivery m")
  case True
  with assms(1) show ?thesis by (simp add: urb_inv_def delivery_ok_def)
next
  case False
  with assms obtain ps where ps: "delivered m (id_author i) = Some ps" "id_seq i \<in> peer_abs ps" "peer_ok ps"
    by (auto simp: known_def set_abs_def urb_inv_def delivery_ok_def set_ok_def)
  then show ?thesis using u32_not_max by (auto simp: peer_abs_def peer_ok_def)
qed

lemma reachable_urb_step:
  assumes "reachable ufifo_started ufifo_next m" and "urb_step ufifo_vt after_pop m m'" and "reads_front after_pop"
  shows "reachable ufifo_started ufifo_next m'"
  using assms(1) by (rule reachable_step) (use assms(2,3) in \<open>auto simp: ufifo_next_def\<close>)

lemma reachable_quiet:
  assumes "reachable ufifo_started ufifo_next m" and "quiet m m'"
  shows "reachable ufifo_started ufifo_next m'"
  by (rule reachable_urb_step [OF assms(1) quiet_view(5) [OF assms(2)], of Inr]) (simp add: reads_front_def)

lemma sys_inv_proc:
  assumes "sys_inv hs s" and "q \<in> ids_of hs"
  shows "wired hs q (procs s q)" "reachable ufifo_started ufifo_next (mgr s q)" "urb_inv (mgr s q)"
    "\<And>i. i \<in> known (mgr s q) \<Longrightarrow> id_author i \<in> knowers hs s i"
    "\<And>i. acks_of (mgr s q) i \<subseteq> knowers hs s i - {q}"
    "\<And>i. i \<in> set_abs (delivered (mgr s q)) \<Longrightarrow> length hs div 2 < card (knowers hs s i)"
proof -
  have ok: "proc_ok hs s q (procs s q)" using assms by (auto simp: sys_inv_def)
  then show "wired hs q (procs s q)" and reach: "reachable ufifo_started ufifo_next (mgr s q)"
    "\<And>i. i \<in> known (mgr s q) \<Longrightarrow> id_author i \<in> knowers hs s i"
    "\<And>i. acks_of (mgr s q) i \<subseteq> knowers hs s i - {q}"
    "\<And>i. i \<in> set_abs (delivered (mgr s q)) \<Longrightarrow> length hs div 2 < card (knowers hs s i)"
    unfolding proc_ok_def by blast+
  from ufifo_runs.reachable_inv [OF reach(1)] show "urb_inv (mgr s q)" by simp
qed

lemma sys_inv_quiet:
  assumes inv: "sys_inv hs s" and q: "q \<in> ids_of hs" and quiet: "quiet (mgr s q) (app_manager a')"
    and srv: "\<And>m. observers_at (app_server a') m = observers_at (app_server (procs s q)) m"
  shows "sys_inv hs (set_proc q a' s)"
proof (rule sys_inv_update [OF inv q, where E = "{}"])
  show "wired hs q a'"
    by (rule wired_wires [OF sys_inv_proc(1) [OF inv q] _ srv]) (use quiet in \<open>simp add: quiet_def\<close>)
  show "reachable ufifo_started ufifo_next (app_manager a')"
    by (rule reachable_quiet [OF sys_inv_proc(2) [OF inv q] quiet])
qed (use quiet_view [OF quiet] in auto)

lemma sys_inv_send:
  assumes inv: "sys_inv hs s" and q: "q \<in> ids_of hs" and run: "URB_Send ufifo_vt msg (mgr s q) = Inr m'"
    and n: "bc_n_messages_sent (mgr s q) \<noteq> - 1"
  shows "sys_inv hs (set_mgr q m' s)"
proof (rule sys_inv_update [OF inv q, where E = "{i. id_author i = q}"])
  note loc = ufifo_urb.Send_local [OF run]
  have id: "bc_id (mgr s q) = q" using sys_inv_proc(1) [OF inv q] by (simp add: wired_def)
  show "wired hs q ((procs s q)\<lparr>app_manager := m'\<rparr>)"
    by (rule wired_wires [OF sys_inv_proc(1) [OF inv q]]) (use loc(1) in \<open>simp_all add: local_step_def\<close>)
  show "reachable ufifo_started ufifo_next (app_manager ((procs s q)\<lparr>app_manager := m'\<rparr>))"
    using reachable_urb_step [OF sys_inv_proc(2) [OF inv q] step_send [OF run n], of Inr]
    by (simp add: reads_front_def)
  show "local_step {i. id_author i = q} (mgr s q) (app_manager ((procs s q)\<lparr>app_manager := m'\<rparr>))"
    using loc(1) id by simp
qed (use ufifo_urb.Send_local(2,3) [OF run] in auto)

lemma majority_knows:
  assumes inv: "sys_inv hs s" and q: "q \<in> ids_of hs" and ok: "hosts_ok hs"
    and i: "i \<in> known (mgr s q)" and maj: "majority_seen (mgr s q) i"
  shows "length hs div 2 < card (knowers hs s i)"
proof -
  have "unat (n_processes (mgr s q)) = length hs"
    using sys_inv_proc(1) [OF inv q] ok by (simp add: wired_def hosts_ok_def unat_of_nat)
  moreover have "insert q (acks_of (mgr s q) i) \<subseteq> knowers hs s i"
    using sys_inv_proc(5) [OF inv q, of i] i q by (auto simp: knowers_def)
  moreover have "q \<notin> acks_of (mgr s q) i" using sys_inv_proc(5) [OF inv q, of i] by auto
  ultimately show ?thesis
    using maj card_mono [of "knowers hs s i" "insert q (acks_of (mgr s q) i)"] by (simp add: knowers_def)
qed

lemma sys_inv_deliver:
  assumes inv: "sys_inv hs s" and q: "q \<in> ids_of hs" and ok: "hosts_ok hs" and pop: "reads_front after_pop"
    and ids: "distinct ids" "set ids = pending_for_delivery (mgr s q)"
    and run: "URB_DeliverPending ufifo_vt after_pop ids (mgr s q) = Inr m'"
  shows "sys_inv hs (set_mgr q m' s)"
proof (cases "on (mgr s q)")
  case False
  with run have "m' = mgr s q" by (simp add: URB_DeliverPending_def)
  then show ?thesis using sys_inv_quiet [OF inv q, of "(procs s q)\<lparr>app_manager := m'\<rparr>"] by simp
next
  case True
  with run have f: "fold_result (URB_deliver_one ufifo_vt after_pop) ids (mgr s q) = Inr m'"
    by (simp add: URB_DeliverPending_def)
  have loc: "local_step {i. id_author i = bc_id (mgr s q)} (mgr s q) m'" "\<forall>j. acks_of m' j \<subseteq> acks_of (mgr s q) j"
    "set_abs (delivered m') \<subseteq> set_abs (delivered (mgr s q)) \<union> {i \<in> set ids. majority_seen (mgr s q) i}"
    using ufifo_urb.fold_deliver_local [OF f sys_inv_proc(3) [OF inv q] ids(1) _ pop] ids(2) by simp_all
  have id: "bc_id (mgr s q) = q" using sys_inv_proc(1) [OF inv q] by (simp add: wired_def)
  show ?thesis
  proof (rule sys_inv_update [OF inv q, where E = "{i. id_author i = q}"])
    show "wired hs q ((procs s q)\<lparr>app_manager := m'\<rparr>)"
      by (rule wired_wires [OF sys_inv_proc(1) [OF inv q]]) (use loc(1) in \<open>simp_all add: local_step_def\<close>)
    show "reachable ufifo_started ufifo_next (app_manager ((procs s q)\<lparr>app_manager := m'\<rparr>))"
      using reachable_urb_step [OF sys_inv_proc(2) [OF inv q] step_deliver [OF run ids] pop] by simp
    show "local_step {i. id_author i = q} (mgr s q) (app_manager ((procs s q)\<lparr>app_manager := m'\<rparr>))"
      using loc(1) id by simp
    have ids_known: "set ids \<subseteq> known (mgr s q)" using ids(2) by (auto simp: known_def)
    show "\<forall>i \<in> set_abs (delivered (app_manager ((procs s q)\<lparr>app_manager := m'\<rparr>))).
        i \<in> set_abs (delivered (mgr s q)) \<or> length hs div 2 < card (knowers hs s i)"
      using loc(3) ids_known majority_knows [OF inv q ok] by auto
  qed (use loc(2) in auto)
qed

text \<open>A message that some process knows is honest for every other process.\<close>

lemma known_honest:
  assumes inv: "sys_inv hs s" and q: "q \<in> ids_of hs" and j: "j \<in> ids_of hs"
    and bm: "bm_id bm \<in> known (mgr s j)" and m: "quiet (mgr s q) m"
  shows "honest m bm"
proof -
  have id: "bc_id m = q"
    using wires_bc_id [of m "mgr s q"] m sys_inv_proc(1) [OF inv q] by (simp add: quiet_def wired_def)
  have "bm_id bm \<in> known (mgr s q)" if "id_author (bm_id bm) = q"
    using sys_inv_proc(4) [OF inv j bm] that by (simp add: knowers_def)
  with known_valid [OF sys_inv_proc(3) [OF inv j] bm] show ?thesis
    unfolding honest_def id quiet_view(1) [OF m] by simp
qed

lemma sys_inv_notify:
  assumes inv: "sys_inv hs s" and q: "q \<in> ids_of hs" and j: "j \<in> ids_of hs" "j \<noteq> q"
    and bm: "bm_id bm \<in> known (mgr s j)" "bm_sender bm = j"
    and run: "quiet (mgr s q) m1" "vt_NotifyInternal ufifo_vt bm m1 = Inr m2" "quiet m2 m'"
    and a': "app_manager a' = m'"
      "\<And>m. observers_at (app_server a') m = observers_at (app_server (procs s q)) m"
  shows "sys_inv hs (set_proc q a' s)"
proof (rule sys_inv_update [OF inv q, where E = "{bm_id bm}"])
  note loc = ufifo_urb.Notify_local [OF run(2)]
  note v1 = quiet_view [OF run(1)] and v2 = quiet_view [OF run(3)]
  show step: "local_step {bm_id bm} (mgr s q) (app_manager a')"
    unfolding a'(1) using v1(4) loc(1) v2(4) local_step_trans by blast
  show "wired hs q a'"
    by (rule wired_wires [OF sys_inv_proc(1) [OF inv q] _ a'(2)]) (use step in \<open>simp add: local_step_def\<close>)
  have "reachable ufifo_started ufifo_next m2"
    by (rule reachable_urb_step [OF reachable_quiet [OF sys_inv_proc(2) [OF inv q] run(1)]
          step_notify [OF run(2) known_honest [OF inv q j(1) bm(1) run(1)]], of Inr])
      (simp add: reads_front_def)
  then show "reachable ufifo_started ufifo_next (app_manager a')"
    unfolding a'(1) by (rule reachable_quiet [OF _ run(3)])
  show "\<forall>i \<in> {bm_id bm}. id_author i = q \<or> id_author i \<in> knowers hs s i"
    using sys_inv_proc(4) [OF inv j(1) bm(1)] by simp
  have "j \<in> knowers hs s (bm_id bm) - {q}" using j bm(1) by (simp add: knowers_def)
  then show "\<forall>i. acks_of (app_manager a') i \<subseteq> acks_of (mgr s q) i \<union> (knowers hs s i - {q})"
    using loc(2) unfolding a'(1) v2(2) v1(2) bm(2) by (fastforce split: if_splits)
  show "\<forall>i \<in> set_abs (delivered (app_manager a')). i \<in> set_abs (delivered (mgr s q)) \<or>
      length hs div 2 < card (knowers hs s i)"
    unfolding a'(1) v2(3) loc(3) v1(3) by blast
qed

text \<open>A datagram is dropped or handed to the link to the process that sent it.\<close>

lemma receive_cases:
  assumes inv: "sys_inv hs s" and h: "h \<in> set hs" and dg: "(src, dst, bs) \<in> net s"
    and run: "UDPServer_Receive (link_notify now) (Some (bs, src)) (app_server (procs s (h_id h)), mgr s (h_id h)) =
       Inr (srv', m')"
  obtains (skip) "m' = mgr s (h_id h)"
  | (link) h' pl where "h' \<in> set hs" "src = host_addr h'" "h_id h' \<noteq> h_id h"
      "link_notify now (h_id h') (take 14 bs) (mgr s (h_id h)) = Inr m'"
      "perfect_links (mgr s (h_id h)) (h_id h') = Some pl" "pl_target_id pl = h_id h'" "managers pl = [This_Manager]"
      "\<And>pm k bm. PL_Parse (take 14 bs) = Some (Msg pm) \<Longrightarrow> Broadcast_Parse k (pm_payload pm) = Some bm \<Longrightarrow>
        bm_id bm \<in> known (mgr s (h_id h'))"
proof -
  let ?srv = "app_server (procs s (h_id h))"
  have q: "h_id h \<in> ids_of hs" using h by simp
  from inv dg obtain h' where h': "h' \<in> set hs" "src = host_addr h'"
    and known: "\<And>pm k bm. PL_Parse (take 14 bs) = Some (Msg pm) \<Longrightarrow> Broadcast_Parse k (pm_payload pm) = Some bm
        \<Longrightarrow> bm_id bm \<in> known (mgr s (h_id h'))"
    unfolding sys_inv_def net_ok_def by metis
  have obs: "observers_at ?srv src = (if h_id h' = h_id h then [] else [h_id h'])"
    using sys_inv_proc(1) [OF inv q] h' by (simp add: wired_def)
  have "m' = mgr s (h_id h) \<or>
      fold_result (\<lambda>obs. link_notify now obs (take 14 bs)) (observers_at ?srv src) (mgr s (h_id h)) = Inr m'"
    using run by (auto simp: UDPServer_Receive_def Let_def UDP_SERVER_MAX_MSG_SIZE_def NotifyAll_eq split: if_splits)
  then consider "m' = mgr s (h_id h)"
    | "h_id h' \<noteq> h_id h" "link_notify now (h_id h') (take 14 bs) (mgr s (h_id h)) = Inr m'"
    using obs by (auto split: if_splits)
  then show ?thesis
  proof cases
    case 1
    then show ?thesis by (rule skip)
  next
    case 2
    have "h_id h' \<in> ids_of hs - {h_id h}" using h'(1) 2(1) by simp
    then obtain pl where "perfect_links (mgr s (h_id h)) (h_id h') = Some pl"
      "pl_target_id pl = h_id h'" "managers pl = [This_Manager]"
      using sys_inv_proc(1) [OF inv q] unfolding wired_def by blast
    then show ?thesis by (rule link [OF h' 2]) (rule known)
  qed
qed

lemma receive_routes:
  assumes "UDPServer_Receive notify d (srv, m) = Inr (srv', m')"
  shows "observers_at srv' a = observers_at srv a"
proof (cases "d = None \<or> \<not> srv_on srv")
  case True
  with assms show ?thesis by (auto simp: UDPServer_Receive_def split: option.splits if_splits)
next
  case False
  with assms show ?thesis
    using NotifyAll_routing by (auto simp: UDPServer_Receive_def Let_def split: if_splits)
qed

lemma sys_inv_receive:
  assumes inv: "sys_inv hs s" and h: "h \<in> set hs" and dg: "(src, dst, bs) \<in> net s"
    and run: "UDPServer_Receive (link_notify now) (Some (bs, src)) (app_server (procs s (h_id h)), mgr s (h_id h)) =
       Inr (srv', m')"
  shows "sys_inv hs (set_proc (h_id h) ((procs s (h_id h))\<lparr>app_server := srv', app_manager := m'\<rparr>) s)"
    (is "sys_inv hs (set_proc ?q ?a s)")
proof -
  have q: "?q \<in> ids_of hs" using h by simp
  have routes: "observers_at (app_server ?a) a = observers_at (app_server (procs s ?q)) a" for a
    using receive_routes [OF run] by simp
  from inv h dg run show ?thesis
  proof (cases rule: receive_cases)
    case skip
    then show ?thesis by (intro sys_inv_quiet [OF inv q _ routes]) simp
  next
    case (link h' pl)
    have j: "h_id h' \<in> ids_of hs" using link(1) by simp
    from link(4,5,6,7) show ?thesis
    proof (cases rule: link_notify_cases)
      case links
      then show ?thesis by (intro sys_inv_quiet [OF inv q _ routes]) simp
    next
      case (notify pm bm m1 m2)
      show ?thesis
        by (rule sys_inv_notify [OF inv q j link(3) link(8) [OF notify(1,2)]
              Broadcast_Serialize_Parse(2) [OF notify(2)] notify(3,4,5) _ routes]) simp
    qed
  qed
qed

lemma sys_step_inv:
  assumes inv: "sys_inv hs s" and ok: "hosts_ok hs" and step: "sys_step hs s s'"
  shows "sys_inv hs s'"
  using step
proof cases
  case (sys_send h q msg m')
  with inv show ?thesis by (auto intro: sys_inv_send)
next
  case (sys_deliver h q after_pop ids m')
  with inv ok show ?thesis by (auto intro: sys_inv_deliver)
next
  case (sys_messages h q sendto links ord out)
  have q: "proc_ok hs s (h_id h) (procs s (h_id h))" using inv sys_messages(2) by (auto simp: sys_inv_def)
  show ?thesis
    unfolding sys_messages(1)
  proof (rule sys_inv_emit [OF inv sys_messages(2)])
    fix bs dst pm k bm
    assume d: "(bs, dst) \<in> set out" "PL_Parse (take 14 bs) = Some (Msg pm)" "Broadcast_Parse k (pm_payload pm) = Some bm"
    from SendMessages_out [OF sys_messages(4) d(1)] d(2) have "pm_payload pm \<in> queued (mgr s q)" by auto
    with q d(3) sys_messages(3) show "bm_id bm \<in> known (mgr s (h_id h))" unfolding proc_ok_def by metis
  qed
next
  case (sys_acks h q sendto strong now links oa od out m')
  have m': "m' = snd (Manager_SendAcks sendto strong now links oa od (mgr s q))"
    and out: "out = fst (Manager_SendAcks sendto strong now links oa od (mgr s q))"
    using sys_acks(4) by simp_all
  have "sys_inv hs (set_mgr q m' s)"
    by (rule sys_inv_quiet [OF inv]) (use sys_acks(2,3) quiet_SendAcks m' in auto)
  then show ?thesis
    unfolding sys_acks(1)
  proof (rule sys_inv_emit [OF _ sys_acks(2)])
    fix bs dst pm k bm
    assume d: "(bs, dst) \<in> set out" "PL_Parse (take 14 bs) = Some (Msg pm)"
    from SendAcks_out [OF d(1) [unfolded out]] obtain a where "bs = PL_ack_packet a" by blast
    moreover have "take 14 (PL_ack_packet a) = PL_ack_packet a" by (simp add: PL_ack_packet_def)
    ultimately show "bm_id bm \<in> known (mgr (set_mgr q m' s) (h_id h))" using d(2) by simp
  qed
next
  case (sys_receive h q src bs now srv' m')
  with inv ok show ?thesis by (auto intro: sys_inv_receive)
qed

section \<open>Initial states\<close>

lemma filter_key_single:
  "distinct (map f xs) \<Longrightarrow> h \<in> set xs \<Longrightarrow> filter (\<lambda>x. P x \<and> f x = f h) xs = (if P h then [h] else [])"
  by (induction xs) (auto simp: filter_empty_conv dest: image_eqI [of "f h" f, OF sym])

lemma FIFO_setup_bc_id:
  assumes "FIFO_setup os p = Inr (n, a)" and "parsed p"
  shows "bc_id (app_manager a) = p_id p"
proof -
  have "bc_id (fold URB_Add pls u) = bc_id u" for pls and u :: ufifo
    by (induction pls arbitrary: u) (simp_all add: URB_Add_def Let_def)
  then show ?thesis
    using assms by (auto simp: FIFO_setup_cases fifo_manager_def split: sum.splits if_splits)
qed

lemma setup_wired:
  assumes built: "FIFO_setup os p = Inr (n, a)" and p: "parsed p" "p_hosts p = hs" "p_id p = q"
    and q: "q \<in> ids_of hs" and ok: "hosts_ok hs"
  shows "wired hs q a" "queued (app_manager a) = {}"
proof -
  note w = FIFO_setup_wiring [OF built p(1)]
  have links: "\<forall>h \<in> set hs. h_id h \<noteq> q \<longrightarrow>
      perfect_links (app_manager a) (h_id h) = Some (PL_Subscribe This_Manager (link_to q h))"
    and dom: "dom (perfect_links (app_manager a)) = ids_of hs - {q}"
    and n: "n_processes (app_manager a) = of_nat (length hs)"
    and obs: "\<And>addr. observers_at (app_server a) addr =
      map h_id (filter (\<lambda>h. h_id h \<noteq> q \<and> host_addr h = addr) hs)"
    using w ok q p by (simp_all add: hosts_ok_def)
  have link: "pl_target_id pl = j \<and> managers pl = [This_Manager] \<and> messages_to_send pl = Map.empty"
    if pl: "perfect_links (app_manager a) j = Some pl" for j pl
  proof -
    from pl have "j \<in> ids_of hs - {q}" unfolding dom [symmetric] by (rule domI)
    then obtain h where h: "h \<in> set hs" "h_id h = j" "h_id h \<noteq> q" by blast
    with links pl have "pl = PL_Subscribe This_Manager (link_to q h)" by force
    with h show ?thesis by (simp add: PL_Subscribe_def link_to_def)
  qed
  then have "\<forall>j pl. perfect_links (app_manager a) j = Some pl \<longrightarrow> pl_target_id pl = j \<and> managers pl = [This_Manager]"
    by blast
  moreover have "\<forall>h \<in> set hs. observers_at (app_server a) (host_addr h) = (if h_id h = q then [] else [h_id h])"
    using ok filter_key_single [of host_addr hs _ "\<lambda>h. h_id h \<noteq> q"] by (simp add: obs hosts_ok_def)
  ultimately show "wired hs q a"
    using FIFO_setup_bc_id [OF built p(1)] p(3) n dom by (simp add: wired_def)
  show "queued (app_manager a) = {}"
    using link by (fastforce simp: queued_def)
qed

lemma sys_init_inv:
  assumes init: "sys_init hs s" and ok: "hosts_ok hs"
  shows "sys_inv hs s"
proof -
  have "proc_ok hs s q (procs s q)" if q: "q \<in> ids_of hs" for q
  proof -
    from init q obtain os p n where p: "parsed p" "p_hosts p = hs" "p_id p = q" "os_can_open os (p_output_path p)"
      and built: "FIFO_setup os p = Inr (n, procs s q)"
      unfolding sys_init_def by blast
    note w = setup_wired [OF built p(1-3) q ok] and run = fifo_manager_running [OF p(4) built p(1)]
    have "known (mgr s q) = {}" "\<And>i. acks_of (mgr s q) i = {}" "set_abs (delivered (mgr s q)) = {}"
      using run(2) dset.abs_emp by (auto simp: urb_fresh_def known_def acks_of_def)
    with w run(1) show ?thesis by (simp add: proc_ok_def)
  qed
  moreover have "net_ok hs s" using init by (simp add: net_ok_def sys_init_def)
  ultimately show ?thesis by (simp add: sys_inv_def)
qed

lemma reachable_sys_inv:
  assumes "reachable (sys_init hs) (sys_step hs) s" and "hosts_ok hs"
  shows "sys_inv hs s"
  using assms(1)
  by (induction rule: reachable.induct) (auto intro: sys_init_inv sys_step_inv assms(2))

end
