(* ===== verification/Link_Moves.thy ===== *)
theory Link_Moves
  imports Distributed_System
begin

text \<open>
  What a step of a process does to its links, exactly: which messages it queues on every
  link, under which numbers, and which messages it records as received. This is the ground
  for the agreement theorem of the system.
\<close>

section \<open>Moves\<close>

text \<open>Process \<open>j\<close> is counted for message \<open>i\<close>: the message is delivered or \<open>j\<close> has echoed it.\<close>

definition heard :: "'a urb_scheme \<Rightarrow> u32 \<Rightarrow> msg_id \<Rightarrow> bool" where
  "heard m j i \<longleftrightarrow> i \<in> set_abs (delivered m) \<or> j \<in> acks_of m i"

text \<open>The sending side of a link, and \<^verbatim>\<open>Send\<close> on it.\<close>

definition out_side :: "perfect_link \<Rightarrow> u32 \<times> (u32 \<rightharpoonup> bytes)" where
  "out_side pl = (pl_n_messages_sent pl, messages_to_send pl)"

definition enqueue :: "bytes \<Rightarrow> u32 \<times> (u32 \<rightharpoonup> bytes) \<Rightarrow> u32 \<times> (u32 \<rightharpoonup> bytes)" where
  "enqueue bs q = (fst q + 1, if snd q (fst q) = None then (snd q)(fst q \<mapsto> bs) else snd q)"

text \<open>The receiving side grows at most by the numbers in \<open>T\<close>.\<close>

definition in_grows :: "u32 set \<Rightarrow> perfect_link \<Rightarrow> perfect_link \<Rightarrow> bool" where
  "in_grows T pl pl' \<longleftrightarrow> acks_to_send pl' \<subseteq> acks_to_send pl \<union> T \<and>
     dom (messages_delivered pl') \<subseteq> dom (messages_delivered pl) \<union> T"

definition link_moves :: "bcast_message list \<Rightarrow> u32 set \<Rightarrow> perfect_link \<Rightarrow> perfect_link \<Rightarrow> bool" where
  "link_moves ms T pl pl' \<longleftrightarrow>
     out_side pl' = fold enqueue (map Broadcast_Serialize ms) (out_side pl) \<and> in_grows T pl pl'"

text \<open>
  A move broadcasts the new messages \<open>ms\<close> on all links and records the numbers \<open>R\<close> as
  received.
\<close>

definition moves ::
  "bcast_message list \<Rightarrow> (u32 \<times> u32) set \<Rightarrow> 'a urb_scheme \<Rightarrow> 'a urb_scheme \<Rightarrow> bool" where
  "moves ms R m m' \<longleftrightarrow> wires m' = wires m \<and> known m' = known m \<union> bm_id ` set ms \<and>
     distinct (map bm_id ms) \<and> bm_id ` set ms \<inter> known m = {} \<and>
     (\<forall>msg \<in> set ms. length (bm_payload msg) \<le> 1) \<and>
     (\<forall>j i. heard m j i \<longrightarrow> heard m' j i) \<and>
     (\<forall>k. rel_option (link_moves ms (R `` {k})) (perfect_links m k) (perfect_links m' k))"

lemma out_side_PL_Send: "out_side (snd (PL_Send bs pl)) = enqueue bs (out_side pl)"
  by (simp add: out_side_def enqueue_def PL_Send_def Let_def)

lemma link_moves_refl [simp]: "link_moves [] T pl pl"
  by (auto simp: link_moves_def in_grows_def)

lemma link_moves_send: "link_moves [msg] T pl (snd (PL_Send (Broadcast_Serialize msg) pl))"
  using same_receiver_PL_Send [of pl "Broadcast_Serialize msg"]
  by (auto simp: link_moves_def in_grows_def out_side_PL_Send same_receiver_def)

lemma link_moves_trans:
  "link_moves ms T a b \<Longrightarrow> link_moves ms' T' b c \<Longrightarrow> link_moves (ms @ ms') (T \<union> T') a c"
  unfolding link_moves_def in_grows_def by (auto 0 3)

lemma moves_trans:
  assumes "moves ms R a b" and "moves ms' R' b c"
  shows "moves (ms @ ms') (R \<union> R') a c"
proof -
  have "rel_option (link_moves (ms @ ms') ((R \<union> R') `` {k})) (perfect_links a k) (perfect_links c k)" for k
  proof -
    have "rel_option (link_moves ms (R `` {k})) (perfect_links a k) (perfect_links b k)"
      "rel_option (link_moves ms' (R' `` {k})) (perfect_links b k) (perfect_links c k)"
      using assms by (simp_all add: moves_def)
    then have "rel_option (link_moves ms (R `` {k}) OO link_moves ms' (R' `` {k}))
        (perfect_links a k) (perfect_links c k)"
      unfolding option.rel_compp by (rule relcomppI)
    moreover have "link_moves ms (R `` {k}) OO link_moves ms' (R' `` {k}) \<le> link_moves (ms @ ms') ((R \<union> R') `` {k})"
      unfolding Un_Image by (blast intro: link_moves_trans)
    ultimately show ?thesis using option.rel_mono by (metis predicate2D)
  qed
  with assms show ?thesis unfolding moves_def by auto
qed

lemma moves_frame:
  assumes "wires m' = wires m" and "known m' = known m" and "\<And>j i. heard m j i \<Longrightarrow> heard m' j i"
    and "\<And>k. rel_option (link_moves [] (R `` {k})) (perfect_links m k) (perfect_links m' k)"
  shows "moves [] R m m'"
  using assms by (simp add: moves_def)

lemma moves_same_links:
  assumes "wires m' = wires m" and "known m' = known m" and "\<And>j i. heard m j i \<Longrightarrow> heard m' j i"
    and "perfect_links m' = perfect_links m"
  shows "moves [] {} m m'"
  by (rule moves_frame) (use assms in \<open>simp_all add: option.rel_refl\<close>)

lemma moves_send:
  assumes "bm_id msg \<notin> known m" and "length (bm_payload msg) \<le> 1" and "wires m' = wires m" and "known m' = insert (bm_id msg) (known m)"
    and "\<And>j i. heard m j i \<Longrightarrow> heard m' j i"
    and "\<And>k. perfect_links m' k =
      map_option (\<lambda>pl. snd (PL_Send (Broadcast_Serialize msg) pl)) (perfect_links m k)"
  shows "moves [msg] {} m m'"
  using assms by (simp add: moves_def option.rel_map link_moves_send option.rel_refl)

lemma heard_simps:
  "delivered m' = delivered m \<Longrightarrow> acks_of m' = acks_of m \<Longrightarrow> heard m' = heard m"
  by (intro ext) (simp add: heard_def)

lemma heard_update_link [simp]: "heard (update_link j f m) = heard m"
  by (rule heard_simps) (simp_all add: update_link_def acks_of_def fun_eq_iff)

lemma moves_update_link:
  assumes "\<And>pl. pl_target_id (f pl) = pl_target_id pl \<and> pl_target_addr (f pl) = pl_target_addr pl \<and>
      managers (f pl) = managers pl \<and> out_side (f pl) = out_side pl"
    and "\<And>pl. perfect_links m j = Some pl \<Longrightarrow> in_grows (R `` {j}) pl (f pl)"
  shows "moves [] R m (update_link j f m)"
proof (rule moves_frame)
  show "wires (update_link j f m) = wires m"
    using assms(1) by (auto simp: wires_def update_link_def option.map_comp comp_def fun_eq_iff)
  show "rel_option (link_moves [] (R `` {k})) (perfect_links m k) (perfect_links (update_link j f m) k)" for k
    using assms by (cases "perfect_links m j") (auto simp: update_link_def link_moves_def option.rel_refl in_grows_def
        intro!: option.rel_refl)
qed (simp_all add: update_link_def known_def heard_def acks_of_def)

section \<open>Operations of the broadcast object\<close>

context urb_class
begin

lemma Send_moves:
  assumes run: "URB_Send vt msg u = Inr u'" and inv: "urb_inv u"
  shows "\<exists>ms. moves ms {} u u'"
  using run
proof (cases rule: Send_cases)
  case (queue m)
  have "moves [] {} u u'"
    by (rule moves_same_links)
      (use queue(3) in \<open>auto simp: same_urb_def wires_def known_def heard_def acks_of_def\<close>)
  then show ?thesis by blast
next
  case (send m)
  have new: "bm_id m \<notin> known u" using inv by (auto simp: urb_inv_def own_ok_def send(2))
  have "moves [m] {} u u'"
    by (rule moves_send [OF new])
      (use send(2-4) in \<open>auto simp: same_urb_def wires_def known_def heard_def acks_of_def
        option.map_comp comp_def PL_Send_def Let_def\<close>)
  then show ?thesis by blast
qed

lemma Notify_moves:
  assumes run: "vt_NotifyInternal vt msg u = Inr u'" and h: "0 < id_seq (bm_id msg)"
  shows "\<exists>ms. moves ms {} u u'" "heard u' (bm_sender msg) (bm_id msg)"
proof -
  have new: "bm_id msg \<notin> set_abs (delivered u)" if "\<not> DeliveredSet_Contains (delivered u) (bm_id msg)"
    using that h by (simp add: set_Contains_abs valid_id_def)
  from run have "(\<exists>ms. moves ms {} u u') \<and> heard u' (bm_sender msg) (bm_id msg)"
  proof (cases rule: Notify_cases)
    case seen
    have "moves [] {} u u'"
      by (rule moves_same_links)
        (use seen(2) in \<open>auto simp: same_urb_def wires_def known_def heard_def acks_of_def\<close>)
    moreover have "heard u' (bm_sender msg) (bm_id msg)"
      using seen h by (simp add: heard_def same_urb_def set_Contains_abs valid_id_def)
    ultimately show ?thesis by blast
  next
    case ack
    have "moves [] {} u u'"
      by (rule moves_same_links)
        (use ack(3) in \<open>auto simp: same_urb_def wires_def known_def heard_def acks_of_def\<close>)
    moreover have "heard u' (bm_sender msg) (bm_id msg)"
      using ack(3) by (simp add: heard_def same_urb_def acks_of_def)
    ultimately show ?thesis by blast
  next
    case relay
    have "bm_id msg \<notin> known u" using new relay(1,2) by (simp add: known_def)
    then have "moves [msg] {} u u'"
      by (rule moves_send)
        (use relay(3,4) in \<open>auto simp: same_urb_def wires_def known_def heard_def acks_of_def
          option.map_comp comp_def PL_Send_def Let_def\<close>)
    moreover have "heard u' (bm_sender msg) (bm_id msg)"
      using relay(4) by (simp add: heard_def same_urb_def acks_of_def)
    ultimately show ?thesis by blast
  qed
  then show "\<exists>ms. moves ms {} u u'" "heard u' (bm_sender msg) (bm_id msg)" by simp_all
qed

lemma deliver_one_moves:
  assumes inv: "urb_inv u" and i: "i \<in> pending_for_delivery u" and pop: "reads_front after_pop"
    and run: "URB_deliver_one vt after_pop i u = Inr u'"
  shows "\<exists>ms. moves ms {} u u'"
  using run
proof (cases rule: deliver_one_cases)
  case skip
  have "moves [] {} u u'"
    by (rule moves_same_links) (auto simp: skip(2) wires_def known_def heard_def acks_of_def split: if_splits)
  then show ?thesis by blast
next
  case (deliver u1)
  let ?u2 = "u1\<lparr>delivered := DeliveredSet_Insert i (delivered u1), acks := (acks u1)(i := None)\<rparr>"
  have d: "set_abs (DeliveredSet_Insert i (delivered u)) = insert i (set_abs (delivered u))"
    by (rule delivered_Insert(1) [OF _ i deliver(2)]) (use inv in \<open>simp add: urb_inv_def\<close>)
  note keeps = move_window_keeps [OF deliver(3)]
  have same: "same_urb ?u2 u'" unfolding deliver(4) by (rule vt_deliver)
  have step: "local_step {i. id_author i = bc_id u} u u'" by (rule deliver_one_local(1) [OF inv i pop run])
  then have w: "wires u' = wires u" by (simp add: local_step_def)
  have hrd: "heard u' j x" if "heard u j x" for j x
    using that same keeps d by (auto simp: heard_def same_urb_def acks_of_def)
  have links: "perfect_links u' = perfect_links u1" using same by (simp add: same_urb_def)
  have k: "known u' = insert i (pending_for_delivery u1 \<union> set_abs (delivered u))"
    using same keeps(1) d by (auto simp: known_def same_urb_def)
  from deliver(3) show ?thesis
  proof (cases rule: move_window_cases)
    case foreign
    have "moves [] {} u u'"
      by (rule moves_same_links [OF w _ hrd]) (use i in \<open>auto simp: k links foreign(2) known_def [of u]\<close>)
    then show ?thesis by blast
  next
    case own
    have "moves [] {} u u'"
      by (rule moves_same_links [OF w _ hrd]) (use i in \<open>auto simp: k links own(3) known_def [of u]\<close>)
    then show ?thesis by blast
  next
    case (refill front rest msg)
    with pop have msg: "msg = front" by (auto simp: reads_front_def)
    then have "bm_id msg \<notin> known u" using inv refill(3) by (simp add: urb_inv_def own_ok_def)
    then have "moves [msg] {} u u'"
      by (rule moves_send [OF _ refill(5) w _ hrd]) (use i in \<open>auto simp: k links refill(6) known_def [of u]\<close>)
    then show ?thesis by blast
  qed
qed

lemma fold_deliver_moves:
  assumes "fold_result (URB_deliver_one vt after_pop) ids u = Inr u'"
    and "urb_inv u" and "distinct ids" and "set ids \<subseteq> pending_for_delivery u" and "reads_front after_pop"
  shows "\<exists>ms. moves ms {} u u'"
proof -
  have "moves [] {} u u" by (rule moves_same_links) simp_all
  then have "\<exists>ms. moves ms {} u u" by blast
  from fold_deliver_induct [where P = "\<lambda>v. \<exists>ms. moves ms {} u v", OF assms(1,2) this assms(3,4,5)]
  show ?thesis using deliver_one_moves assms(5) moves_trans by (metis Un_empty)
qed

end

section \<open>Operations of the links\<close>

lemma moves_SendAcks: "moves [] {} m (snd (Manager_SendAcks sendto strong now links oa od m))"
proof (rule Manager_SendAcks_induct [of "moves [] {} m"])
  show "moves [] {} m m" by (rule moves_same_links) simp_all
  fix m1 i pl assume q: "moves [] {} m m1" and pl: "perfect_links m1 i = Some pl"
  let ?r = "snd (PL_SendAcks sendto strong now (oa i) (od i) pl)"
  let ?f = "\<lambda>pl'. if pl' = pl then ?r else pl'"
  have "update_link i (\<lambda>_. ?r) m1 = update_link i ?f m1"
    using pl by (simp add: update_link_def)
  moreover have "moves [] {} m1 (update_link i ?f m1)"
    by (rule moves_update_link)
      (auto simp: out_side_def in_grows_def PL_SendAcks_def PL_CleanAcks_acks PL_CleanAcks_delivered
        split: option.splits if_splits)
  ultimately show "moves [] {} m (update_link i (\<lambda>_. ?r) m1)" using moves_trans [OF q] by fastforce
qed

text \<open>
  Receiving a datagram on the link to \<open>j\<close>. A message that was not recorded before counts \<open>j\<close>
  for the broadcast message it carries.
\<close>

lemma option_packet_cases:
  obtains "x = None" | t where "x = Some (Ack t)" | pm where "x = Some (Msg pm)"
  by (metis option.exhaust packet.exhaust)

lemma notified_moves:
  assumes pm: "Broadcast_Notify ufifo_vt j pm m = Inr m'"
    and honest: "\<And>bm. Broadcast_Parse j (pm_payload pm) = Some bm \<Longrightarrow> 0 < id_seq (bm_id bm)"
  shows "\<exists>ms. moves ms {} m m'" "\<And>bm. Broadcast_Parse j (pm_payload pm) = Some bm \<Longrightarrow> heard m' j (bm_id bm)"
proof -
  show "\<exists>ms. moves ms {} m m'"
  proof (cases "Broadcast_Parse j (pm_payload pm)")
    case None
    with pm have "m' = m" by (simp add: Broadcast_Notify_def)
    then show ?thesis using moves_same_links [of m m] by auto
  next
    case (Some bm)
    with pm have "vt_NotifyInternal ufifo_vt bm m = Inr m'" by (simp add: Broadcast_Notify_def)
    from ufifo_urb.Notify_moves(1) [OF this honest [OF Some]] show ?thesis .
  qed
  fix bm assume bm: "Broadcast_Parse j (pm_payload pm) = Some bm"
  with pm have "vt_NotifyInternal ufifo_vt bm m = Inr m'" by (simp add: Broadcast_Notify_def)
  from ufifo_urb.Notify_moves(2) [OF this honest [OF bm]] show "heard m' j (bm_id bm)"
    using Broadcast_Serialize_Parse(2) [OF bm] by simp
qed

lemma link_notify_moves:
  assumes run: "link_notify now j bs m = Inr m'" and link: "perfect_links m j = Some pl"
    "pl_target_id pl = j" "managers pl = [This_Manager]"
    and honest: "\<And>pm bm. PL_Parse bs = Some (Msg pm) \<Longrightarrow> Broadcast_Parse j (pm_payload pm) = Some bm \<Longrightarrow>
      0 < id_seq (bm_id bm)"
  obtains (skip) "m' = m"
  | (ack) t where "PL_Parse bs = Some (Ack t)"
      "m' = update_link j (\<lambda>pl. pl\<lparr>messages_to_send := (messages_to_send pl)(t := None)\<rparr>) m"
  | (msg) pm ms where "PL_Parse bs = Some (Msg pm)" "moves ms {(j, pm_seq pm)} m m'"
      "messages_delivered pl (pm_seq pm) = None \<Longrightarrow>
        \<forall>bm. Broadcast_Parse j (pm_payload pm) = Some bm \<longrightarrow> heard m' j (bm_id bm)"
proof (cases rule: option_packet_cases [of "PL_Parse bs"])
  case 1
  with run link skip show ?thesis by (simp add: link_notify_def PL_Notify_def)
next
  case (2 t)
  with run link ack show ?thesis by (simp add: link_notify_def PL_Notify_def)
next
  case (3 pm)
  let ?m1 = "update_link j (\<lambda>pl. pl\<lparr>acks_to_send := insert (pm_seq pm) (acks_to_send pl)\<rparr>) m"
  let ?stamp = "update_link j (\<lambda>pl. pl\<lparr>messages_delivered := (messages_delivered pl)(pm_seq pm \<mapsto> now)\<rparr>)"
  let ?R = "{(j, pm_seq pm)}" and ?new = "messages_delivered pl (pm_seq pm) = None"
  have first: "moves [] ?R m ?m1"
    by (rule moves_update_link) (auto simp: out_side_def in_grows_def)
  have last: "moves [] ?R m2 (?stamp m2)" "heard (?stamp m2) = heard m2" for m2 :: ufifo
    by (rule moves_update_link) (auto simp: out_side_def in_grows_def)
  from run link 3 obtain m2 where m2: "m' = ?stamp m2"
    "if ?new then Broadcast_Notify ufifo_vt j pm ?m1 = Inr m2 else m2 = ?m1"
    by (auto simp: link_notify_def PL_Notify_def Let_def split: if_splits)
  note notified = notified_moves [of j pm, OF _ honest [OF 3]]
  obtain ms where "moves ms {} ?m1 m2"
    using m2(2) notified(1) moves_same_links [of ?m1 ?m1] by (auto split: if_splits)
  from moves_trans [OF moves_trans [OF first this] last(1)] have "moves ms ?R m m'" by (simp add: m2(1))
  then show ?thesis
  proof (rule msg [OF 3])
    show "\<forall>bm. Broadcast_Parse j (pm_payload pm) = Some bm \<longrightarrow> heard m' j (bm_id bm)" if ?new
      using that m2(2) notified(2) [where m = ?m1 and m' = m2] unfolding m2(1) last(2) by simp
  qed
qed

end
