(* ===== verification/Link_Exchange.thy ===== *)
theory Link_Exchange
  imports Link_Moves
begin

text \<open>
  The exchange between two processes: a message that a process knows stays queued on its link
  to a peer until the peer has counted it. The invariant relates the two ends of a link with
  the datagrams between them.
\<close>

section \<open>The invariant of an exchange\<close>

text \<open>A payload that carries the broadcast message \<open>i\<close>.\<close>

definition carries :: "bytes \<Rightarrow> msg_id \<Rightarrow> bool" where
  "carries p i \<longleftrightarrow> (\<exists>k bm. Broadcast_Parse k p = Some bm \<and> bm_id bm = i)"

definition in_flight :: "sys \<Rightarrow> host \<Rightarrow> host \<Rightarrow> packet \<Rightarrow> bool" where
  "in_flight s hj hk pkt \<longleftrightarrow>
     (\<exists>bs. (host_addr hj, host_addr hk, bs) \<in> net s \<and> PL_Parse (take 14 bs) = Some pkt)"

text \<open>Message number \<open>t\<close> from \<open>hj\<close> has been sent, and \<open>hk\<close> has counted what it carries.\<close>

definition received :: "sys \<Rightarrow> host \<Rightarrow> host \<Rightarrow> u32 \<Rightarrow> bool" where
  "received s hj hk t \<longleftrightarrow> (\<exists>p. in_flight s hj hk (Msg \<lparr>pm_seq = t, pm_payload = p\<rparr>) \<and>
     (\<forall>i. carries p i \<longrightarrow> heard (mgr s (h_id hk)) (h_id hj) i))"

definition link_sends :: "sys \<Rightarrow> host \<Rightarrow> host \<Rightarrow> perfect_link \<Rightarrow> bool" where
  "link_sends s hj hk pl \<longleftrightarrow> pl_target_addr pl = host_addr hk \<and>
     unat (pl_n_messages_sent pl) = card (known (mgr s (h_id hj))) + 1 \<and>
     (\<forall>t \<in> dom (messages_to_send pl). t < pl_n_messages_sent pl) \<and>
     (\<forall>p \<in> ran (messages_to_send pl). length p \<le> 9) \<and>
     (\<forall>t p. in_flight s hj hk (Msg \<lparr>pm_seq = t, pm_payload = p\<rparr>) \<longrightarrow>
        t < pl_n_messages_sent pl \<and> messages_to_send pl t \<in> {None, Some p}) \<and>
     (\<forall>i \<in> known (mgr s (h_id hj)). (\<exists>p \<in> ran (messages_to_send pl). carries p i) \<or>
        heard (mgr s (h_id hk)) (h_id hj) i)"

definition send_ok :: "sys \<Rightarrow> host \<Rightarrow> host \<Rightarrow> bool" where
  "send_ok s hj hk \<longleftrightarrow>
     (\<forall>pl. perfect_links (mgr s (h_id hj)) (h_id hk) = Some pl \<longrightarrow> link_sends s hj hk pl)"

definition recv_ok :: "sys \<Rightarrow> host \<Rightarrow> host \<Rightarrow> bool" where
  "recv_ok s hj hk \<longleftrightarrow> (\<forall>t. in_flight s hk hj (Ack t) \<longrightarrow> received s hj hk t) \<and>
     (\<forall>pl. perfect_links (mgr s (h_id hk)) (h_id hj) = Some pl \<longrightarrow>
        (\<forall>t \<in> acks_to_send pl \<union> dom (messages_delivered pl). received s hj hk t))"

definition exchange_inv :: "host list \<Rightarrow> sys \<Rightarrow> bool" where
  "exchange_inv hs s \<longleftrightarrow> (\<forall>hj \<in> set hs. \<forall>hk \<in> set hs. h_id hj \<noteq> h_id hk \<longrightarrow> send_ok s hj hk \<and> recv_ok s hj hk)"

text \<open>The numbers on the links have not wrapped around.\<close>

definition few :: "host list \<Rightarrow> sys \<Rightarrow> bool" where
  "few hs s \<longleftrightarrow> (\<forall>q \<in> ids_of hs. card (known (mgr s q)) + 1 < 2 ^ 32)"

lemma carries_Serialize [simp]: "carries (Broadcast_Serialize msg) i \<longleftrightarrow> bm_id msg = i"
  by (simp add: carries_def)

lemma carries_Parse: "Broadcast_Parse k p = Some bm \<Longrightarrow> carries p i \<longleftrightarrow> bm_id bm = i"
  using Broadcast_Serialize_Parse(1) carries_Serialize by metis

lemma hosts_ok_same:
  assumes "hosts_ok hs" and "h \<in> set hs" and "h' \<in> set hs"
  shows "h_id h = h_id h' \<Longrightarrow> h = h'" "host_addr h = host_addr h' \<Longrightarrow> h = h'"
  using assms by (auto simp: hosts_ok_def distinct_map dest: inj_onD)

lemma finite_msg_ids [simp]: "finite (A :: msg_id set)"
proof (rule finite_subset)
  show "A \<subseteq> (\<lambda>(s, a). Msg_Id s a) ` UNIV" by (auto simp: image_iff) (metis msg_id.exhaust)
qed simp

section \<open>Sending numbers\<close>

lemma fold_enqueue:
  assumes "\<forall>t \<in> dom (snd q). t < fst q" and "unat (fst q) + length bss < 2 ^ 32"
  defines "q' \<equiv> fold enqueue bss q"
  shows "unat (fst q') = unat (fst q) + length bss" "\<forall>t \<in> dom (snd q'). t < fst q'"
    "\<forall>t < fst q. snd q' t = snd q t" "ran (snd q') = ran (snd q) \<union> set bss" "fst q \<le> fst q'"
proof -
  have "unat (fst q') = unat (fst q) + length bss \<and> (\<forall>t \<in> dom (snd q'). t < fst q') \<and>
    (\<forall>t < fst q. snd q' t = snd q t) \<and> ran (snd q') = ran (snd q) \<union> set bss"
    using assms(1,2) unfolding q'_def
  proof (induction bss arbitrary: q)
    case Nil
    then show ?case by simp
  next
    case (Cons bs bss)
    obtain n f where q: "q = (n, f)" by (cases q)
    have n: "unat (n + 1) = unat n + 1"
    proof -
      have "unat n \<noteq> unat (- 1 :: u32)" using Cons.prems(2) unfolding q unat_u32_max by simp
      then have "1 + n \<noteq> 0" by (metis add.commute add_eq_0_iff2)
      then show ?thesis by (metis add.commute unatSuc Suc_eq_plus1)
    qed
    have free: "f n = None" using Cons.prems(1) by (auto simp: q)
    then have e: "enqueue bs (n, f) = (n + 1, f(n \<mapsto> bs))" by (simp add: enqueue_def)
    have lt: "t < n + 1 \<longleftrightarrow> t < n \<or> t = n" for t
      unfolding word_less_nat_alt word_unat_eq_iff [of t n] n by linarith
    have "\<forall>t \<in> dom (snd (enqueue bs q)). t < fst (enqueue bs q)"
      using Cons.prems(1) by (auto simp: e q lt)
    moreover have "unat (fst (enqueue bs q)) + length bss < 2 ^ 32" using Cons.prems(2) by (simp add: e n q)
    ultimately have IH: "unat (fst (fold enqueue bss (enqueue bs q))) = unat (fst (enqueue bs q)) + length bss"
      "\<forall>t \<in> dom (snd (fold enqueue bss (enqueue bs q))). t < fst (fold enqueue bss (enqueue bs q))"
      "\<forall>t < fst (enqueue bs q). snd (fold enqueue bss (enqueue bs q)) t = snd (enqueue bs q) t"
      "ran (snd (fold enqueue bss (enqueue bs q))) = ran (snd (enqueue bs q)) \<union> set bss"
      using Cons.IH [of "enqueue bs q"] by blast+
    have "ran (f(n \<mapsto> bs)) = insert bs (ran f)" using free by simp
    with IH show ?case by (auto simp: e q n lt)
  qed
  then show "unat (fst q') = unat (fst q) + length bss" "\<forall>t \<in> dom (snd q'). t < fst q'"
    "\<forall>t < fst q. snd q' t = snd q t" "ran (snd q') = ran (snd q) \<union> set bss" "fst q \<le> fst q'"
    by (simp_all add: word_le_nat_alt)
qed

lemma moves_card:
  assumes "moves ms R m m'"
  shows "card (known m') = card (known m) + length ms"
proof -
  have "card (bm_id ` set ms) = length ms"
    using assms by (metis moves_def distinct_card list.set_map length_map)
  with assms show ?thesis by (auto simp: moves_def card_Un_disjoint Int_commute)
qed

section \<open>Steps keep the invariant\<close>

lemma net_set_proc [simp]: "net (set_proc q a s) = net s"
  by (simp add: set_proc_def)

lemma mgr_set_proc: "mgr (set_proc q a s) j = (if j = q then app_manager a else mgr s j)"
  by (simp add: set_proc_def)

lemma in_flight_set_proc [simp]: "in_flight (set_proc q a s) = in_flight s"
  by (simp add: in_flight_def fun_eq_iff)

lemma received_mono:
  assumes "received s hj hk t" and "\<And>pkt. in_flight s hj hk pkt \<Longrightarrow> in_flight s' hj hk pkt"
    and "\<And>i. heard (mgr s (h_id hk)) (h_id hj) i \<Longrightarrow> heard (mgr s' (h_id hk)) (h_id hj) i"
  shows "received s' hj hk t"
  using assms unfolding received_def by blast

lemma wires_target_addr:
  assumes "wires m' = wires m" and "perfect_links m k = Some pl" and "perfect_links m' k = Some pl'"
  shows "pl_target_addr pl' = pl_target_addr pl"
  using assms fun_cong [of _ _ k] by (fastforce simp: wires_def)

lemma moves_link:
  assumes "moves ms R m m'" and "perfect_links m' k = Some pl'"
  obtains pl where "perfect_links m k = Some pl" "link_moves ms (R `` {k}) pl pl'"
proof -
  have "rel_option (link_moves ms (R `` {k})) (perfect_links m k) (Some pl')"
    using assms(1) unfolding moves_def assms(2) [symmetric] by blast
  with that show ?thesis by (auto simp: option_rel_Some2)
qed

lemma send_ok_moves:
  assumes ok: "send_ok s hj hk" and ne: "h_id hj \<noteq> h_id hk"
    and mv: "moves ms R (mgr s (h_id hj)) (app_manager a')"
    and few: "card (known (app_manager a')) + 1 < 2 ^ 32"
  shows "send_ok (set_proc (h_id hj) a' s) hj hk"
  unfolding send_ok_def
proof (intro allI impI)
  fix pl' assume "perfect_links (mgr (set_proc (h_id hj) a' s) (h_id hj)) (h_id hk) = Some pl'"
  then have pl': "perfect_links (app_manager a') (h_id hk) = Some pl'" by (simp add: mgr_set_proc)
  obtain pl where pl: "perfect_links (mgr s (h_id hj)) (h_id hk) = Some pl"
    and lm: "link_moves ms (R `` {h_id hk}) pl pl'"
    using moves_link [OF mv pl'] by blast
  have ls: "link_sends s hj hk pl" using ok pl by (simp add: send_ok_def)
  have out: "(pl_n_messages_sent pl', messages_to_send pl') = fold enqueue (map Broadcast_Serialize ms) (out_side pl)"
    using lm by (simp add: link_moves_def out_side_def)
  have keys: "\<forall>t \<in> dom (snd (out_side pl)). t < fst (out_side pl)"
    using ls by (simp add: link_sends_def out_side_def)
  have "unat (fst (out_side pl)) + length (map Broadcast_Serialize ms) < 2 ^ 32"
    using ls few moves_card [OF mv] by (simp add: link_sends_def out_side_def)
  note fe = fold_enqueue [OF keys this, folded out, unfolded fst_conv snd_conv]
  have old: "fst (out_side pl) = pl_n_messages_sent pl" "snd (out_side pl) = messages_to_send pl"
    by (simp_all add: out_side_def)
  have "pl_target_addr pl' = host_addr hk"
    using wires_target_addr [OF _ pl pl'] mv ls by (simp add: moves_def link_sends_def)
  moreover have "unat (pl_n_messages_sent pl') = card (known (app_manager a')) + 1"
    using fe(1) ls moves_card [OF mv] by (simp add: old link_sends_def)
  moreover have "t < pl_n_messages_sent pl' \<and> messages_to_send pl' t \<in> {None, Some p}"
    if "in_flight s hj hk (Msg \<lparr>pm_seq = t, pm_payload = p\<rparr>)" for t p
    using that ls fe(3) less_le_trans [OF _ fe(5)] by (auto simp: old link_sends_def)
  moreover have "(\<exists>p \<in> ran (messages_to_send pl'). carries p i) \<or> heard (mgr s (h_id hk)) (h_id hj) i"
    if "i \<in> known (app_manager a')" for i
  proof (cases "i \<in> known (mgr s (h_id hj))")
    case True
    with ls fe(4) show ?thesis by (auto simp: old link_sends_def)
  next
    case False
    with that mv obtain msg where "msg \<in> set ms" "bm_id msg = i" by (auto simp: moves_def)
    then show ?thesis using fe(4) by (intro disjI1 bexI [of _ "Broadcast_Serialize msg"]) simp_all
  qed
  moreover have "\<forall>p \<in> ran (messages_to_send pl'). length p \<le> 9"
    using fe(4) ls mv by (auto simp: old link_sends_def moves_def)
  ultimately show "link_sends (set_proc (h_id hj) a' s) hj hk pl'"
    using fe(2) ne by (simp add: link_sends_def mgr_set_proc)
qed

text \<open>A step of another process than the sender matters only if it is the receiver.\<close>

lemma send_ok_other:
  assumes "send_ok s hj hk" and "q \<noteq> h_id hj"
    and "\<And>j i. heard (mgr s q) j i \<Longrightarrow> heard (app_manager a') j i"
  shows "send_ok (set_proc q a' s) hj hk"
proof -
  have "heard (mgr (set_proc q a' s) (h_id hk)) j i" if "heard (mgr s (h_id hk)) j i" for j i
    using that assms(3) by (auto simp: mgr_set_proc)
  moreover have "mgr (set_proc q a' s) (h_id hj) = mgr s (h_id hj)" using assms(2) by (simp add: mgr_set_proc)
  ultimately show ?thesis
    using assms(1) unfolding send_ok_def link_sends_def in_flight_set_proc by metis
qed

lemma received_set_proc:
  assumes "received s hj hk t" and "\<And>j i. heard (mgr s q) j i \<Longrightarrow> heard (app_manager a') j i"
  shows "received (set_proc q a' s) hj hk t"
  by (rule received_mono [OF assms(1)]) (use assms(2) in \<open>auto simp: mgr_set_proc\<close>)

lemma recv_ok_set_proc:
  assumes ok: "recv_ok s hj hk" and hrd: "\<And>j i. heard (mgr s q) j i \<Longrightarrow> heard (app_manager a') j i"
    and new: "\<And>pl' t. perfect_links (mgr (set_proc q a' s) (h_id hk)) (h_id hj) = Some pl' \<Longrightarrow>
       t \<in> acks_to_send pl' \<union> dom (messages_delivered pl') \<Longrightarrow>
       received (set_proc q a' s) hj hk t \<or>
       (\<exists>pl. perfect_links (mgr s (h_id hk)) (h_id hj) = Some pl \<and> t \<in> acks_to_send pl \<union> dom (messages_delivered pl))"
  shows "recv_ok (set_proc q a' s) hj hk"
  unfolding recv_ok_def
proof (intro conjI allI impI ballI)
  fix t assume "in_flight (set_proc q a' s) hk hj (Ack t)"
  then show "received (set_proc q a' s) hj hk t"
    using ok received_set_proc [OF _ hrd] by (simp add: recv_ok_def)
next
  fix pl' t assume "perfect_links (mgr (set_proc q a' s) (h_id hk)) (h_id hj) = Some pl'"
    and "t \<in> acks_to_send pl' \<union> dom (messages_delivered pl')"
  from new [OF this] show "received (set_proc q a' s) hj hk t"
    using ok received_set_proc [OF _ hrd] unfolding recv_ok_def by blast
qed

lemma exchange_moves:
  assumes inv: "exchange_inv hs s" and hs: "hosts_ok hs" and h: "h \<in> set hs"
    and mv: "moves ms R (mgr s (h_id h)) (app_manager a')"
    and few: "card (known (app_manager a')) + 1 < 2 ^ 32"
    and R: "\<And>hj t. hj \<in> set hs \<Longrightarrow> (h_id hj, t) \<in> R \<Longrightarrow> received (set_proc (h_id h) a' s) hj h t"
  shows "exchange_inv hs (set_proc (h_id h) a' s)"
  unfolding exchange_inv_def
proof (intro ballI impI conjI)
  let ?s' = "set_proc (h_id h) a' s"
  have hrd: "heard (mgr s (h_id h)) j i \<Longrightarrow> heard (app_manager a') j i" for j i
    using mv by (simp add: moves_def)
  fix hj hk assume h': "hj \<in> set hs" "hk \<in> set hs" and ne: "h_id hj \<noteq> h_id hk"
  then have ok: "send_ok s hj hk" "recv_ok s hj hk" using inv by (auto simp: exchange_inv_def)
  show "send_ok ?s' hj hk"
  proof (cases "h_id hj = h_id h")
    case True
    with hosts_ok_same(1) [OF hs h'(1) h] ok(1) ne mv few show ?thesis using send_ok_moves by blast
  next
    case False
    with send_ok_other [OF ok(1) _ hrd] show ?thesis by metis
  qed
  show "recv_ok ?s' hj hk"
  proof (rule recv_ok_set_proc [OF ok(2) hrd])
    fix pl' t assume pl': "perfect_links (mgr ?s' (h_id hk)) (h_id hj) = Some pl'"
      and t: "t \<in> acks_to_send pl' \<union> dom (messages_delivered pl')"
    show "received ?s' hj hk t \<or> (\<exists>pl. perfect_links (mgr s (h_id hk)) (h_id hj) = Some pl \<and>
        t \<in> acks_to_send pl \<union> dom (messages_delivered pl))"
    proof (cases "h_id hk = h_id h")
      case True
      then have hk: "hk = h" by (rule hosts_ok_same(1) [OF hs h'(2) h])
      with pl' have "perfect_links (app_manager a') (h_id hj) = Some pl'" by (simp add: mgr_set_proc)
      from moves_link [OF mv this] obtain pl where "perfect_links (mgr s (h_id h)) (h_id hj) = Some pl"
        "link_moves ms (R `` {h_id hj}) pl pl'" by blast
      with t hk R [OF h'(1), of t] show ?thesis by (auto simp: link_moves_def in_grows_def)
    qed (use pl' t in \<open>simp add: mgr_set_proc\<close>)
  qed
qed

text \<open>
  An acknowledgement takes a message off the queue; it was sent only after the message had
  been counted.
\<close>

lemma link_sends_ack:
  assumes ls: "link_sends s h hk pl" and rec: "received s h hk t"
  shows "link_sends s h hk (pl\<lparr>messages_to_send := (messages_to_send pl)(t := None)\<rparr>)"
proof -
  from rec obtain p where p: "in_flight s h hk (Msg \<lparr>pm_seq = t, pm_payload = p\<rparr>)"
    "\<And>i. carries p i \<Longrightarrow> heard (mgr s (h_id hk)) (h_id h) i"
    by (auto simp: received_def)
  then have t: "messages_to_send pl t \<in> {None, Some p}" using ls unfolding link_sends_def by blast
  have "p' \<in> ran ((messages_to_send pl)(t := None)) \<or> p' = p" if "p' \<in> ran (messages_to_send pl)" for p'
  proof -
    from that obtain t' where "messages_to_send pl t' = Some p'" by (auto simp: ran_def)
    with t show ?thesis by (cases "t' = t") (auto intro!: ranI [of _ t'])
  qed
  moreover have "ran ((messages_to_send pl)(t := None)) \<subseteq> ran (messages_to_send pl)" by (auto simp: ran_def)
  ultimately show ?thesis using ls p(2) by (simp add: link_sends_def) blast
qed

lemma exchange_ack:
  assumes inv: "exchange_inv hs s" and hs: "hosts_ok hs" and h: "h \<in> set hs" "hk \<in> set hs" "h_id h \<noteq> h_id hk"
    and ack: "in_flight s hk h (Ack t)"
    and a': "app_manager a' =
      update_link (h_id hk) (\<lambda>pl. pl\<lparr>messages_to_send := (messages_to_send pl)(t := None)\<rparr>) (mgr s (h_id h))"
  shows "exchange_inv hs (set_proc (h_id h) a' s)"
  unfolding exchange_inv_def
proof (intro ballI impI conjI)
  let ?s' = "set_proc (h_id h) a' s"
  have hrd: "heard (app_manager a') = heard (mgr s (h_id h))" by (simp add: a')
  then have heard: "heard (mgr ?s' q) = heard (mgr s q)" for q by (simp add: mgr_set_proc)
  have known: "known (mgr ?s' q) = known (mgr s q)" for q
    by (simp add: mgr_set_proc a' known_def update_link_def)
  have ls: "link_sends ?s' hj hi = link_sends s hj hi" for hj hi
    by (simp add: link_sends_def fun_eq_iff heard known)
  fix hj hi assume h': "hj \<in> set hs" "hi \<in> set hs" and ne: "h_id hj \<noteq> h_id hi"
  then have ok: "send_ok s hj hi" "recv_ok s hj hi" using inv by (auto simp: exchange_inv_def)
  show "send_ok ?s' hj hi"
  proof (cases "h_id hj = h_id h \<and> h_id hi = h_id hk")
    case False
    with ok(1) show ?thesis by (auto simp: send_ok_def ls mgr_set_proc a' update_link_def)
  next
    case True
    with hosts_ok_same(1) [OF hs] h h' have eq: "hj = h" "hi = hk" by blast+
    have "received s h hk t" using ack inv h by (auto simp: exchange_inv_def recv_ok_def)
    with ok(1) link_sends_ack show ?thesis
      unfolding send_ok_def eq by (auto simp: ls mgr_set_proc a' update_link_def)
  qed
  show "recv_ok ?s' hj hi"
  proof (rule recv_ok_set_proc [OF ok(2)])
    show "heard (mgr s (h_id h)) j i \<Longrightarrow> heard (app_manager a') j i" for j i by (simp add: hrd)
  qed (auto simp: mgr_set_proc a' update_link_def split: if_splits)
qed

text \<open>What a process sends is queued on the link to the peer it is sent to.\<close>

lemma queued_for_peer:
  assumes inv: "exchange_inv hs s" and hs: "hosts_ok hs" and h: "h \<in> set hs" and hi: "hi \<in> set hs"
    and dom: "dom (perfect_links (mgr s (h_id h))) \<subseteq> ids_of hs - {h_id h}"
    and pl2: "perfect_links (mgr s (h_id h)) k = Some pl2" "host_addr hi = pl_target_addr pl2"
  shows "h_id hi = k" "h_id hi \<noteq> h_id h"
proof -
  from pl2(1) dom obtain hk where hk: "hk \<in> set hs" "k = h_id hk" "h_id hk \<noteq> h_id h" by blast
  then have "link_sends s h hk pl2"
    using inv h pl2(1) unfolding exchange_inv_def send_ok_def by metis
  then have "host_addr hi = host_addr hk" using pl2(2) by (simp add: link_sends_def)
  then have "hi = hk" by (rule hosts_ok_same(2) [OF hs hi hk(1)])
  with hk show "h_id hi = k" "h_id hi \<noteq> h_id h" by simp_all
qed

lemma in_flight_emit:
  "in_flight (emit (host_addr h) out s) hj hi pkt \<longleftrightarrow> in_flight s hj hi pkt \<or>
     (host_addr hj = host_addr h \<and> (\<exists>bs. (bs, host_addr hi) \<in> set out \<and> PL_Parse (take 14 bs) = Some pkt))"
  by (auto simp: in_flight_def emit_def)

lemma exchange_emit:
  assumes inv: "exchange_inv hs s" and hs: "hosts_ok hs" and h: "h \<in> set hs"
    and dom: "dom (perfect_links (mgr s (h_id h))) \<subseteq> ids_of hs - {h_id h}"
    and msgs: "\<And>bs dst t p. (bs, dst) \<in> set out \<Longrightarrow>
       PL_Parse (take 14 bs) = Some (Msg \<lparr>pm_seq = t, pm_payload = p\<rparr>) \<Longrightarrow>
       \<exists>k pl. perfect_links (mgr s (h_id h)) k = Some pl \<and> dst = pl_target_addr pl \<and> messages_to_send pl t = Some p"
    and acks: "\<And>bs hj t. (bs, host_addr hj) \<in> set out \<Longrightarrow> PL_Parse (take 14 bs) = Some (Ack t) \<Longrightarrow>
       hj \<in> set hs \<Longrightarrow> received s hj h t"
  shows "exchange_inv hs (emit (host_addr h) out s)"
  unfolding exchange_inv_def
proof (intro ballI impI conjI)
  let ?s' = "emit (host_addr h) out s"
  have mgr: "mgr ?s' q = mgr s q" for q by (simp add: emit_def)
  have rec: "received ?s' hj hi t" if "received s hj hi t" for hj hi t
    using that by (auto simp: received_def mgr in_flight_emit)
  fix hj hi assume h': "hj \<in> set hs" "hi \<in> set hs" and ne: "h_id hj \<noteq> h_id hi"
  then have ok: "send_ok s hj hi" "recv_ok s hj hi" using inv by (auto simp: exchange_inv_def)
  have "link_sends ?s' hj hi pl" if pl: "perfect_links (mgr s (h_id hj)) (h_id hi) = Some pl" for pl
  proof -
    have ls: "link_sends s hj hi pl" using ok(1) pl by (simp add: send_ok_def)
    have "messages_to_send pl t = Some p" if "host_addr hj = host_addr h" "(bs, host_addr hi) \<in> set out"
      "PL_Parse (take 14 bs) = Some (Msg \<lparr>pm_seq = t, pm_payload = p\<rparr>)" for t p bs
      using msgs [OF that(2,3)] queued_for_peer(1) [OF inv hs h h'(2) dom] pl
        hosts_ok_same(2) [OF hs h'(1) h that(1)] by auto
    with ls show ?thesis by (auto simp: link_sends_def mgr in_flight_emit)
  qed
  then show "send_ok ?s' hj hi" by (simp add: send_ok_def mgr)
  have "received ?s' hj hi t" if "in_flight ?s' hi hj (Ack t)" for t
    using that ok(2) rec acks h' hosts_ok_same(2) [OF hs h'(2) h] unfolding in_flight_emit recv_ok_def by blast
  then show "recv_ok ?s' hj hi" using ok(2) rec by (simp add: recv_ok_def mgr)
qed

section \<open>The steps of the system\<close>

lemma SendAcks_out_link:
  assumes "(bs, dst) \<in> set (fst (Manager_SendAcks sendto strong now links oa od m))" and "distinct links"
    and oa: "\<And>j pl. perfect_links m j = Some pl \<Longrightarrow> set (oa j) = acks_to_send pl"
  shows "\<exists>j pl t. perfect_links m j = Some pl \<and> t \<in> acks_to_send pl \<and> bs = PL_ack_packet t \<and>
    dst = pl_target_addr pl"
proof -
  let ?f = "\<lambda>i (out, m). case perfect_links m i of None \<Rightarrow> (out, m)
    | Some pl \<Rightarrow> (let r = PL_SendAcks sendto strong now (oa i) (od i) pl
                 in (out @ fst r, update_link i (\<lambda>_. snd r) m))"
  define ack_of where "ack_of d \<longleftrightarrow> (\<exists>j pl t. perfect_links m j = Some pl \<and> t \<in> acks_to_send pl \<and>
    d = (PL_ack_packet t, pl_target_addr pl))" for d
  have one: "ack_of d" if "d \<in> set (fst (PL_SendAcks sendto strong now (oa j) od pl))" "perfect_links m j = Some pl"
    for d j od pl
    using that oa [OF that(2)] by (auto simp: ack_of_def PL_SendAcks_def try_send_def split: if_splits sum.splits)
  have "\<forall>d \<in> set (fst (fold ?f links (out, m'))). d \<in> set out \<or> ack_of d"
    if "distinct links" "\<forall>j \<in> set links. perfect_links m' j = perfect_links m j" for out m'
    using that
  proof (induction links arbitrary: out m')
    case (Cons i links)
    show ?case
    proof (cases "perfect_links m i")
      case None
      with Cons.prems have "?f i (out, m') = (out, m')" by simp
      with Cons.IH [of m' out] Cons.prems show ?thesis by simp
    next
      case (Some pl)
      let ?r = "PL_SendAcks sendto strong now (oa i) (od i) pl"
      have "\<forall>j \<in> set links. perfect_links (update_link i (\<lambda>_. snd ?r) m') j = perfect_links m j"
        using Cons.prems by (auto simp: update_link_def)
      with Cons.prems have "\<forall>d \<in> set (fst (fold ?f links (out @ fst ?r, update_link i (\<lambda>_. snd ?r) m'))).
          d \<in> set (out @ fst ?r) \<or> ack_of d"
        by (intro Cons.IH) simp_all
      moreover have "?f i (out, m') = (out @ fst ?r, update_link i (\<lambda>_. snd ?r) m')"
        using Cons.prems by (simp add: Some Let_def)
      ultimately show ?thesis using one [OF _ Some] by (simp only: fold.simps comp_apply) auto
    qed
  qed simp
  from this [OF assms(2), of m "[]"] assms(1) have "ack_of (bs, dst)"
    by (auto simp: Manager_SendAcks_def split: if_splits)
  then show ?thesis by (simp add: ack_of_def)
qed

lemma SendMessages_out_link:
  assumes "Manager_SendMessages sendto links ord m = Inr out" and "(bs, dst) \<in> set out"
  shows "\<exists>k pl t p. perfect_links m k = Some pl \<and> messages_to_send pl t = Some p \<and> dst = pl_target_addr pl \<and>
    take 14 bs = PL_Serialize \<lparr>pm_seq = t, pm_payload = p\<rparr>"
proof -
  have "\<exists>k pl t p. perfect_links m k = Some pl \<and> messages_to_send pl t = Some p \<and> dst = pl_target_addr pl \<and>
      take 14 bs = PL_Serialize \<lparr>pm_seq = t, pm_payload = p\<rparr>"
    if "Manager_send_loop sendto links ord m = Inr out" "(bs, dst) \<in> set out" for out
    using that
  proof (induction links arbitrary: out)
    case (Cons i links)
    show ?case
    proof (cases "perfect_links m i")
      case None
      with Cons show ?thesis by simp
    next
      case (Some pl)
      with Cons.prems(1) obtain out1 out2 where "PL_SendMessages sendto (ord i) pl = Inr out1"
        "Manager_send_loop sendto links ord m = Inr out2" "out = out1 @ out2"
        by auto
      with PL_SendMessages_sound [of sendto "ord i" pl out1 "(bs, dst)"] Some Cons show ?thesis by fastforce
    qed
  qed simp
  with assms show ?thesis by (auto simp: Manager_SendMessages_def split: if_splits)
qed

text \<open>What a process knows only grows, so a bound at the end of a run holds throughout.\<close>

lemma few_before:
  assumes "few hs (set_proc q a' s)" and "known (mgr s q) \<subseteq> known (app_manager a')"
  shows "few hs s" "q \<in> ids_of hs \<Longrightarrow> card (known (app_manager a')) + 1 < 2 ^ 32"
proof -
  have "card (known (mgr s j)) \<le> card (known (mgr (set_proc q a' s) j))" for j
    using assms(2) by (auto simp: mgr_set_proc intro!: card_mono)
  note le = add_right_mono [OF this, of _ 1]
  have "card (known (mgr (set_proc q a' s) j)) + 1 < 2 ^ 32" if "j \<in> ids_of hs" for j
    using assms(1) that unfolding few_def by blast
  note lt = this and few = le_less_trans [OF le this]
  show "few hs s" unfolding few_def using few by blast
  show "card (known (app_manager a')) + 1 < 2 ^ 32" if "q \<in> ids_of hs"
    using lt [OF that] by (simp only: mgr_set_proc if_True refl)
qed

lemma few_emit [simp]: "few hs (emit src out s) = few hs s"
  by (simp add: few_def emit_def)

lemma exchange_local:
  assumes inv: "few hs s \<Longrightarrow> exchange_inv hs s" and hs: "hosts_ok hs" and h: "h \<in> set hs"
    and mv: "moves ms R (mgr s (h_id h)) (app_manager a')" and few: "few hs (set_proc (h_id h) a' s)"
    and R: "\<And>hj t. exchange_inv hs s \<Longrightarrow> hj \<in> set hs \<Longrightarrow> (h_id hj, t) \<in> R \<Longrightarrow>
       received (set_proc (h_id h) a' s) hj h t"
  shows "exchange_inv hs (set_proc (h_id h) a' s)"
proof -
  note before = few_before [OF few]
  have "known (mgr s (h_id h)) \<subseteq> known (app_manager a')" using mv by (auto simp: moves_def)
  note before = before(1) [OF this] before(2) [OF this imageI [OF h]]
  show ?thesis
    by (rule exchange_moves [OF inv [OF before(1)] hs h mv before(2) R]) (rule inv [OF before(1)])
qed

lemma carries_sender: "carries p i \<Longrightarrow> \<exists>bm. Broadcast_Parse k p = Some bm \<and> bm_id bm = i"
  unfolding carries_def by (metis Broadcast_Serialize_Parse(1) Broadcast_Parse_Serialize
      bcast_message.select_convs(1) bcast_message.surjective bcast_message.update_convs(2))

text \<open>A message that has arrived is counted, now or when it came first.\<close>

lemma received_message:
  assumes ex: "exchange_inv hs s" and h: "h \<in> set hs" "h' \<in> set hs" "h_id h' \<noteq> h_id h"
    and fl: "in_flight s h' h (Msg pm)" and pl: "perfect_links (mgr s (h_id h)) (h_id h') = Some pl"
    and hrd: "\<And>j i. heard (mgr s (h_id h)) j i \<Longrightarrow> heard (app_manager a') j i"
    and new: "\<And>bm. messages_delivered pl (pm_seq pm) = None \<Longrightarrow>
       Broadcast_Parse (h_id h') (pm_payload pm) = Some bm \<Longrightarrow> heard (app_manager a') (h_id h') (bm_id bm)"
  shows "received (set_proc (h_id h) a' s) h' h (pm_seq pm)"
proof (cases "messages_delivered pl (pm_seq pm) = None")
  case True
  have "heard (app_manager a') (h_id h') i" if "carries (pm_payload pm) i" for i
    using carries_sender [OF that, of "h_id h'"] new [OF True] by blast
  moreover have "in_flight s h' h (Msg \<lparr>pm_seq = pm_seq pm, pm_payload = pm_payload pm\<rparr>)"
    using fl by (cases pm) simp
  ultimately show ?thesis unfolding received_def by (auto simp: mgr_set_proc)
next
  case False
  then have "pm_seq pm \<in> dom (messages_delivered pl)" by blast
  with ex h pl have "received s h' h (pm_seq pm)" unfolding exchange_inv_def recv_ok_def by blast
  then show ?thesis by (rule received_set_proc [OF _ hrd])
qed

lemma exchange_receive:
  assumes inv: "sys_inv hs s" and ex: "few hs s \<Longrightarrow> exchange_inv hs s" and hs: "hosts_ok hs"
    and h: "h \<in> set hs" and dg: "(src, host_addr h, bs) \<in> net s"
    and run: "UDPServer_Receive (link_notify now) (Some (bs, src)) (app_server (procs s (h_id h)), mgr s (h_id h)) =
       Inr (srv', m')"
  defines "a' \<equiv> (procs s (h_id h))\<lparr>app_server := srv', app_manager := m'\<rparr>"
  assumes few: "few hs (set_proc (h_id h) a' s)"
  shows "exchange_inv hs (set_proc (h_id h) a' s)"
proof -
  have a': "app_manager a' = m'" by (simp add: a'_def)
  have same: ?thesis if "m' = mgr s (h_id h)"
  proof (rule exchange_local [OF ex hs h _ few])
    show "moves [] {} (mgr s (h_id h)) (app_manager a')"
      by (rule moves_same_links) (simp_all add: a' that)
  qed simp_all
  from inv h dg run show ?thesis
  proof (cases rule: receive_cases)
    case skip
    then show ?thesis by (rule same)
  next
    case (link h' pl)
    have pos: "0 < id_seq (bm_id bm)" if "PL_Parse (take 14 bs) = Some (Msg pm)"
      "Broadcast_Parse (h_id h') (pm_payload pm) = Some bm" for pm bm
      using known_valid [OF sys_inv_proc(3) [OF inv imageI [OF link(1)]] link(8) [OF that]] by simp
    have fl: "in_flight s h' h pkt" if "PL_Parse (take 14 bs) = Some pkt" for pkt
      using dg that unfolding link(2) in_flight_def by blast
    show ?thesis
    proof (rule link_notify_moves [OF link(4-7)], goal_cases)
      case ack: (3 t)
      have "known (mgr s (h_id h)) \<subseteq> known (app_manager a')"
        by (simp add: a' ack(2) known_def update_link_def)
      from ex [OF few_before(1) [OF few this]] show ?thesis
        by (rule exchange_ack [OF _ hs h link(1) not_sym [OF link(3)] fl [OF ack(1)]]) (simp add: a' ack(2))
    next
      case msg: (4 pm ms)
      show ?thesis
      proof (rule exchange_local [OF ex hs h msg(2) [folded a'] few])
        fix hj t assume inv': "exchange_inv hs s" and hj: "hj \<in> set hs" "(h_id hj, t) \<in> {(h_id h', pm_seq pm)}"
        then have "hj = h'" "t = pm_seq pm" using hosts_ok_same(1) [OF hs hj(1) link(1)] by simp_all
        moreover have "heard (mgr s (h_id h)) j i \<Longrightarrow> heard (app_manager a') j i" for j i
          using msg(2) by (simp add: a' moves_def)
        ultimately show "received (set_proc (h_id h) a' s) hj h t"
          using received_message [OF inv' h link(1,3) fl [OF msg(1)] link(5), of a'] msg(3) by (simp add: a')
      qed
    qed (use pos same in blast)+
  qed
qed

text \<open>The turns of the two sender threads.\<close>

lemma exchange_messages:
  assumes inv: "sys_inv hs s" and ex: "exchange_inv hs s" and hs: "hosts_ok hs" and h: "h \<in> set hs"
    and run: "Manager_SendMessages sendto links ord (mgr s (h_id h)) = Inr out"
  shows "exchange_inv hs (emit (host_addr h) out s)"
proof (rule exchange_emit [OF ex hs h])
  show "dom (perfect_links (mgr s (h_id h))) \<subseteq> ids_of hs - {h_id h}"
    using sys_inv_proc(1) [OF inv imageI [OF h]] by (simp add: wired_def)
next
  fix bs dst t p
  assume d: "(bs, dst) \<in> set out" "PL_Parse (take 14 bs) = Some (Msg \<lparr>pm_seq = t, pm_payload = p\<rparr>)"
  from SendMessages_out_link [OF run d(1)] d(2)
  show "\<exists>k pl. perfect_links (mgr s (h_id h)) k = Some pl \<and> dst = pl_target_addr pl \<and> messages_to_send pl t = Some p"
    by auto blast
next
  fix bs hj t
  assume d: "(bs, host_addr hj) \<in> set out" "PL_Parse (take 14 bs) = Some (Ack t)"
  from SendMessages_out_link [OF run d(1)] d(2) show "received s hj h t" by auto
qed

lemma acked_received:
  assumes ex: "exchange_inv hs s" and hs: "hosts_ok hs" and h: "h \<in> set hs" "hj \<in> set hs"
    and dom: "dom (perfect_links (mgr s (h_id h))) \<subseteq> ids_of hs - {h_id h}"
    and pl: "perfect_links (mgr s (h_id h)) j = Some pl" "t \<in> acks_to_send pl" "host_addr hj = pl_target_addr pl"
  shows "received s hj h t"
proof -
  note j = queued_for_peer [OF ex hs h dom pl(1,3)]
  then have "recv_ok s hj h" using ex h unfolding exchange_inv_def by blast
  with pl j(1) show ?thesis by (simp add: recv_ok_def)
qed

lemma take_ack_packet: "take 14 (PL_ack_packet t) = PL_ack_packet t"
  by (simp add: PL_ack_packet_def)

lemma exchange_acks:
  assumes inv: "sys_inv hs s" and ex: "few hs s \<Longrightarrow> exchange_inv hs s" and hs: "hosts_ok hs" and h: "h \<in> set hs"
    and run: "Manager_SendAcks sendto strong now links oa od (mgr s (h_id h)) = (out, m')" and "distinct links"
    and oa: "\<And>j pl. perfect_links (mgr s (h_id h)) j = Some pl \<Longrightarrow> set (oa j) = acks_to_send pl"
    and few: "few hs (set_mgr (h_id h) m' s)"
  shows "exchange_inv hs (emit (host_addr h) out (set_mgr (h_id h) m' s))"
proof (rule exchange_emit [OF _ hs h])
  let ?a = "(procs s (h_id h))\<lparr>app_manager := m'\<rparr>" and ?m = "mgr s (h_id h)"
  have out: "out = fst (Manager_SendAcks sendto strong now links oa od ?m)"
    and m': "m' = snd (Manager_SendAcks sendto strong now links oa od ?m)"
    using run by simp_all
  have mv: "moves [] {} ?m m'" unfolding m' by (rule moves_SendAcks)
  have before: "few hs s" by (rule few_before(1) [OF few]) (use mv in \<open>simp add: moves_def\<close>)
  show "exchange_inv hs (set_mgr (h_id h) m' s)"
    by (rule exchange_local [where ms = "[]" and R = "{}", OF ex hs h _ few]) (use mv in simp_all)
  have wired: "wired hs (h_id h) (procs s (h_id h))" by (rule sys_inv_proc(1) [OF inv imageI [OF h]])
  have "wires m' = wires ?m" using mv by (simp add: moves_def)
  then have "wired hs (h_id h) ?a" by (intro wired_wires [OF wired]) simp_all
  then show "dom (perfect_links (mgr (set_mgr (h_id h) m' s) (h_id h))) \<subseteq> ids_of hs - {h_id h}"
    by (simp add: wired_def mgr_set_proc)
  have src: "\<exists>j pl t. perfect_links ?m j = Some pl \<and> t \<in> acks_to_send pl \<and> dst = pl_target_addr pl \<and>
      PL_Parse (take 14 bs) = Some (Ack t)" if "(bs, dst) \<in> set out" for bs dst
    using SendAcks_out_link [OF that [unfolded out] assms(6) oa] by (fastforce simp: take_ack_packet)
  show "\<exists>k pl. perfect_links (mgr (set_mgr (h_id h) m' s) (h_id h)) k = Some pl \<and>
      dst = pl_target_addr pl \<and> messages_to_send pl t = Some p"
    if "(bs, dst) \<in> set out" "PL_Parse (take 14 bs) = Some (Msg \<lparr>pm_seq = t, pm_payload = p\<rparr>)" for bs dst t p
    using src [OF that(1)] that(2) by auto
  fix bs hj t
  assume d: "(bs, host_addr hj) \<in> set out" "PL_Parse (take 14 bs) = Some (Ack t)" "hj \<in> set hs"
  from src [OF d(1)] d(2) obtain j pl where "perfect_links ?m j = Some pl" "t \<in> acks_to_send pl"
    "host_addr hj = pl_target_addr pl" by auto
  then have "received s hj h t" using acked_received [OF ex [OF before] hs h d(3)] wired by (simp add: wired_def)
  then show "received (set_mgr (h_id h) m' s) hj h t"
    by (rule received_set_proc) (use mv in \<open>simp add: moves_def\<close>)
qed

lemma sys_step_exchange:
  assumes inv: "sys_inv hs s" and ex: "few hs s \<Longrightarrow> exchange_inv hs s" and hs: "hosts_ok hs"
    and step: "sys_step hs s s'" and few: "few hs s'"
  shows "exchange_inv hs s'"
  using step
proof cases
  case (sys_send h q msg m')
  have "urb_inv (mgr s (h_id h))" by (rule sys_inv_proc(3) [OF inv]) (use sys_send(2) in simp)
  then obtain ms where "moves ms {} (mgr s (h_id h)) m'"
    using ufifo_urb.Send_moves [OF sys_send(4)] sys_send(3) by blast
  then show ?thesis
    using exchange_local [OF ex hs sys_send(2), of ms "{}"] few unfolding sys_send(1,3) by simp
next
  case (sys_deliver h q after_pop ids m')
  have "urb_inv (mgr s (h_id h))" by (rule sys_inv_proc(3) [OF inv]) (use sys_deliver(2) in simp)
  moreover have "moves [] {} m m" for m :: ufifo by (rule moves_same_links) simp_all
  ultimately obtain ms where "moves ms {} (mgr s (h_id h)) m'"
    using ufifo_urb.fold_deliver_moves [of after_pop ids "mgr s (h_id h)" m'] sys_deliver(3-7)
    by (auto simp: URB_DeliverPending_def split: if_splits)
  then show ?thesis
    using exchange_local [OF ex hs sys_deliver(2), of ms "{}"] few unfolding sys_deliver(1,3) by simp
next
  case (sys_messages h q sendto links ord out)
  with few have "few hs s" by simp
  from exchange_messages [OF inv ex [OF this] hs] sys_messages show ?thesis by blast
next
  case (sys_acks h q sendto strong now links oa od out m')
  with few have "few hs (set_mgr (h_id h) m' s)" by simp
  from exchange_acks [OF inv ex hs sys_acks(2) _ sys_acks(5) _ this] sys_acks show ?thesis by blast
next
  case (sys_receive h q src bs now srv' m')
  then show ?thesis using exchange_receive [OF inv ex hs sys_receive(2), of src bs now srv' m'] few by simp
qed

section \<open>All reachable states\<close>

lemma sys_init_exchange:
  assumes init: "sys_init hs s" and hs: "hosts_ok hs"
  shows "exchange_inv hs s"
  unfolding exchange_inv_def
proof (intro ballI impI)
  fix hj hk assume h: "hj \<in> set hs" "hk \<in> set hs" and ne: "h_id hj \<noteq> h_id hk"
  have empty: "\<not> in_flight s h h' pkt" for h h' pkt using init by (simp add: in_flight_def sys_init_def)
  have fresh: "perfect_links (mgr s (h_id h)) (h_id h') = Some (PL_Subscribe This_Manager (link_to (h_id h) h')) \<and>
      known (mgr s (h_id h)) = {}" if "h \<in> set hs" "h' \<in> set hs" "h_id h' \<noteq> h_id h" for h h'
  proof -
    from init that(1) obtain os p n where p: "parsed p" "p_hosts p = hs" "p_id p = h_id h" "os_can_open os (p_output_path p)"
      and built: "FIFO_setup os p = Inr (n, procs s (h_id h))"
      unfolding sys_init_def by blast
    have d: "distinct (map h_id (p_hosts p))" "p_id p \<in> h_id ` set (p_hosts p)"
      using hs that(1) p by (simp_all add: hosts_ok_def)
    show ?thesis
      using FIFO_setup_wiring [OF built p(1) d] fifo_manager_running(2) [OF p(4) built p(1)] that p dset.abs_emp
      by (simp add: urb_fresh_def known_def)
  qed
  from fresh [OF h ne [symmetric]] fresh [OF h(2,1) ne] empty
  show "send_ok s hj hk \<and> recv_ok s hj hk"
    by (simp add: send_ok_def recv_ok_def link_sends_def PL_Subscribe_def link_to_def)
qed

lemma reachable_exchange:
  assumes "reachable (sys_init hs) (sys_step hs) s" and "hosts_ok hs" and "few hs s"
  shows "exchange_inv hs s"
  using assms(1,3)
proof (induction rule: reachable.induct)
  case (reachable_init s)
  then show ?case using sys_init_exchange assms(2) by blast
next
  case (reachable_step s t)
  from reachable_sys_inv [OF reachable_step.hyps(1) assms(2)] reachable_step.IH assms(2) reachable_step.hyps(2)
    reachable_step.prems
  show ?case by (rule sys_step_exchange)
qed

text \<open>
  The number of messages broadcast so far by all processes together bounds what any process
  knows.
\<close>

definition broadcasts :: "host list \<Rightarrow> sys \<Rightarrow> nat" where
  "broadcasts hs s = (\<Sum>a \<in> ids_of hs. unat (bc_n_messages_sent (mgr s a)) - 1)"

lemma known_own:
  assumes inv: "sys_inv hs s" and q: "q \<in> ids_of hs" and i: "i \<in> known (mgr s q)"
  shows "id_author i \<in> ids_of hs" "i \<in> known (mgr s (id_author i))" "0 < id_seq i"
    "id_seq i < bc_n_messages_sent (mgr s (id_author i))"
proof -
  show a: "id_author i \<in> ids_of hs" "i \<in> known (mgr s (id_author i))"
    using sys_inv_proc(4) [OF inv q i] by (simp_all add: knowers_def)
  show "0 < id_seq i" using known_valid [OF sys_inv_proc(3) [OF inv q] i] by simp
  show "id_seq i < bc_n_messages_sent (mgr s (id_author i))"
    using sys_inv_proc(1,3) [OF inv a(1)] a(2) by (simp add: wired_def urb_inv_def own_ok_def)
qed

lemma known_broadcasts:
  assumes inv: "sys_inv hs s" and q: "q \<in> ids_of hs"
  shows "finite (known (mgr s q))" "card (known (mgr s q)) \<le> broadcasts hs s"
proof -
  let ?own = "\<lambda>a. {1 ..< unat (bc_n_messages_sent (mgr s a))}"
  let ?id = "\<lambda>i. (id_author i, unat (id_seq i))"
  have inj: "inj_on ?id (known (mgr s q))"
    by (auto simp: inj_on_def word_unat_eq_iff intro: msg_id.expand)
  have sub: "?id ` known (mgr s q) \<subseteq> Sigma (ids_of hs) ?own"
    using known_own [OF inv q] by (auto simp: word_less_nat_alt Suc_le_eq)
  have fin: "finite (Sigma (ids_of hs) ?own)" by simp
  show "finite (known (mgr s q))" by (rule inj_on_finite [OF inj sub fin])
  have "card (known (mgr s q)) \<le> card (Sigma (ids_of hs) ?own)" by (rule card_inj_on_le [OF inj sub fin])
  then show "card (known (mgr s q)) \<le> broadcasts hs s" by (simp add: broadcasts_def)
qed

lemma few_broadcasts:
  assumes "sys_inv hs s" and "broadcasts hs s + 1 < 2 ^ 32"
  shows "few hs s"
  unfolding few_def using known_broadcasts(2) [OF assms(1)] assms(2) by fastforce

end
