(* ===== verification/System_Agreement.thy ===== *)
theory System_Agreement
  imports Link_Exchange
begin

text \<open>
  What the processes of the system promise together: uniform reliable broadcast in FIFO order,
  read off the logs of the processes.
\<close>

section \<open>Echoes are known\<close>

definition acked_known :: "'a urb_scheme \<Rightarrow> bool" where
  "acked_known u \<longleftrightarrow> (\<forall>i. acks_of u i \<noteq> {} \<longrightarrow> i \<in> known u)"

lemma acked_known_mono:
  assumes "acked_known u" and "known u \<subseteq> known u'" and "\<And>i. acks_of u' i \<subseteq> acks_of u i"
  shows "acked_known u'"
  using assms unfolding acked_known_def by blast

lemma acked_known_step:
  assumes ack: "acked_known u" and inv: "urb_inv u" and pop: "reads_front after_pop"
    and step: "urb_step ufifo_vt after_pop u u'"
  shows "acked_known u'"
proof -
  have same: "acked_known u'" if "same_protocol u u'"
    by (rule acked_known_mono [OF ack]) (use that in \<open>simp_all add: same_protocol_def known_def acks_of_def\<close>)
  from step show ?thesis
  proof (cases rule: urb_step.cases)
    case (step_send msg)
    note loc = ufifo_urb.Send_local [OF step_send(1)]
    show ?thesis by (rule acked_known_mono [OF ack]) (use loc in \<open>simp_all add: local_step_def\<close>)
  next
    case (step_notify msg)
    note loc = ufifo_urb.Notify_local [OF step_notify(1)]
    have "bm_id msg \<in> known u'"
      using step_notify by (cases rule: ufifo_urb.Notify_cases)
        (auto simp: same_urb_def known_def honest_def set_Contains_abs valid_id_def)
    moreover have "i \<in> known u'" if "acks_of u' i \<noteq> {}" "i \<noteq> bm_id msg" for i
    proof -
      have "acks_of u i \<noteq> {}" using loc(2) [of i] that by auto
      with ack have "i \<in> known u" by (simp add: acked_known_def)
      with loc(1) show ?thesis by (auto simp: local_step_def)
    qed
    ultimately show ?thesis unfolding acked_known_def by blast
  next
    case (step_deliver ids)
    show ?thesis
    proof (cases "on u")
      case True
      with step_deliver have "fold_result (URB_deliver_one ufifo_vt after_pop) ids u = Inr u'"
        by (simp add: URB_DeliverPending_def)
      from ufifo_urb.fold_deliver_local [OF this inv step_deliver(2) _ pop] step_deliver(3)
      show ?thesis by (intro acked_known_mono [OF ack]) (simp_all add: local_step_def)
    qed (use step_deliver ack in \<open>simp add: URB_DeliverPending_def\<close>)
  qed (use same same_protocol_steps in metis)+
qed

interpretation ufifo_acks: invariant ufifo_started ufifo_next "\<lambda>u. urb_inv u \<and> own_all u \<and> fifo_sync u \<and> acked_known u"
proof unfold_locales
  fix u assume "ufifo_started u"
  moreover from this have "urb_fresh u"
    unfolding ufifo_started_def using urb_fresh_Adds [OF urb_fresh_UFIFO_init] by blast
  then have "acked_known u" by (simp add: acked_known_def acks_of_def urb_fresh_def)
  ultimately show "urb_inv u \<and> own_all u \<and> fifo_sync u \<and> acked_known u" using ufifo_started_inv by blast
next
  fix u u' assume "urb_inv u \<and> own_all u \<and> fifo_sync u \<and> acked_known u" and "ufifo_next u u'"
  then show "urb_inv u' \<and> own_all u' \<and> fifo_sync u' \<and> acked_known u'"
    using ufifo_runs.inv_step acked_known_step unfolding ufifo_next_def by metis
qed

section \<open>Reading the log\<close>

lemma logged_iff_delivered:
  assumes "reachable ufifo_started ufifo_next u"
  shows "deliver_line a s \<in> set (lg_lines (mgr_logger u)) \<longleftrightarrow>
    0 < s \<and> (\<forall>s'. 0 < s' \<and> s' \<le> s \<longrightarrow> Msg_Id s' a \<in> set_abs (delivered u))"
proof -
  have sync: "fifo_sync u" using ufifo_runs.reachable_inv [OF assms] by simp
  then have order: "ufifo.log_in_order u" by (simp add: fifo_sync_def)
  have "0 < s" if "deliver_line a s \<in> set (lg_lines (mgr_logger u))"
  proof -
    from that have "deliver_line a s \<in> set (author_lines a (mgr_logger u))" by (simp add: author_lines_def)
    with order show ?thesis by (auto simp: ufifo.log_in_order_def)
  qed
  with ufifo.logged_iff_prefix [OF order, of s a] sync show ?thesis by (auto simp: fifo_sync_def)
qed

section \<open>Settled systems\<close>

text \<open>
  The processes \<open>C\<close> have settled: no message between two of them waits for an
  acknowledgement, and none of them has a pending message that a majority has seen.
\<close>

definition settled :: "u32 set \<Rightarrow> sys \<Rightarrow> bool" where
  "settled C s \<longleftrightarrow>
     (\<forall>j \<in> C. \<forall>k \<in> C. \<forall>pl. perfect_links (mgr s j) k = Some pl \<longrightarrow> messages_to_send pl = Map.empty) \<and>
     (\<forall>k \<in> C. \<forall>i \<in> pending_for_delivery (mgr s k). \<not> majority_seen (mgr s k) i)"

text \<open>The set of correct processes is a majority.\<close>

definition majority :: "host list \<Rightarrow> u32 set \<Rightarrow> bool" where
  "majority hs C \<longleftrightarrow> C \<subseteq> ids_of hs \<and> length hs div 2 < card C"

lemma majority_meets:
  assumes "majority hs C" and "A \<subseteq> ids_of hs" and "length hs div 2 < card A"
  shows "C \<inter> A \<noteq> {}"
proof
  assume "C \<inter> A = {}"
  then have "card C + card A \<le> card (ids_of hs)"
    using assms by (metis card_Un_disjoint card_mono finite_imageI finite_set finite_subset le_sup_iff majority_def)
  also have "\<dots> \<le> length hs" by (metis card_image_le card_length finite_set le_trans)
  finally have "card C + card A \<le> length hs" .
  moreover have "length hs div 2 < card C" using assms(1) by (simp add: majority_def)
  ultimately show False using assms(3) by linarith
qed

lemma settled_heard:
  assumes ex: "exchange_inv hs s" and inv: "sys_inv hs s" and C: "majority hs C" and settled: "settled C s"
    and jk: "j \<in> C" "k \<in> C" "j \<noteq> k" and i: "i \<in> known (mgr s j)"
  shows "heard (mgr s k) j i"
proof -
  from C jk obtain hj hk where h: "hj \<in> set hs" "j = h_id hj" "hk \<in> set hs" "k = h_id hk"
    unfolding majority_def by blast
  have "k \<in> dom (perfect_links (mgr s j))"
    using sys_inv_proc(1) [OF inv, of j] h jk(3) by (simp add: wired_def)
  then obtain pl where pl: "perfect_links (mgr s j) k = Some pl" by blast
  with ex h jk(3) have "link_sends s hj hk pl" unfolding exchange_inv_def send_ok_def by blast
  moreover have "messages_to_send pl = Map.empty" using settled pl jk unfolding settled_def by blast
  ultimately show ?thesis using i h by (auto simp: link_sends_def)
qed

text \<open>What one of them knows, all of them have delivered.\<close>

lemma settled_delivered:
  assumes ex: "exchange_inv hs s" and inv: "sys_inv hs s" and hs: "hosts_ok hs"
    and C: "majority hs C" and settled: "settled C s" and c: "c \<in> C" "i \<in> known (mgr s c)" and k: "k \<in> C"
  shows "i \<in> set_abs (delivered (mgr s k))"
proof -
  have ids: "j \<in> ids_of hs" if "j \<in> C" for j using C that by (auto simp: majority_def)
  have known: "i \<in> known (mgr s j)" if "j \<in> C" for j
  proof (cases "j = c")
    case False
    from settled_heard [OF ex inv C settled c(1) that not_sym [OF False] c(2)]
      ufifo_acks.reachable_inv [OF sys_inv_proc(2) [OF inv ids [OF that]]]
    show ?thesis by (auto simp: heard_def acked_known_def known_def)
  qed (use c(2) in simp)
  show ?thesis
  proof (rule ccontr)
    assume not: "i \<notin> set_abs (delivered (mgr s k))"
    have "C - {k} \<subseteq> acks_of (mgr s k) i"
      using settled_heard [OF ex inv C settled _ k _ known] not by (auto simp: heard_def)
    moreover have "finite (acks_of (mgr s k) i)" by simp
    ultimately have "card (C - {k}) \<le> card (acks_of (mgr s k) i)" by (rule card_mono [rotated])
    moreover have "card (C - {k}) = card C - 1" using k by simp
    moreover have "unat (n_processes (mgr s k)) = length hs"
      using sys_inv_proc(1) [OF inv ids [OF k]] hs by (simp add: wired_def hosts_ok_def unat_of_nat)
    ultimately have "majority_seen (mgr s k) i" using C unfolding majority_def by linarith
    moreover have "i \<in> pending_for_delivery (mgr s k)" using known [OF k] not by (simp add: known_def)
    ultimately show False using settled k by (auto simp: settled_def)
  qed
qed

text \<open>All messages that one of them has broadcast are in the network.\<close>

lemma settled_queue:
  assumes ex: "exchange_inv hs s" and inv: "sys_inv hs s" and hs: "hosts_ok hs"
    and C: "majority hs C" and settled: "settled C s" and c: "c \<in> C"
  shows "own_pending_for_broadcast (mgr s c) = []"
proof -
  let ?m = "mgr s c"
  have "c \<in> ids_of hs" using C c by (auto simp: majority_def)
  note r = ufifo_runs.reachable_inv [OF sys_inv_proc(2) [OF inv this]]
  have "own_in_network ?m = {}"
  proof (rule ccontr)
    assume "own_in_network ?m \<noteq> {}"
    then obtain i where "i \<in> pending_for_delivery ?m" by (auto simp: own_in_network_def)
    moreover from this have "i \<in> known ?m" by (simp add: known_def)
    then have "i \<in> set_abs (delivered ?m)" by (rule settled_delivered [OF ex inv hs C settled c _ c])
    ultimately show False using r by (auto simp: urb_inv_def delivery_ok_def)
  qed
  then show ?thesis using r by (auto simp: urb_inv_def window_ok_def word_less_nat_alt)
qed

lemma settled_own:
  assumes ex: "exchange_inv hs s" and inv: "sys_inv hs s" and hs: "hosts_ok hs"
    and C: "majority hs C" and settled: "settled C s" and c: "c \<in> C"
    and n: "0 < n" "n < bc_n_messages_sent (mgr s c)"
  shows "Msg_Id n c \<in> known (mgr s c)"
proof -
  have ids: "c \<in> ids_of hs" using C c by (auto simp: majority_def)
  have "bc_id (mgr s c) = c" using sys_inv_proc(1) [OF inv ids] by (simp add: wired_def)
  with settled_queue [OF ex inv hs C settled c] ufifo_runs.reachable_inv [OF sys_inv_proc(2) [OF inv ids]] n
  show ?thesis by (auto simp: own_all_def)
qed

end
