(* ===== verification/System_Progress.thy ===== *)
theory System_Progress
  imports System_Agreement
begin

text \<open>
  Progress: from every reachable state the processes of a majority can settle, whatever the
  other processes do or fail to do. Together with the agreement theorem this says that no run
  can reach a state in which agreement has become impossible.
\<close>

section \<open>Processes keep running\<close>

text \<open>A step that neither stops the object nor hands out a number nor queues an own message.\<close>

definition carries_on :: "'a urb_scheme \<Rightarrow> 'a urb_scheme \<Rightarrow> bool" where
  "carries_on m m' \<longleftrightarrow> on m' = on m \<and> bc_n_messages_sent m' = bc_n_messages_sent m \<and>
     set (own_pending_for_broadcast m') \<subseteq> set (own_pending_for_broadcast m)"

lemma carries_on_refl [simp]: "carries_on m m"
  by (simp add: carries_on_def)

lemma carries_on_trans: "carries_on a b \<Longrightarrow> carries_on b c \<Longrightarrow> carries_on a c"
  by (auto simp: carries_on_def)

lemma carries_on_quiet:
  assumes "quiet m m'"
  shows "carries_on m m'"
proof -
  from assms have m': "m' = m\<lparr>perfect_links := perfect_links m'\<rparr>" by (simp add: quiet_def)
  have "on m' = on m" by (subst m') simp
  moreover have "bc_n_messages_sent m' = bc_n_messages_sent m" by (subst m') simp
  moreover have "own_pending_for_broadcast m' = own_pending_for_broadcast m" by (subst m') simp
  ultimately show ?thesis by (simp add: carries_on_def)
qed

context urb_class
begin

lemma Send_on: "URB_Send vt msg u = Inr u' \<Longrightarrow> on u' = on u"
  by (erule Send_cases) (simp_all add: same_urb_def)

lemma Notify_carries_on: "vt_NotifyInternal vt msg u = Inr u' \<Longrightarrow> carries_on u u'"
  by (erule Notify_cases) (simp_all add: same_urb_def carries_on_def)

lemma deliver_one_carries_on:
  assumes "URB_deliver_one vt after_pop i u = Inr u'"
  shows "carries_on u u'"
  using assms
proof (cases rule: deliver_one_cases)
  case (deliver u1)
  have "same_urb (u1\<lparr>delivered := DeliveredSet_Insert i (delivered u1), acks := (acks u1)(i := None)\<rparr>) u'"
    unfolding deliver(4) by (rule vt_deliver)
  moreover have "carries_on u u1"
    using deliver(3) by (cases rule: move_window_cases) (auto simp: carries_on_def)
  ultimately show ?thesis by (simp add: same_urb_def carries_on_def)
qed (simp add: carries_on_def)

lemma fold_deliver_carries_on:
  assumes "fold_result (URB_deliver_one vt after_pop) ids u = Inr u'"
  shows "carries_on u u'"
  using assms by (induction ids arbitrary: u) (auto intro: carries_on_trans deliver_one_carries_on)

lemma Notify_total:
  assumes "length (bm_payload msg) \<le> 1"
  shows "\<exists>u'. vt_NotifyInternal vt msg u = Inr u'"
  using assms
  by (simp add: vt_notify URB_NotifyInternal_def BEB_NotifyInternal_def BEB_SendInternal_eq Let_def)

end

lemma link_notify_carries_on:
  assumes "link_notify now j bs m = Inr m'" and "perfect_links m j = Some pl"
    and "pl_target_id pl = j" and "managers pl = [This_Manager]"
  shows "carries_on m m'"
  using assms
proof (cases rule: link_notify_cases)
  case links
  then show ?thesis by (rule carries_on_quiet)
next
  case (notify pm bm m1 m2)
  then show ?thesis
    using carries_on_quiet ufifo_urb.Notify_carries_on carries_on_trans by metis
qed

lemma link_notify_total:
  assumes "perfect_links m j = Some pl" and "pl_target_id pl = j" and "managers pl = [This_Manager]"
    and "length bs \<le> 14"
  shows "\<exists>m'. link_notify now j bs m = Inr m'"
proof (cases "PL_Parse bs")
  case None
  with assms show ?thesis by (simp add: link_notify_def PL_Notify_def)
next
  case (Some packet)
  show ?thesis
  proof (cases packet)
    case (Ack a)
    with Some assms show ?thesis by (simp add: link_notify_def PL_Notify_def)
  next
    case (Msg pm)
    then have "length (pm_payload pm) \<le> 9" using PL_Parse_MsgD [of bs pm] Some assms(4) by simp
    then have "\<exists>m'. Broadcast_Notify ufifo_vt j pm m1 = Inr m'" for m1 :: ufifo
    proof (cases "Broadcast_Parse j (pm_payload pm)")
      case bm: (Some bm)
      then have "length (bm_payload bm) \<le> 1"
        using \<open>length (pm_payload pm) \<le> 9\<close> length_Broadcast_Serialize [of bm]
        unfolding Broadcast_Serialize_Parse(1) [OF bm] by simp
      with bm show ?thesis using ufifo_urb.Notify_total by (simp add: Broadcast_Notify_def)
    qed (simp add: Broadcast_Notify_def)
    then obtain m2 where "Broadcast_Notify ufifo_vt j pm (update_link j
        (\<lambda>pl. pl\<lparr>acks_to_send := insert (pm_seq pm) (acks_to_send pl)\<rparr>) m) = Inr m2" by blast
    with Some Msg assms show ?thesis by (simp add: link_notify_def PL_Notify_def Let_def)
  qed
qed

text \<open>After a message has arrived, its acknowledgement is due.\<close>

lemma link_notify_ack_due:
  assumes "link_notify now j bs m = Inr m'" and "perfect_links m j = Some pl"
    and "pl_target_id pl = j" and "managers pl = [This_Manager]" and "PL_Parse bs = Some (Msg pm)"
  obtains pl' where "perfect_links m' j = Some pl'" "pm_seq pm \<in> acks_to_send pl'"
proof -
  let ?m1 = "update_link j (\<lambda>pl. pl\<lparr>acks_to_send := insert (pm_seq pm) (acks_to_send pl)\<rparr>) m"
  from assms obtain m2 where m': "m' = update_link j
      (\<lambda>pl. pl\<lparr>messages_delivered := (messages_delivered pl)(pm_seq pm \<mapsto> now)\<rparr>) m2"
    and m2: "m2 = ?m1 \<or> Broadcast_Notify ufifo_vt j pm ?m1 = Inr m2"
    by (auto simp: link_notify_def PL_Notify_def Let_def split: if_splits)
  have "same_receivers ?m1 m2"
    using m2 by (auto simp: Broadcast_Notify_def split: option.splits intro: ufifo_urb.class_notify_receivers)
  then have "rel_option same_receiver (perfect_links ?m1 j) (perfect_links m2 j)"
    unfolding same_receivers_def by blast
  then obtain pl2 where "perfect_links m2 j = Some pl2" "acks_to_send pl2 = insert (pm_seq pm) (acks_to_send pl)"
    using assms(2) by (auto simp: same_receiver_def option_rel_Some1)
  then show ?thesis
    by (intro that [of "pl2\<lparr>messages_delivered := (messages_delivered pl2)(pm_seq pm \<mapsto> now)\<rparr>"]) (simp_all add: m')
qed

definition serving :: "host list \<Rightarrow> sys \<Rightarrow> bool" where
  "serving hs s \<longleftrightarrow> (\<forall>q \<in> ids_of hs. on (mgr s q) \<and> srv_on (app_server (procs s q)))"

lemma servingD:
  assumes "serving hs s" and "h \<in> set hs"
  shows "on (mgr s (h_id h))" "srv_on (app_server (procs s (h_id h)))"
  using assms by (auto simp: serving_def)

lemma receive_srv_on:
  "UDPServer_Receive notify d (srv, m) = Inr (srv', m') \<Longrightarrow> srv_on srv' = srv_on srv"
  by (auto simp: UDPServer_Receive_def Let_def NotifyAll_eq split: option.splits if_splits)

lemma serving_update:
  assumes "serving hs s" and "on (app_manager a') = on (mgr s q)"
    and "srv_on (app_server a') = srv_on (app_server (procs s q))"
  shows "serving hs (set_proc q a' s)"
  using assms by (auto simp: serving_def set_proc_def)

lemma serving_emit [simp]: "serving hs (emit src out s) = serving hs s"
  by (simp add: serving_def emit_def)

lemma sys_step_serving:
  assumes inv: "sys_inv hs s" and srv: "serving hs s" and step: "sys_step hs s s'"
  shows "serving hs s'"
  using step
proof cases
  case (sys_send h q msg m')
  then show ?thesis using srv by (auto intro!: serving_update ufifo_urb.Send_on)
next
  case (sys_deliver h q after_pop ids m')
  then have "on m' = on (mgr s q)"
    using ufifo_urb.fold_deliver_carries_on by (auto simp: URB_DeliverPending_def carries_on_def split: if_splits)
  then show ?thesis unfolding sys_deliver(1) using srv by (intro serving_update) simp_all
next
  case sys_messages
  with srv show ?thesis by simp
next
  case (sys_acks h q sendto strong now links oa od out m')
  have "on m' = on (mgr s q)"
    using carries_on_quiet [OF quiet_SendAcks [of "mgr s q" sendto strong now links oa od]] sys_acks(4)
    by (simp add: carries_on_def)
  then show ?thesis using srv unfolding sys_acks(1) serving_emit by (intro serving_update) simp_all
next
  case (sys_receive h q src bs now srv' m')
  have run: "UDPServer_Receive (link_notify now) (Some (bs, src)) (app_server (procs s (h_id h)), mgr s (h_id h)) =
      Inr (srv', m')" using sys_receive(3,5) by simp
  have "on m' = on (mgr s (h_id h))"
    using inv sys_receive(2,4) run
  proof (cases rule: receive_cases)
    case (link h' pl)
    from link_notify_carries_on [OF link(4-7)] show ?thesis by (simp add: carries_on_def)
  qed simp
  then show ?thesis
    unfolding sys_receive(1,3) using srv receive_srv_on [OF run] by (intro serving_update) simp_all
qed

lemma FIFO_setup_serving:
  "FIFO_setup os p = Inr (n, a) \<Longrightarrow> parsed p \<Longrightarrow> on (app_manager a) \<and> srv_on (app_server a)"
  by (auto simp: FIFO_setup_cases split: sum.splits if_splits)

lemma reachable_serving:
  assumes "reachable (sys_init hs) (sys_step hs) s" and "hosts_ok hs"
  shows "serving hs s"
  using assms(1)
proof (induction rule: reachable.induct)
  case (reachable_init s)
  show ?case
    unfolding serving_def
  proof
    fix q assume "q \<in> ids_of hs"
    with reachable_init obtain os p n where p: "parsed p" "FIFO_setup os p = Inr (n, procs s q)"
      unfolding sys_init_def by blast
    then show "on (mgr s q) \<and> srv_on (app_server (procs s q))" using FIFO_setup_serving by blast
  qed
next
  case (reachable_step s t)
  then show ?case using sys_step_serving reachable_sys_inv assms(2) by blast
qed

section \<open>Steps that can be taken\<close>

lemma can_send:
  assumes "h \<in> set hs" and "on (mgr s (h_id h))" and "perfect_links (mgr s (h_id h)) k = Some pl"
    and "messages_to_send pl t = Some p" and "length p \<le> 9"
  shows "sys_step hs s (emit (host_addr h) [(PL_Serialize \<lparr>pm_seq = t, pm_payload = p\<rparr>, pl_target_addr pl)] s)"
proof (rule sys_messages [OF assms(1) refl])
  show "Manager_SendMessages (\<lambda>_ _. Inr 0) [k] (\<lambda>_. [t]) (mgr s (h_id h)) =
      Inr [(PL_Serialize \<lparr>pm_seq = t, pm_payload = p\<rparr>, pl_target_addr pl)]"
    using assms(2-5) by (simp add: Manager_SendMessages_def PL_SendMessages_def write_buffer_def try_send_def)
qed

lemma can_ack:
  assumes "h \<in> set hs" and "on (mgr s (h_id h))" and "perfect_links (mgr s (h_id h)) k = Some pl"
    and "t \<in> acks_to_send pl"
  obtains out where "sys_step hs s (emit (host_addr h) out s)" "(PL_ack_packet t, pl_target_addr pl) \<in> set out"
proof -
  let ?m = "mgr s (h_id h)"
  define oa where "oa j = (SOME xs. \<forall>pl. perfect_links ?m j = Some pl \<longrightarrow> set xs = acks_to_send pl)" for j
  have oa: "set (oa j) = acks_to_send pl" if "perfect_links ?m j = Some pl" for j pl
  proof -
    obtain xs where "set xs = acks_to_send pl" using finite_list [of "acks_to_send pl"] by auto
    with that have "\<exists>xs. \<forall>pl. perfect_links ?m j = Some pl \<longrightarrow> set xs = acks_to_send pl" by auto
    then have "\<forall>pl. perfect_links ?m j = Some pl \<longrightarrow> set (oa j) = acks_to_send pl"
      unfolding oa_def by (rule someI_ex)
    with that show ?thesis by blast
  qed
  let ?out = "map (\<lambda>a. (PL_ack_packet a, pl_target_addr pl)) (oa k)"
  have clean: "PL_CleanAcks True 0 [] pl = pl" by (simp add: PL_CleanAcks_def acks_to_remove_def)
  have "update_link k (\<lambda>_. pl) ?m = ?m"
    using assms(3) by (simp add: update_link_def fun_upd_idem)
  moreover have "concat (map (\<lambda>a. try_send (\<lambda>_ _. Inr 0) (PL_ack_packet a, pl_target_addr pl)) xs) =
      map (\<lambda>a. (PL_ack_packet a, pl_target_addr pl)) xs" for xs
    by (induction xs) (simp_all add: try_send_def)
  ultimately have run: "Manager_SendAcks (\<lambda>_ _. Inr 0) True 0 [k] oa (\<lambda>_. []) ?m = (?out, ?m)"
    using assms(2-4) by (auto simp: Manager_SendAcks_def PL_SendAcks_def clean Let_def)
  from sys_acks [OF assms(1) refl run _ oa] have "sys_step hs s (emit (host_addr h) ?out (set_mgr (h_id h) ?m s))"
    by simp
  moreover have "set_mgr (h_id h) ?m s = s" by (simp add: set_proc_def)
  ultimately show ?thesis using that [of ?out] oa [OF assms(3)] assms(4) by auto
qed

lemma wired_link:
  assumes "wired hs q a" and "j \<in> ids_of hs" and "j \<noteq> q"
  obtains pl where "perfect_links (app_manager a) j = Some pl" "pl_target_id pl = j" "managers pl = [This_Manager]"
proof -
  have "j \<in> dom (perfect_links (app_manager a))" using assms by (simp add: wired_def)
  then obtain pl where "perfect_links (app_manager a) j = Some pl" by blast
  with that assms(1) show ?thesis by (simp add: wired_def)
qed

lemma can_receive:
  assumes inv: "sys_inv hs s" and srv: "serving hs s" and h: "h \<in> set hs" "h' \<in> set hs" "h_id h' \<noteq> h_id h"
    and dg: "(host_addr h', host_addr h, bs) \<in> net s" and bs: "0 < length bs" "length bs \<le> 14"
  obtains a' pl where "sys_step hs s (set_proc (h_id h) a' s)" "link_notify 0 (h_id h') bs (mgr s (h_id h)) = Inr (app_manager a')"
    "perfect_links (mgr s (h_id h)) (h_id h') = Some pl" "pl_target_id pl = h_id h'" "managers pl = [This_Manager]"
proof -
  let ?p = "procs s (h_id h)"
  have q: "h_id h \<in> ids_of hs" using h(1) by simp
  note w = sys_inv_proc(1) [OF inv q]
  obtain pl where pl: "perfect_links (mgr s (h_id h)) (h_id h') = Some pl" "pl_target_id pl = h_id h'"
    "managers pl = [This_Manager]"
    using wired_link [OF w _ h(3)] h(2) by blast
  from link_notify_total [OF pl bs(2)] obtain m' where m': "link_notify 0 (h_id h') bs (mgr s (h_id h)) = Inr m'" by blast
  have "observers_at (app_server ?p) (host_addr h') = [h_id h']" using w h by (simp add: wired_def)
  then have all: "fold_result (\<lambda>obs. link_notify 0 obs bs) (observers_at (app_server ?p) (host_addr h')) (mgr s (h_id h)) = Inr m'"
    using m' by simp
  obtain srv' where "UDPServer_NotifyAll (link_notify 0) bs (host_addr h') (app_server ?p, mgr s (h_id h)) = Inr (srv', m')"
    using all by (simp add: NotifyAll_eq)
  then have "UDPServer_Receive (link_notify 0) (Some (bs, host_addr h')) (app_server ?p, mgr s (h_id h)) = Inr (srv', m')"
    using servingD(2) [OF srv h(1)] bs by (simp add: UDPServer_Receive_def UDP_SERVER_MAX_MSG_SIZE_def)
  from sys_receive [OF h(1) refl dg this] show ?thesis by (rule that [OF _ _ pl]) (simp add: m')
qed

section \<open>Exchanges\<close>

text \<open>States from which a majority can go on: the numbers do not wrap and the messages fit the buffer.\<close>

definition healthy :: "host list \<Rightarrow> u32 set \<Rightarrow> sys \<Rightarrow> bool" where
  "healthy hs C s \<longleftrightarrow> reachable (sys_init hs) (sys_step hs) s \<and> broadcasts hs s + 1 < 2 ^ 32 \<and>
     (\<forall>k \<in> C. sendable (mgr s k))"

text \<open>A run in which only processes of \<open>C\<close> take part and nobody broadcasts.\<close>

definition advances :: "host list \<Rightarrow> u32 set \<Rightarrow> sys \<Rightarrow> sys \<Rightarrow> bool" where
  "advances hs C s s' \<longleftrightarrow> (sys_step hs)\<^sup>*\<^sup>* s s' \<and> (\<forall>q. carries_on (mgr s q) (mgr s' q)) \<and>
     (\<forall>q. q \<notin> C \<longrightarrow> procs s' q = procs s q)"

lemma advances_refl [simp]: "advances hs C s s"
  by (simp add: advances_def)

lemma advances_trans: "advances hs C a b \<Longrightarrow> advances hs C b c \<Longrightarrow> advances hs C a c"
  unfolding advances_def by (auto intro: rtranclp_trans carries_on_trans)

lemma advances_emit: "sys_step hs s (emit src out s) \<Longrightarrow> advances hs C s (emit src out s)"
  by (auto simp: advances_def emit_def)

lemma advances_set_proc:
  assumes "sys_step hs s (set_proc q a' s)" and "carries_on (mgr s q) (app_manager a')" and "q \<in> C"
  shows "advances hs C s (set_proc q a' s)"
  using assms by (auto simp: advances_def set_proc_def)

lemma healthy_advances:
  assumes "healthy hs C s" and "advances hs C s s'"
  shows "healthy hs C s'"
proof -
  have "broadcasts hs s' = broadcasts hs s"
    using assms(2) by (simp add: broadcasts_def advances_def carries_on_def)
  moreover have "sendable (mgr s' k)" if "sendable (mgr s k)" for k
    using that assms(2) by (auto simp: sendable_def advances_def carries_on_def)
  ultimately show ?thesis
    using assms reachable_steps unfolding healthy_def advances_def by metis
qed

lemma healthy_invs:
  assumes "healthy hs C s" and "hosts_ok hs"
  shows "sys_inv hs s" "exchange_inv hs s" "serving hs s"
proof -
  have r: "reachable (sys_init hs) (sys_step hs) s" using assms(1) by (simp add: healthy_def)
  show inv: "sys_inv hs s" by (rule reachable_sys_inv [OF r assms(2)])
  show "serving hs s" by (rule reachable_serving [OF r assms(2)])
  have "broadcasts hs s + 1 < 2 ^ 32" using assms(1) unfolding healthy_def by blast
  then show "exchange_inv hs s" by (rule reachable_exchange [OF r assms(2) few_broadcasts [OF inv]])
qed

text \<open>A queued message is sent and received; then the receiver owes an acknowledgement.\<close>

lemma push:
  assumes ok: "healthy hs C s" and hs: "hosts_ok hs" and hj: "hj \<in> set hs"
    and hk: "hk \<in> set hs" "h_id hk \<in> C" and ne: "h_id hj \<noteq> h_id hk"
    and pl: "perfect_links (mgr s (h_id hj)) (h_id hk) = Some pl" and p: "messages_to_send pl t = Some p"
  obtains s' ms R pl' where "advances hs C s s'" "moves ms R (mgr s (h_id hk)) (mgr s' (h_id hk))"
    "\<And>q. q \<noteq> h_id hk \<Longrightarrow> mgr s' q = mgr s q"
    "perfect_links (mgr s' (h_id hk)) (h_id hj) = Some pl'" "t \<in> acks_to_send pl'"
proof -
  let ?j = "h_id hj" and ?k = "h_id hk"
  let ?msg = "PL_Serialize \<lparr>pm_seq = t, pm_payload = p\<rparr>"
  note inv = healthy_invs [OF ok hs]
  have j: "?j \<in> ids_of hs" using hj by simp
  have ls: "link_sends s hj hk pl" using inv(2) hj hk(1) ne pl unfolding exchange_inv_def send_ok_def by blast
  then have addr: "pl_target_addr pl = host_addr hk" and len: "length p \<le> 9"
    using p by (auto simp: link_sends_def ran_def)
  have pos: "0 < id_seq (bm_id bm)" if "Broadcast_Parse x p = Some bm" for x bm
  proof -
    have "p \<in> queued (mgr s ?j)" using pl p by (auto simp: queued_def)
    with inv(1) j that have "bm_id bm \<in> known (mgr s ?j)" unfolding sys_inv_def proc_ok_def by metis
    with known_valid [OF sys_inv_proc(3) [OF inv(1) j]] show ?thesis by simp
  qed
  define s1 where "s1 = emit (host_addr hj) [(?msg, host_addr hk)] s"
  have a1: "advances hs C s s1"
    unfolding s1_def by (rule advances_emit)
      (use can_send [OF hj servingD(1) [OF inv(3) hj] pl p len] in \<open>simp add: addr\<close>)
  have m1: "procs s1 = procs s" by (simp add: s1_def emit_def)
  note inv1 = healthy_invs [OF healthy_advances [OF ok a1] hs]
  have msg: "(host_addr hj, host_addr hk, ?msg) \<in> net s1" "0 < length ?msg" "length ?msg \<le> 14"
    using len by (simp_all add: s1_def emit_def)
  obtain a2 pl2 where s2: "sys_step hs s1 (set_proc ?k a2 s1)"
    "link_notify 0 ?j ?msg (mgr s1 ?k) = Inr (app_manager a2)"
    and pl2: "perfect_links (mgr s1 ?k) ?j = Some pl2" "pl_target_id pl2 = ?j" "managers pl2 = [This_Manager]"
    by (rule can_receive [OF inv1(1,3) hk(1) hj ne msg])
  obtain ms R where mv: "moves ms R (mgr s1 ?k) (app_manager a2)"
  proof (rule link_notify_moves [OF s2(2) pl2], goal_cases)
    case (1 pm bm)
    then show ?case using pos by auto
  next
    case 2
    with that [of "[]" "{}"] moves_same_links [of "mgr s1 ?k" "mgr s1 ?k"] show ?thesis by simp
  qed (use that in auto)
  have "advances hs C s1 (set_proc ?k a2 s1)"
    by (rule advances_set_proc [OF s2(1) link_notify_carries_on [OF s2(2) pl2] hk(2)])
  with a1 have "advances hs C s (set_proc ?k a2 s1)" by (rule advances_trans)
  moreover obtain pl' where "perfect_links (app_manager a2) ?j = Some pl'" "t \<in> acks_to_send pl'"
    using link_notify_ack_due [OF s2(2) pl2 PL_Parse_Serialize] by auto
  ultimately show ?thesis
    using mv by (intro that [of "set_proc ?k a2 s1" ms R pl']) (simp_all add: mgr_set_proc m1)
qed

text \<open>The acknowledgement is sent and received; then the message is off the queue.\<close>

lemma pull:
  assumes ok: "healthy hs C s" and hs: "hosts_ok hs" and hj: "hj \<in> set hs" "h_id hj \<in> C"
    and hk: "hk \<in> set hs" and ne: "h_id hj \<noteq> h_id hk"
    and pl: "perfect_links (mgr s (h_id hk)) (h_id hj) = Some pl" and t: "t \<in> acks_to_send pl"
  obtains s' where "advances hs C s s'"
    "mgr s' (h_id hj) = update_link (h_id hk) (\<lambda>pl. pl\<lparr>messages_to_send := (messages_to_send pl)(t := None)\<rparr>)
       (mgr s (h_id hj))"
    "\<And>q. q \<noteq> h_id hj \<Longrightarrow> mgr s' q = mgr s q"
proof -
  let ?j = "h_id hj" and ?k = "h_id hk"
  note inv = healthy_invs [OF ok hs]
  have "link_sends s hk hj pl" using inv(2) hj(1) hk ne pl unfolding exchange_inv_def send_ok_def by metis
  then have addr: "pl_target_addr pl = host_addr hj" by (simp add: link_sends_def)
  obtain out where out: "sys_step hs s (emit (host_addr hk) out s)" "(PL_ack_packet t, host_addr hj) \<in> set out"
    using can_ack [OF hk servingD(1) [OF inv(3) hk] pl t] addr by metis
  define s1 where "s1 = emit (host_addr hk) out s"
  have a1: "advances hs C s s1" unfolding s1_def by (rule advances_emit [OF out(1)])
  have m1: "procs s1 = procs s" by (simp add: s1_def emit_def)
  note inv1 = healthy_invs [OF healthy_advances [OF ok a1] hs]
  have ack: "(host_addr hk, host_addr hj, PL_ack_packet t) \<in> net s1" "0 < length (PL_ack_packet t)"
    "length (PL_ack_packet t) \<le> 14"
    using out(2) by (auto simp: s1_def emit_def PL_ack_packet_def)
  obtain a2 pl2 where s2: "sys_step hs s1 (set_proc ?j a2 s1)"
    "link_notify 0 ?k (PL_ack_packet t) (mgr s1 ?j) = Inr (app_manager a2)"
    and pl2: "perfect_links (mgr s1 ?j) ?k = Some pl2" "pl_target_id pl2 = ?k" "managers pl2 = [This_Manager]"
    by (rule can_receive [OF inv1(1,3) hj(1) hk not_sym [OF ne] ack])
  have "app_manager a2 = update_link ?k (\<lambda>pl. pl\<lparr>messages_to_send := (messages_to_send pl)(t := None)\<rparr>) (mgr s ?j)"
    using s2(2) pl2(1) by (simp add: link_notify_def PL_Notify_def m1)
  moreover have "advances hs C s1 (set_proc ?j a2 s1)"
    by (rule advances_set_proc [OF s2(1) link_notify_carries_on [OF s2(2) pl2] hj(2)])
  with a1 have "advances hs C s (set_proc ?j a2 s1)" by (rule advances_trans)
  ultimately show ?thesis by (intro that [of "set_proc ?j a2 s1"]) (simp_all add: mgr_set_proc m1)
qed

lemma transfer:
  assumes ok: "healthy hs C s" and hs: "hosts_ok hs" and hj: "hj \<in> set hs" "h_id hj \<in> C"
    and hk: "hk \<in> set hs" "h_id hk \<in> C" and ne: "h_id hj \<noteq> h_id hk"
    and pl: "perfect_links (mgr s (h_id hj)) (h_id hk) = Some pl" and p: "messages_to_send pl t = Some p"
  obtains s' ms R where "advances hs C s s'" "moves ms R (mgr s (h_id hk)) (mgr s' (h_id hk))"
    "mgr s' (h_id hj) = update_link (h_id hk) (\<lambda>pl. pl\<lparr>messages_to_send := (messages_to_send pl)(t := None)\<rparr>)
       (mgr s (h_id hj))"
    "\<And>q. q \<noteq> h_id hj \<Longrightarrow> q \<noteq> h_id hk \<Longrightarrow> mgr s' q = mgr s q"
proof -
  obtain s1 ms R pl1 where
    s1: "advances hs C s s1" "moves ms R (mgr s (h_id hk)) (mgr s1 (h_id hk))"
      "\<And>q. q \<noteq> h_id hk \<Longrightarrow> mgr s1 q = mgr s q"
      "perfect_links (mgr s1 (h_id hk)) (h_id hj) = Some pl1" "t \<in> acks_to_send pl1"
    by (rule push [OF ok hs hj(1) hk ne pl p]) blast
  obtain s2 where
    s2: "advances hs C s1 s2"
      "mgr s2 (h_id hj) = update_link (h_id hk) (\<lambda>pl. pl\<lparr>messages_to_send := (messages_to_send pl)(t := None)\<rparr>)
         (mgr s1 (h_id hj))"
      "\<And>q. q \<noteq> h_id hj \<Longrightarrow> mgr s2 q = mgr s1 q"
    by (rule pull [OF healthy_advances [OF ok s1(1)] hs hj hk(1) ne s1(4,5)]) blast
  show ?thesis
    by (rule that [OF advances_trans [OF s1(1) s2(1)]]) (use s1 s2 ne in simp_all)
qed

text \<open>A turn of the delivery thread that has something to deliver.\<close>

lemma can_deliver:
  assumes ok: "healthy hs C s" and hs: "hosts_ok hs" and k: "k \<in> C" "C \<subseteq> ids_of hs"
    and i: "i \<in> pending_for_delivery (mgr s k)" "majority_seen (mgr s k) i"
  obtains s' ms where "advances hs C s s'" "moves ms {} (mgr s k) (mgr s' k)"
    "i \<in> set_abs (delivered (mgr s' k))" "set_abs (delivered (mgr s k)) \<subseteq> set_abs (delivered (mgr s' k))"
    "\<And>q. q \<noteq> k \<Longrightarrow> mgr s' q = mgr s q"
proof -
  let ?m = "mgr s k"
  note inv = healthy_invs [OF ok hs]
  obtain h where h: "h \<in> set hs" "k = h_id h" using k by blast
  have u: "urb_inv ?m" using sys_inv_proc(3) [OF inv(1)] h by simp
  then have "finite (pending_for_delivery ?m)" by (simp add: urb_inv_def delivery_ok_def)
  then obtain ids where ids: "distinct ids" "set ids = pending_for_delivery ?m" using finite_distinct_list by blast
  have "sendable ?m" using ok k(1) by (simp add: healthy_def)
  from ufifo_urb.fold_deliver_progress [of Inr, OF refl u this ids(1) equalityD1 [OF ids(2)]] obtain m' where
    m': "fold_result (URB_deliver_one ufifo_vt Inr) ids ?m = Inr m'"
    "set_abs (delivered m') = set_abs (delivered ?m) \<union> {i \<in> set ids. majority_seen ?m i}" by blast
  have pop: "reads_front Inr" by (simp add: reads_front_def)
  have "on ?m" using servingD(1) [OF inv(3) h(1)] h(2) by simp
  then have run: "URB_DeliverPending ufifo_vt Inr ids ?m = Inr m'" by (simp add: URB_DeliverPending_def m'(1))
  let ?s = "set_mgr k m' s"
  from sys_deliver [OF h pop ids run] have "sys_step hs s ?s" .
  then have "advances hs C s ?s"
    by (rule advances_set_proc) (simp_all add: k(1) ufifo_urb.fold_deliver_carries_on [OF m'(1)])
  moreover obtain ms where "moves ms {} ?m m'"
    using ufifo_urb.fold_deliver_moves [OF m'(1) u ids(1) equalityD1 [OF ids(2)] pop] by blast
  ultimately show ?thesis
    using i ids(2) m'(2) by (intro that [of ?s ms]) (simp_all add: mgr_set_proc)
qed

section \<open>A majority can settle\<close>

definition backlog :: "u32 set \<Rightarrow> 'a manager_scheme \<Rightarrow> nat" where
  "backlog C m = (\<Sum>k \<in> C. case perfect_links m k of None \<Rightarrow> 0 | Some pl \<Rightarrow> card (dom (messages_to_send pl)))"

definition work :: "u32 set \<Rightarrow> (sys \<Rightarrow> nat) list" where
  "work C = [\<lambda>s. \<Sum>q \<in> C. card (- known (mgr s q)), \<lambda>s. \<Sum>q \<in> C. backlog C (mgr s q),
     \<lambda>s. \<Sum>q \<in> C. card (pending_for_delivery (mgr s q))]"

lemma sum_less:
  fixes f g :: "u32 \<Rightarrow> nat"
  assumes "k \<in> C" and "f k < g k" and "\<And>q. q \<in> C \<Longrightarrow> f q \<le> g q"
  shows "sum f C < sum g C"
  by (rule sum_strict_mono_ex1) (use assms in auto)

lemma moves_nothing:
  assumes "moves [] R m m'"
  shows "known m' = known m" "backlog C m' = backlog C m"
proof -
  show "known m' = known m" using assms by (simp add: moves_def)
  have "rel_option (\<lambda>pl pl'. messages_to_send pl' = messages_to_send pl) (perfect_links m k) (perfect_links m' k)" for k
  proof (rule option.rel_mono_strong)
    show "rel_option (link_moves [] (R `` {k})) (perfect_links m k) (perfect_links m' k)"
      using assms by (simp add: moves_def)
  qed (simp add: link_moves_def out_side_def)
  then have "(case perfect_links m' k of None \<Rightarrow> 0 | Some pl \<Rightarrow> card (dom (messages_to_send pl))) =
      (case perfect_links m k of None \<Rightarrow> 0 | Some pl \<Rightarrow> card (dom (messages_to_send pl)))" for k
    by (metis (mono_tags, lifting) option.case_eq_if option.rel_sel)
  then show "backlog C m' = backlog C m" by (simp add: backlog_def)
qed

lemma known_grows_work:
  assumes mv: "moves ms R (mgr s k) (mgr s' k)" and "ms \<noteq> []" and "k \<in> C"
    and "\<And>q. q \<noteq> k \<Longrightarrow> known (mgr s' q) = known (mgr s q)"
  shows "(s', s) \<in> measures (work C)"
proof -
  have "known (mgr s k) \<subset> known (mgr s' k)"
  proof
    show "known (mgr s k) \<subseteq> known (mgr s' k)" using mv by (simp add: moves_def)
    show "known (mgr s k) \<noteq> known (mgr s' k)"
    proof
      assume "known (mgr s k) = known (mgr s' k)"
      with moves_card [OF mv] assms(2) show False by simp
    qed
  qed
  then have "card (- known (mgr s' k)) < card (- known (mgr s k))" by (intro psubset_card_mono) auto
  moreover have "card (- known (mgr s' q)) \<le> card (- known (mgr s q))" for q
    using calculation assms(4) by (cases "q = k") auto
  ultimately have "(\<Sum>q \<in> C. card (- known (mgr s' q))) < (\<Sum>q \<in> C. card (- known (mgr s q)))"
    using sum_less [OF assms(3), of "\<lambda>q. card (- known (mgr s' q))"] by simp
  then show ?thesis by (simp add: work_def)
qed

lemma backlog_ack:
  assumes "perfect_links m k = Some pl" and "messages_to_send pl t = Some p" and "k \<in> C"
  shows "backlog C (update_link k (\<lambda>pl. pl\<lparr>messages_to_send := (messages_to_send pl)(t := None)\<rparr>) m) < backlog C m"
proof -
  have "card (dom (messages_to_send pl) - {t}) < card (dom (messages_to_send pl))"
    using assms(2) by (intro psubset_card_mono) auto
  then show ?thesis
    unfolding backlog_def using assms by (intro sum_less [OF assms(3)]) auto
qed

lemma transfer_work:
  assumes mv: "moves ms R (mgr s k) (mgr s' k)" and jk: "j \<in> C" "k \<in> C" "j \<noteq> k"
    and pl: "perfect_links (mgr s j) k = Some pl" and p: "messages_to_send pl t = Some p"
    and j: "mgr s' j = update_link k (\<lambda>pl. pl\<lparr>messages_to_send := (messages_to_send pl)(t := None)\<rparr>) (mgr s j)"
    and other: "\<And>q. q \<noteq> j \<Longrightarrow> q \<noteq> k \<Longrightarrow> mgr s' q = mgr s q"
  shows "(s', s) \<in> measures (work C)"
proof -
  have kj: "known (mgr s' j) = known (mgr s j)" by (simp add: j known_def update_link_def)
  then have known: "known (mgr s' q) = known (mgr s q)" if "q \<noteq> k" for q
    using other that by (cases "q = j") simp_all
  show ?thesis
  proof (cases "ms = []")
    case False
    show ?thesis by (rule known_grows_work [OF mv False jk(2) known])
  next
    case True
    note same = moves_nothing [OF mv [unfolded True]]
    with known have "known (mgr s' q) = known (mgr s q)" for q by metis
    moreover have less: "backlog C (mgr s' j) < backlog C (mgr s j)"
      unfolding j by (rule backlog_ack [OF pl p jk(2)])
    moreover have "backlog C (mgr s' q) \<le> backlog C (mgr s q)" for q
      using same(2) less other [of q] by (cases "q = j"; cases "q = k") simp_all
    ultimately show ?thesis using sum_less [OF jk(1), of "\<lambda>q. backlog C (mgr s' q)"] by (simp add: work_def)
  qed
qed

lemma deliver_work:
  assumes mv: "moves ms {} (mgr s k) (mgr s' k)" and k: "k \<in> C"
    and inv: "urb_inv (mgr s k)" "urb_inv (mgr s' k)"
    and i: "i \<in> pending_for_delivery (mgr s k)" "i \<in> set_abs (delivered (mgr s' k))"
      "set_abs (delivered (mgr s k)) \<subseteq> set_abs (delivered (mgr s' k))"
    and other: "\<And>q. q \<noteq> k \<Longrightarrow> mgr s' q = mgr s q"
  shows "(s', s) \<in> measures (work C)"
proof (cases "ms = []")
  case False
  show ?thesis by (rule known_grows_work [OF mv False k]) (simp add: other)
next
  case True
  note same = moves_nothing [OF mv [unfolded True]]
  have split: "pending_for_delivery (mgr s q) = known (mgr s q) - set_abs (delivered (mgr s q))"
    if "urb_inv (mgr s q)" for s q
    using that by (auto simp: urb_inv_def delivery_ok_def known_def)
  have "pending_for_delivery (mgr s' k) \<subset> pending_for_delivery (mgr s k)"
    using i same(1) unfolding split [OF inv(1)] split [OF inv(2)] by auto
  then have less: "card (pending_for_delivery (mgr s' k)) < card (pending_for_delivery (mgr s k))"
    by (intro psubset_card_mono) simp_all
  moreover have "card (pending_for_delivery (mgr s' q)) \<le> card (pending_for_delivery (mgr s q))" for q
    using less other by (cases "q = k") simp_all
  moreover have "known (mgr s' q) = known (mgr s q)" "backlog C (mgr s' q) = backlog C (mgr s q)" for q
    using same other by (cases "q = k"; simp)+
  ultimately show ?thesis
    using sum_less [OF k, of "\<lambda>q. card (pending_for_delivery (mgr s' q))"] by (simp add: work_def)
qed

lemma not_settled_cases:
  assumes "\<not> settled C s"
  obtains (queue) j k pl t p where "j \<in> C" "k \<in> C" "perfect_links (mgr s j) k = Some pl" "messages_to_send pl t = Some p"
  | (pending) k i where "k \<in> C" "i \<in> pending_for_delivery (mgr s k)" "majority_seen (mgr s k) i"
proof (cases "\<exists>k \<in> C. \<exists>i \<in> pending_for_delivery (mgr s k). majority_seen (mgr s k) i")
  case True
  with pending show thesis by blast
next
  case False
  with assms obtain j k pl where "j \<in> C" "k \<in> C" "perfect_links (mgr s j) k = Some pl" "messages_to_send pl \<noteq> Map.empty"
    unfolding settled_def by blast
  moreover from this(4) obtain t p where "messages_to_send pl t = Some p" by (metis not_None_eq ext)
  ultimately show thesis using queue by blast
qed

lemma unsettled_step:
  assumes ok: "healthy hs C s" and hs: "hosts_ok hs" and C: "C \<subseteq> ids_of hs" and unsettled: "\<not> settled C s"
  obtains s' where "advances hs C s s'" "(s', s) \<in> measures (work C)"
proof -
  note inv = healthy_invs [OF ok hs]
  from unsettled show ?thesis
  proof (cases rule: not_settled_cases)
    case (queue j k pl t p)
    then obtain hj hk where h: "hj \<in> set hs" "j = h_id hj" "hk \<in> set hs" "k = h_id hk" using C by blast
    have "j \<in> ids_of hs" using queue(1) C by blast
    then have "dom (perfect_links (mgr s j)) = ids_of hs - {j}"
      using sys_inv_proc(1) [OF inv(1)] by (simp add: wired_def)
    moreover have "k \<in> dom (perfect_links (mgr s j))" using queue(3) by (rule domI)
    ultimately have ne: "j \<noteq> k" by (metis DiffD2 singletonI)
    obtain s' ms R where
      s': "advances hs C s s'" "moves ms R (mgr s k) (mgr s' k)"
      "mgr s' j = update_link k (\<lambda>pl. pl\<lparr>messages_to_send := (messages_to_send pl)(t := None)\<rparr>) (mgr s j)"
      "\<And>q. q \<noteq> j \<Longrightarrow> q \<noteq> k \<Longrightarrow> mgr s' q = mgr s q"
      by (rule transfer [OF ok hs h(1) queue(1) [unfolded h(2)] h(3) queue(2) [unfolded h(4)] ne [unfolded h(2,4)]
            queue(3) [unfolded h(2,4)] queue(4), folded h(2,4)]) blast
    show ?thesis
      by (rule that [OF s'(1) transfer_work [OF s'(2) queue(1,2) ne queue(3,4) s'(3,4)]])
  next
    case (pending k i)
    obtain s' ms where s': "advances hs C s s'" "moves ms {} (mgr s k) (mgr s' k)"
      "i \<in> set_abs (delivered (mgr s' k))" "set_abs (delivered (mgr s k)) \<subseteq> set_abs (delivered (mgr s' k))"
      "\<And>q. q \<noteq> k \<Longrightarrow> mgr s' q = mgr s q"
      by (rule can_deliver [OF ok hs pending(1) C pending(2,3)]) blast
    note inv' = healthy_invs(1) [OF healthy_advances [OF ok s'(1)] hs]
    have "k \<in> ids_of hs" using pending(1) C by blast
    note u = sys_inv_proc(3) [OF inv(1) this] sys_inv_proc(3) [OF inv' this]
    show ?thesis
      by (rule that [OF s'(1) deliver_work [OF s'(2) pending(1) u pending(2) s'(3,4,5)]])
  qed
qed

lemma can_settle:
  assumes "healthy hs C s" and "hosts_ok hs" and "C \<subseteq> ids_of hs"
  shows "\<exists>s'. advances hs C s s' \<and> settled C s'"
  using assms(1)
proof (induction s rule: wf_induct_rule [OF wf_measures [of "work C"]])
  case (1 s)
  show ?case
  proof (cases "settled C s")
    case True
    then show ?thesis using advances_refl by blast
  next
    case False
    from unsettled_step [OF 1(2) assms(2,3) False] obtain s1 where
      s1: "advances hs C s s1" "(s1, s) \<in> measures (work C)" .
    from 1(1) [OF s1(2) healthy_advances [OF 1(2) s1(1)]] s1(1) show ?thesis using advances_trans by blast
  qed
qed

end
