(* ===== verification/System_Properties.thy ===== *)
theory System_Properties
  imports System_Progress
begin

text \<open>
  The promises of the whole system, stated on the logs of the processes: uniform reliable
  broadcast (validity, uniform agreement, no creation, no duplication) in FIFO order.
\<close>

abbreviation log_of :: "sys \<Rightarrow> u32 \<Rightarrow> string set" where
  "log_of s q \<equiv> set (lg_lines (mgr_logger (mgr s q)))"

section \<open>From the state to the logs\<close>

lemma logged_deliveries:
  assumes "sys_inv hs s" and "q \<in> ids_of hs" and "deliver_line a n \<in> log_of s q" and "0 < n'" and "n' \<le> n"
  shows "Msg_Id n' a \<in> set_abs (delivered (mgr s q))"
  using assms(3-5) unfolding logged_iff_delivered [OF sys_inv_proc(2) [OF assms(1,2)]] by blast

lemma log_deliveries:
  assumes "sys_inv hs s" and "q \<in> ids_of hs" and "0 < n"
    and "\<And>n'. 0 < n' \<Longrightarrow> n' \<le> n \<Longrightarrow> Msg_Id n' a \<in> set_abs (delivered (mgr s q))"
  shows "deliver_line a n \<in> log_of s q"
  using assms(3,4) unfolding logged_iff_delivered [OF sys_inv_proc(2) [OF assms(1,2)]] by blast

lemma agreement:
  assumes ok: "healthy hs {} s" and hs: "hosts_ok hs" and C: "majority hs C" and settled: "settled C s"
    and q: "q \<in> ids_of hs" "deliver_line a n \<in> log_of s q" and k: "k \<in> C"
  shows "deliver_line a n \<in> log_of s k"
proof (rule log_deliveries)
  note inv = healthy_invs [OF ok hs]
  show "sys_inv hs s" by (rule inv(1))
  show "k \<in> ids_of hs" using C k by (auto simp: majority_def)
  show "0 < n" using q(2) unfolding logged_iff_delivered [OF sys_inv_proc(2) [OF inv(1) q(1)]] by blast
  fix n' assume n': "0 < n'" "n' \<le> n"
  have "length hs div 2 < card (knowers hs s (Msg_Id n' a))"
    by (rule sys_inv_proc(6) [OF inv(1) q(1) logged_deliveries [OF inv(1) q n']])
  moreover have "knowers hs s (Msg_Id n' a) \<subseteq> ids_of hs" by (auto simp: knowers_def)
  ultimately obtain c where "c \<in> C" "c \<in> knowers hs s (Msg_Id n' a)" using majority_meets [OF C] by blast
  then show "Msg_Id n' a \<in> set_abs (delivered (mgr s k))"
    using settled_delivered [OF inv(2,1) hs C settled _ _ k] by (simp add: knowers_def)
qed

lemma validity:
  assumes ok: "healthy hs {} s" and hs: "hosts_ok hs" and C: "majority hs C" and settled: "settled C s"
    and c: "c \<in> C" "broadcast_line n \<in> log_of s c" and k: "k \<in> C"
  shows "deliver_line c n \<in> log_of s k"
proof -
  note inv = healthy_invs [OF ok hs]
  have ids: "c \<in> ids_of hs" "k \<in> ids_of hs" using C c k by (auto simp: majority_def)
  have n: "0 < n" "n < bc_n_messages_sent (mgr s c)"
    using c(2) unfolding broadcast_logged_iff [OF sys_inv_proc(2) [OF inv(1) ids(1)]] by simp_all
  show ?thesis
  proof (rule log_deliveries [OF inv(1) ids(2) n(1)])
    fix n' assume "0 < n'" "n' \<le> n"
    then have "Msg_Id n' c \<in> known (mgr s c)"
      using settled_own [OF inv(2,1) hs C settled c(1)] n(2) by simp
    then show "Msg_Id n' c \<in> set_abs (delivered (mgr s k))"
      by (rule settled_delivered [OF inv(2,1) hs C settled c(1) _ k])
  qed
qed

lemma healthy_nobody: "healthy hs C s \<Longrightarrow> healthy hs {} s"
  by (simp add: healthy_def)

section \<open>An example system\<close>

text \<open>Three processes; the first one has broadcast a message and the third one has crashed.\<close>

definition ex_peer :: "u32 \<Rightarrow> host" where
  "ex_peer i = \<lparr>h_ip = i, h_port = 11000, h_id = i\<rparr>"

definition ex_peers :: "host list" where
  "ex_peers = [ex_peer 1, ex_peer 2, ex_peer 3]"

definition ex_conf :: "u32 \<Rightarrow> parser" where
  "ex_conf i = ex_parser\<lparr>p_hosts := ex_peers, p_output_path := ''out'', p_id := i\<rparr>"

definition ex_start :: sys where
  "ex_start = \<lparr>procs = (\<lambda>q. snd (projr (FIFO_setup ex_os (ex_conf q)))), net = {}\<rparr>"

definition ex_sent :: sys where
  "ex_sent = set_mgr 1 (projr (URB_Send ufifo_vt '''' (mgr ex_start 1))) ex_start"

lemma ex_peers_ok: "hosts_ok ex_peers" "ids_of ex_peers = {1, 2, 3}" "majority ex_peers {1, 2}"
  by (auto simp: hosts_ok_def ex_peers_def ex_peer_def host_addr_def majority_def)

lemma ex_conf_setup:
  assumes "q \<in> {1, 2, 3}"
  shows "parsed (ex_conf q)" "p_hosts (ex_conf q) = ex_peers" "p_id (ex_conf q) = q"
    "os_can_open ex_os (p_output_path (ex_conf q))"
    "FIFO_setup ex_os (ex_conf q) = Inr (p_n_messages_to_send (ex_conf q), procs ex_start q)"
proof -
  show p: "parsed (ex_conf q)" "p_hosts (ex_conf q) = ex_peers" "p_id (ex_conf q) = q"
    "os_can_open ex_os (p_output_path (ex_conf q))"
    by (simp_all add: ex_conf_def ex_parser_def)
  have "\<exists>me. local_host (ex_conf q) = Inr me"
    using assms by (auto simp: local_host_def ex_conf_def ex_peers_def)
  then obtain me where "local_host (ex_conf q) = Inr me" ..
  then obtain a where "FIFO_setup ex_os (ex_conf q) = Inr (p_n_messages_to_send (ex_conf q), a)"
    by (simp add: FIFO_setup_cases [OF p(1)])
  then show "FIFO_setup ex_os (ex_conf q) = Inr (p_n_messages_to_send (ex_conf q), procs ex_start q)"
    by (simp add: ex_start_def)
qed

lemma ex_start_init: "sys_init ex_peers ex_start"
  unfolding sys_init_def ex_peers_ok(2)
proof (intro conjI ballI)
  show "net ex_start = {}" by (simp add: ex_start_def)
  fix q :: u32 assume "q \<in> {1, 2, 3}"
  from ex_conf_setup [OF this] show "\<exists>os p n. parsed p \<and> p_hosts p = ex_peers \<and> p_id p = q \<and>
      os_can_open os (p_output_path p) \<and> FIFO_setup os p = Inr (n, procs ex_start q)" by blast
qed

lemma ex_start_fresh: "q \<in> {1, 2, 3} \<Longrightarrow> urb_fresh (mgr ex_start q)"
  by (rule fifo_manager_running(2) [OF ex_conf_setup(4,5,1)])

lemma ex_sent_step: "URB_Send ufifo_vt '''' (mgr ex_start 1) = Inr (mgr ex_sent 1)"
  using URB_Send_empty [of "mgr ex_start 1"] by (auto simp: ex_sent_def set_proc_def)

lemma ex_sent_broadcasts: "bc_n_messages_sent (mgr ex_sent 1) = 2" "broadcasts ex_peers ex_sent = 1"
proof -
  note c = URB_Send_counts [OF ex_sent_step ufifo_urb.urb_class_axioms]
  show n: "bc_n_messages_sent (mgr ex_sent 1) = 2" using c(1) ex_start_fresh [of 1] by (simp add: urb_fresh_def)
  have "mgr ex_sent q = mgr ex_start q" if "q \<noteq> 1" for q using that by (simp add: ex_sent_def set_proc_def)
  then show "broadcasts ex_peers ex_sent = 1"
    using ex_start_fresh [of 2] ex_start_fresh [of 3] by (simp add: urb_fresh_def broadcasts_def ex_peers_ok(2) n)
qed

lemma ex_sent_healthy: "healthy ex_peers {1, 2} ex_sent" "bc_n_messages_sent (mgr ex_sent 1) = 2"
proof -
  note fresh = ex_start_fresh [unfolded urb_fresh_def]
  note c = URB_Send_counts [OF ex_sent_step ufifo_urb.urb_class_axioms]
  have other: "mgr ex_sent q = mgr ex_start q" if "q \<noteq> 1" for q using that by (simp add: ex_sent_def set_proc_def)
  show "bc_n_messages_sent (mgr ex_sent 1) = 2" by (rule ex_sent_broadcasts(1))
  have "sys_step ex_peers ex_start ex_sent"
    unfolding ex_sent_def
    by (rule sys_send [of "ex_peer 1" _ _ "''''"])
      (use ex_sent_step fresh [of 1] in \<open>simp_all add: ex_peers_def ex_peer_def\<close>)
  then have "reachable (sys_init ex_peers) (sys_step ex_peers) ex_sent"
    using ex_start_init reachable_init [of "sys_init ex_peers"] reachable_step by metis
  moreover note ex_sent_broadcasts(2)
  moreover have "sendable (mgr ex_sent 1)"
    using c(2) fresh [of 1] by (simp add: sendable_def split: if_splits)
  moreover have "sendable (mgr ex_sent 2)" using fresh [of 2] by (simp add: sendable_def other)
  ultimately show "healthy ex_peers {1, 2} ex_sent" by (simp add: healthy_def)
qed

text \<open>The first two processes can settle; then the message of the first one is in their logs.\<close>

lemma ex_settled_once:
  obtains s where "reachable (sys_init ex_peers) (sys_step ex_peers) s" "broadcasts ex_peers s = 1"
    "settled {1, 2} s" "broadcast_line 1 \<in> log_of s 1" "deliver_line 1 1 \<in> log_of s 1"
proof -
  obtain s where s: "advances ex_peers {1, 2} ex_sent s" "settled {1, 2} s"
    using can_settle [OF ex_sent_healthy(1) ex_peers_ok(1)] ex_peers_ok(2) by auto
  note ok = healthy_advances [OF ex_sent_healthy(1) s(1)]
  have n: "bc_n_messages_sent (mgr s q) = bc_n_messages_sent (mgr ex_sent q)" for q
    using s(1) by (simp add: advances_def carries_on_def)
  then have "broadcast_line 1 \<in> log_of s 1"
    using broadcast_logged_iff [OF sys_inv_proc(2) [OF healthy_invs(1) [OF ok ex_peers_ok(1)]], of 1] ex_peers_ok(2)
      ex_sent_healthy(2) by simp
  moreover from this validity [OF healthy_nobody [OF ok] ex_peers_ok(1,3) s(2)]
  have "deliver_line 1 1 \<in> log_of s 1" by simp
  moreover have "reachable (sys_init ex_peers) (sys_step ex_peers) s" using ok unfolding healthy_def by blast
  moreover have "broadcasts ex_peers s = 1" using ex_sent_broadcasts n by (simp add: broadcasts_def)
  ultimately show ?thesis using that s(2) by blast
qed

lemma ex_settled:
  obtains s where "reachable (sys_init ex_peers) (sys_step ex_peers) s" "broadcasts ex_peers s + 1 < 2 ^ 32"
    "settled {1, 2} s" "broadcast_line 1 \<in> log_of s 1" "deliver_line 1 1 \<in> log_of s 1"
  by (rule ex_settled_once) simp

section \<open>Properties\<close>

text \<open>
  C1: Uniform agreement. When a majority of processes has settled - nothing is queued between
  them and none has a message to deliver - every delivery line in the log of any process,
  also of one that has crashed since, is in the log of every process of the majority. Holds
  for any loss, repetition and reordering of datagrams, as long as the number of messages
  broadcast stays below the wrap-around of the link counters.
\<close>

theorem system_uniform_agreement:
  assumes "reachable (sys_init hs) (sys_step hs) s" and "hosts_ok hs" and "broadcasts hs s + 1 < 2 ^ 32"
    and "majority hs C" and "settled C s"
    and "q \<in> ids_of hs" and "deliver_line a n \<in> set (lg_lines (mgr_logger (mgr s q)))" and "k \<in> C"
  shows "deliver_line a n \<in> set (lg_lines (mgr_logger (mgr s k)))"
  using agreement [of hs s C q a n k] assms unfolding healthy_def by blast

theorem system_uniform_agreement_witness:
  "\<exists>s. reachable (sys_init ex_peers) (sys_step ex_peers) s \<and>
     deliver_line 1 1 \<in> set (lg_lines (mgr_logger (mgr s 1))) \<and> deliver_line 1 1 \<in> set (lg_lines (mgr_logger (mgr s 2)))"
proof -
  obtain s where s: "reachable (sys_init ex_peers) (sys_step ex_peers) s" "broadcasts ex_peers s + 1 < 2 ^ 32"
    "settled {1, 2} s" "broadcast_line 1 \<in> log_of s 1" "deliver_line 1 1 \<in> log_of s 1"
    by (rule ex_settled)
  have "1 \<in> ids_of ex_peers" by (simp add: ex_peers_ok(2))
  from system_uniform_agreement [OF s(1) ex_peers_ok(1) s(2) ex_peers_ok(3) s(3) this s(5), of 2] s(1,5)
  show ?thesis by auto
qed

text \<open>
  Validity. When a majority of processes has settled, every message that one of them has
  broadcast, that is, logged as \<^verbatim>\<open>b n\<close>, has been delivered and logged by all of them.
\<close>

lemma system_validity:
  assumes "reachable (sys_init hs) (sys_step hs) s" and "hosts_ok hs" and "broadcasts hs s + 1 < 2 ^ 32"
    and "majority hs C" and "settled C s"
    and "c \<in> C" and "broadcast_line n \<in> set (lg_lines (mgr_logger (mgr s c)))" and "k \<in> C"
  shows "deliver_line c n \<in> set (lg_lines (mgr_logger (mgr s k)))"
  using validity [of hs s C c n k] assms unfolding healthy_def by blast

text \<open>
  No creation. A process delivers a message only if its author is one of the processes
  and has broadcast it: the log of the author has the line \<^verbatim>\<open>b n\<close>.
\<close>

lemma system_no_creation:
  assumes "reachable (sys_init hs) (sys_step hs) s" and "hosts_ok hs"
    and "q \<in> ids_of hs" and "deliver_line a n \<in> set (lg_lines (mgr_logger (mgr s q)))"
  shows "a \<in> ids_of hs \<and> broadcast_line n \<in> set (lg_lines (mgr_logger (mgr s a)))"
proof -
  have inv: "sys_inv hs s" by (rule reachable_sys_inv [OF assms(1,2)])
  have "0 < n" using assms(4) unfolding logged_iff_delivered [OF sys_inv_proc(2) [OF inv assms(3)]] by blast
  then have "Msg_Id n a \<in> known (mgr s q)"
    using logged_deliveries [OF inv assms(3,4), of n] by (simp add: known_def)
  from known_own [OF inv assms(3) this] show ?thesis
    using broadcast_logged_iff [OF sys_inv_proc(2) [OF inv]] by simp
qed

text \<open>
  FIFO order and no duplication in the system. In every reachable state the delivery lines
  of each author in the log of each process are \<^verbatim>\<open>d a 1\<close>, \<^verbatim>\<open>d a 2\<close>, up to some number; no
  assumption on the received messages is left.
\<close>

lemma system_fifo_order:
  assumes "reachable (sys_init hs) (sys_step hs) s" and "hosts_ok hs" and "q \<in> ids_of hs"
  shows "\<exists>k. filter (\<lambda>x. x \<in> range (deliver_line a)) (lg_lines (mgr_logger (mgr s q))) =
    map (\<lambda>j. deliver_line a (of_nat j)) [1 ..< Suc k]"
proof -
  have "fifo_sync (mgr s q)"
    using ufifo_runs.reachable_inv [OF sys_inv_proc(2) [OF reachable_sys_inv [OF assms(1,2)] assms(3)]] by simp
  then show ?thesis by (intro ufifo.in_order_lines) (simp add: fifo_sync_def)
qed

text \<open>
  Quorum. Before a process logs a delivery, more than half of the processes know the
  message, its author among them; so every two majorities share a process that can still
  spread it.
\<close>

lemma system_delivery_quorum:
  assumes "reachable (sys_init hs) (sys_step hs) s" and "hosts_ok hs"
    and "q \<in> ids_of hs" and "deliver_line a n \<in> set (lg_lines (mgr_logger (mgr s q)))"
  shows "length hs div 2 < card {j \<in> ids_of hs. Msg_Id n a \<in> known (mgr s j)} \<and> Msg_Id n a \<in> known (mgr s a)"
proof -
  have inv: "sys_inv hs s" by (rule reachable_sys_inv [OF assms(1,2)])
  have "0 < n" using assms(4) unfolding logged_iff_delivered [OF sys_inv_proc(2) [OF inv assms(3)]] by blast
  then have d: "Msg_Id n a \<in> set_abs (delivered (mgr s q))"
    using logged_deliveries [OF inv assms(3,4), of n] by simp
  then have "Msg_Id n a \<in> known (mgr s q)" by (simp add: known_def)
  with known_own(2) [OF inv assms(3) this] sys_inv_proc(6) [OF inv assms(3) d] show ?thesis
    by (simp add: knowers_def)
qed

text \<open>
  C20: Progress. From every reachable state in which the messages waiting at a majority fit the
  send buffer, there is a run in which only processes of the majority act, all others being
  crashed, that ends in a settled state: then every message that one of them had broadcast is
  delivered by all of them, and so is every message that any process has delivered.
\<close>

theorem system_progress:
  assumes "reachable (sys_init hs) (sys_step hs) s" and "hosts_ok hs" and "broadcasts hs s + 1 < 2 ^ 32"
    and "majority hs C"
    and "\<forall>k \<in> C. \<forall>m \<in> set (own_pending_for_broadcast (mgr s k)). length (bm_payload m) \<le> 1"
  shows "\<exists>s'. (sys_step hs)\<^sup>*\<^sup>* s s' \<and> (\<forall>q. q \<notin> C \<longrightarrow> procs s' q = procs s q) \<and>
    (\<forall>c \<in> C. \<forall>k \<in> C. \<forall>n. broadcast_line n \<in> set (lg_lines (mgr_logger (mgr s c))) \<longrightarrow>
       deliver_line c n \<in> set (lg_lines (mgr_logger (mgr s' k)))) \<and>
    (\<forall>q \<in> ids_of hs. \<forall>k \<in> C. \<forall>a n. deliver_line a n \<in> set (lg_lines (mgr_logger (mgr s' q))) \<longrightarrow>
       deliver_line a n \<in> set (lg_lines (mgr_logger (mgr s' k))))"
proof -
  have ok: "healthy hs C s" using assms(1,3,5) unfolding healthy_def sendable_def by blast
  have C: "C \<subseteq> ids_of hs" using assms(4) by (simp add: majority_def)
  obtain s' where s': "advances hs C s s'" "settled C s'" using can_settle [OF ok assms(2) C] by blast
  note ok' = healthy_advances [OF ok s'(1)]
  have "broadcast_line n \<in> log_of s' c" if "broadcast_line n \<in> log_of s c" "c \<in> C" for c n
  proof -
    have c: "c \<in> ids_of hs" using C that(2) by blast
    note r = sys_inv_proc(2) [OF healthy_invs(1) [OF ok assms(2)] c] sys_inv_proc(2) [OF healthy_invs(1) [OF ok' assms(2)] c]
    have "bc_n_messages_sent (mgr s' c) = bc_n_messages_sent (mgr s c)"
      using s'(1) by (simp add: advances_def carries_on_def)
    with that(1) show ?thesis unfolding broadcast_logged_iff [OF r(1)] broadcast_logged_iff [OF r(2)] by simp
  qed
  with validity [OF healthy_nobody [OF ok'] assms(2,4) s'(2)] agreement [OF healthy_nobody [OF ok'] assms(2,4) s'(2)]
  show ?thesis using s'(1) unfolding advances_def by blast
qed

theorem system_progress_witness:
  "\<exists>s'. (sys_step ex_peers)\<^sup>*\<^sup>* ex_sent s' \<and> deliver_line 1 1 \<in> set (lg_lines (mgr_logger (mgr s' 2))) \<and>
     procs s' 3 = procs ex_sent 3"
proof -
  note ok = ex_sent_healthy(1)
  have r: "reachable (sys_init ex_peers) (sys_step ex_peers) ex_sent" "broadcasts ex_peers ex_sent + 1 < 2 ^ 32"
    using ok unfolding healthy_def by blast+
  have fits: "\<forall>k \<in> {1, 2}. \<forall>m \<in> set (own_pending_for_broadcast (mgr ex_sent k)). length (bm_payload m) \<le> 1"
    using ok unfolding healthy_def sendable_def by blast
  have sent: "broadcast_line 1 \<in> log_of ex_sent 1"
    using broadcast_logged_iff [OF sys_inv_proc(2) [OF healthy_invs(1) [OF ok ex_peers_ok(1)]], of 1]
      ex_sent_healthy(2) ex_peers_ok(2) by simp
  from system_progress [OF r(1) ex_peers_ok(1) r(2) ex_peers_ok(3) fits]
  show ?thesis
  proof (elim exE conjE, intro exI conjI)
    fix s' assume run: "(sys_step ex_peers)\<^sup>*\<^sup>* ex_sent s'"
      and out: "\<forall>q. q \<notin> {1, 2} \<longrightarrow> procs s' q = procs ex_sent q"
      and val: "\<forall>c \<in> {1, 2}. \<forall>k \<in> {1, 2}. \<forall>n. broadcast_line n \<in> log_of ex_sent c \<longrightarrow> deliver_line c n \<in> log_of s' k"
    show "(sys_step ex_peers)\<^sup>*\<^sup>* ex_sent s'" by (rule run)
    show "deliver_line 1 1 \<in> log_of s' 2" using val sent by simp
    show "procs s' 3 = procs ex_sent 3" using out by simp
  qed
qed

end
