(* ===== verification/System_Runs.thy ===== *)
theory System_Runs
  imports System_Properties
begin

text \<open>
  Infinite runs of the system and their fairness. Fairness is asked of the threads of the correct
  processes (their sending and delivering turns recur) and of the network (a datagram that is sent
  again and again arrives again and again). In a fair run a message that one correct process knows
  reaches all of them, is delivered by all of them, and makes room for the queued ones.
\<close>

section \<open>Sequences\<close>

definition infinitely_often :: "(nat \<Rightarrow> bool) \<Rightarrow> bool" where
  "infinitely_often P \<longleftrightarrow> (\<forall>n. \<exists>m \<ge> n. P m)"

lemma infinitely_often_mono:
  "infinitely_often P \<Longrightarrow> (\<And>m. m \<ge> n \<Longrightarrow> P m \<Longrightarrow> Q m) \<Longrightarrow> infinitely_often Q"
  unfolding infinitely_often_def by (metis le_trans nat_le_linear)

text \<open>A decreasing sequence of finite sets that never runs empty has a common element.\<close>

lemma common_element:
  fixes A :: "nat \<Rightarrow> 'a set"
  assumes "finite (A 0)" and "\<And>n. A (Suc n) \<subseteq> A n" and "\<And>n. A n \<noteq> {}"
  obtains x where "\<And>n. x \<in> A n"
proof -
  have anti: "n \<le> m \<Longrightarrow> A m \<subseteq> A n" for n m by (rule lift_Suc_antimono_le) (use assms(2) in blast)
  have fin: "finite (A n)" for n using anti [of 0 n] assms(1) finite_subset by blast
  obtain n where "\<And>m. card (A n) \<le> card (A m)" using ex_has_least_nat [of "\<lambda>_. True" 0 "\<lambda>n. card (A n)"] by auto
  then have "A m = A n" if "n \<le> m" for m using anti [OF that] card_seteq [OF fin] by blast
  then have "A n \<subseteq> A m" for m using anti by (metis nat_le_linear subset_refl)
  then show ?thesis using that assms(3) [of n] by blast
qed

text \<open>Finitely many conditions that come and stay hold together at some time.\<close>

lemma common_time:
  fixes P :: "'a \<Rightarrow> nat \<Rightarrow> bool"
  assumes "finite A" and "\<And>x. x \<in> A \<Longrightarrow> \<exists>n. P x n" and "\<And>x n m. P x n \<Longrightarrow> n \<le> m \<Longrightarrow> P x m"
  obtains n where "\<And>x m. x \<in> A \<Longrightarrow> n \<le> m \<Longrightarrow> P x m"
proof -
  have "\<exists>n. \<forall>x \<in> A. P x n"
    using assms(1,2)
  proof (induction A)
    case (insert x A)
    obtain n where "P x n" using insert.prems by blast
    moreover obtain m where "\<forall>y \<in> A. P y m" using insert by blast
    ultimately have "\<forall>y \<in> insert x A. P y (max n m)" using assms(3) by (metis insert_iff max.cobounded1 max.cobounded2)
    then show ?case ..
  qed simp
  then show ?thesis using that assms(3) by blast
qed

section \<open>Steps\<close>

text \<open>What a step does to a process: it moves, or takes an acknowledged message off a queue.\<close>

definition works_on :: "'a urb_scheme \<Rightarrow> 'a urb_scheme \<Rightarrow> bool" where
  "works_on m m' \<longleftrightarrow> (\<exists>ms R. moves ms R m m') \<or>
     (\<exists>k t. m' = update_link k (\<lambda>pl. pl\<lparr>messages_to_send := (messages_to_send pl)(t := None)\<rparr>) m)"

lemma works_on_moves: "moves ms R m m' \<Longrightarrow> works_on m m'"
  by (auto simp: works_on_def)

lemma works_on_refl [simp]: "works_on m m"
  by (rule works_on_moves [OF moves_same_links]) simp_all

lemma receive_works_on:
  assumes inv: "sys_inv hs s" and h: "h \<in> set hs" and dg: "(src, dst, bs) \<in> net s"
    and run: "UDPServer_Receive (link_notify now) (Some (bs, src)) (app_server (procs s (h_id h)), mgr s (h_id h)) =
       Inr (srv', m')"
  shows "works_on (mgr s (h_id h)) m'"
  using inv h dg run
proof (cases rule: receive_cases)
  case (link h' pl)
  have pos: "0 < id_seq (bm_id bm)" if "PL_Parse (take 14 bs) = Some (Msg pm)"
    "Broadcast_Parse (h_id h') (pm_payload pm) = Some bm" for pm bm
    using known_valid [OF sys_inv_proc(3) [OF inv imageI [OF link(1)]] link(8) [OF that]] by simp
  show ?thesis
    by (rule link_notify_moves [OF link(4-7)]) (use pos works_on_moves in \<open>auto simp: works_on_def\<close>)
qed simp

lemma sys_step_works:
  assumes inv: "sys_inv hs s" and step: "sys_step hs s s'"
  shows "works_on (mgr s q) (mgr s' q)"
proof -
  have u: "urb_inv (mgr s (h_id h))" if "h \<in> set hs" for h by (rule sys_inv_proc(3) [OF inv]) (use that in simp)
  from step show ?thesis
  proof cases
    case (sys_send h p msg m')
    with ufifo_urb.Send_moves [OF sys_send(4)] u [OF sys_send(2)] show ?thesis
      by (auto simp: mgr_set_proc works_on_moves)
  next
    case (sys_deliver h p after_pop ids m')
    then have "works_on (mgr s p) m'"
      using ufifo_urb.fold_deliver_moves [of after_pop ids "mgr s p" m'] u [OF sys_deliver(2)] works_on_moves
      by (auto simp: URB_DeliverPending_def split: if_splits)
    then show ?thesis by (simp add: sys_deliver(1) mgr_set_proc)
  next
    case (sys_messages h p sendto links ord out)
    then show ?thesis by (simp add: emit_def)
  next
    case (sys_acks h p sendto strong now links oa od out m')
    have "works_on (mgr s p) m'"
      using works_on_moves [OF moves_SendAcks [of "mgr s p" sendto strong now links oa od]] sys_acks(4) by simp
    then show ?thesis by (simp add: sys_acks(1) emit_def set_proc_def)
  next
    case (sys_receive h p src bs now srv' m')
    from receive_works_on [OF inv sys_receive(2,4) sys_receive(5) [unfolded sys_receive(3)]]
    show ?thesis by (simp add: sys_receive(1,3) mgr_set_proc)
  qed
qed

lemma known_update_link [simp]: "known (update_link k f m) = known m"
  by (simp add: known_def update_link_def)

lemma sys_step_grows:
  assumes "sys_inv hs s" and "sys_step hs s s'"
  shows "known (mgr s q) \<subseteq> known (mgr s' q)" "heard (mgr s q) j i \<Longrightarrow> heard (mgr s' q) j i"
  using sys_step_works [OF assms, of q] by (auto simp: works_on_def moves_def)

text \<open>The queued messages that carry \<open>i\<close>; once \<open>i\<close> is known they become only fewer.\<close>

definition carriers :: "msg_id \<Rightarrow> u32 \<Rightarrow> 'a manager_scheme \<Rightarrow> (u32 \<times> bytes) set" where
  "carriers i k m = {(t, p). \<exists>pl. perfect_links m k = Some pl \<and> messages_to_send pl t = Some p \<and> carries p i}"

lemma fold_enqueue_entry:
  "snd (fold enqueue bss q) t = Some p \<Longrightarrow> snd q t = Some p \<or> p \<in> set bss"
proof (induction bss arbitrary: q)
  case (Cons bs bss)
  then have "snd (enqueue bs q) t = Some p \<or> p \<in> set bss" by simp
  then show ?case by (auto simp: enqueue_def split: if_splits)
qed simp

lemma carriers_moves:
  assumes mv: "moves ms R m m'" and i: "i \<in> known m"
  shows "carriers i k m' \<subseteq> carriers i k m"
proof clarify
  fix t p assume "(t, p) \<in> carriers i k m'"
  then obtain pl' where pl': "perfect_links m' k = Some pl'" "messages_to_send pl' t = Some p" "carries p i"
    by (auto simp: carriers_def)
  from moves_link [OF mv pl'(1)] obtain pl where pl: "perfect_links m k = Some pl" "link_moves ms (R `` {k}) pl pl'" .
  then have "out_side pl' = fold enqueue (map Broadcast_Serialize ms) (out_side pl)" by (simp add: link_moves_def)
  then have "messages_to_send pl t = Some p \<or> p \<in> Broadcast_Serialize ` set ms"
    using fold_enqueue_entry [of "map Broadcast_Serialize ms" "out_side pl" t p] pl'(2)
    by (metis list.set_map out_side_def snd_conv)
  moreover have "p \<notin> Broadcast_Serialize ` set ms" using pl'(3) i mv by (auto simp: moves_def)
  ultimately show "(t, p) \<in> carriers i k m" using pl(1) pl'(3) by (simp add: carriers_def)
qed

lemma carriers_step:
  assumes "sys_inv hs s" and "sys_step hs s s'" and "i \<in> known (mgr s j)"
  shows "carriers i k (mgr s' j) \<subseteq> carriers i k (mgr s j)"
proof -
  have ack: "carriers i k (update_link k' (\<lambda>pl. pl\<lparr>messages_to_send := (messages_to_send pl)(t := None)\<rparr>) m) \<subseteq>
      carriers i k m" for k' t and m :: ufifo by (auto simp: carriers_def update_link_def split: if_splits)
  from sys_step_works [OF assms(1,2), of j] show ?thesis
    unfolding works_on_def
  proof (elim disjE exE)
    fix ms R assume "moves ms R (mgr s j) (mgr s' j)"
    then show ?thesis by (rule carriers_moves [OF _ assms(3)])
  qed (simp only: ack)
qed

lemma finite_carriers [simp]: "finite (carriers i k m)"
proof (rule finite_subset)
  show "carriers i k m \<subseteq> (\<lambda>t. (t, the (messages_to_send (the (perfect_links m k)) t))) ` UNIV"
    by (force simp: carriers_def)
qed simp

section \<open>Fair runs\<close>

text \<open>
  A complete turn of the sending thread of process \<open>q\<close>: it visits all links and all queued
  messages, in some order, and the operating system accepts the datagrams \<open>out\<close>.
\<close>

definition message_turn :: "host list \<Rightarrow> u32 \<Rightarrow> dgram list \<Rightarrow> sys \<Rightarrow> sys \<Rightarrow> bool" where
  "message_turn hs q out s s' \<longleftrightarrow> (\<exists>h \<in> set hs. q = h_id h \<and> s' = emit (host_addr h) out s) \<and>
     (\<exists>sendto links ord. Manager_SendMessages sendto links ord (mgr s q) = Inr out \<and>
        (\<forall>bs dst. \<exists>n. sendto bs dst = Inr n) \<and> set links = dom (perfect_links (mgr s q)) \<and>
        (\<forall>j pl. perfect_links (mgr s q) j = Some pl \<longrightarrow> set (ord j) = dom (messages_to_send pl)))"

text \<open>A turn of the delivering thread.\<close>

definition delivery_turn :: "host list \<Rightarrow> u32 \<Rightarrow> sys \<Rightarrow> sys \<Rightarrow> bool" where
  "delivery_turn hs q s s' \<longleftrightarrow> (\<exists>after_pop ids m'. reads_front after_pop \<and> distinct ids \<and>
     set ids = pending_for_delivery (mgr s q) \<and>
     URB_DeliverPending ufifo_vt after_pop ids (mgr s q) = Inr m' \<and> s' = set_mgr q m' s)"

text \<open>The receiving thread of \<open>q\<close> takes a datagram from the address \<open>src\<close>.\<close>

definition arrival :: "host list \<Rightarrow> u32 \<Rightarrow> machine \<Rightarrow> bytes \<Rightarrow> sys \<Rightarrow> sys \<Rightarrow> bool" where
  "arrival hs q src bs s s' \<longleftrightarrow> (\<exists>h \<in> set hs. q = h_id h \<and> (src, host_addr h, bs) \<in> net s) \<and>
     (\<exists>now srv' m'. UDPServer_Receive (link_notify now) (Some (bs, src)) (app_server (procs s q), mgr s q) = Inr (srv', m') \<and>
        s' = set_proc q ((procs s q)\<lparr>app_server := srv', app_manager := m'\<rparr>) s)"

text \<open>
  A run of the system, and its fairness towards the processes \<open>C\<close>: their sending and delivering
  turns recur, and of the datagrams that one of them sends another one again and again, each
  arrives again and again.
\<close>

definition sys_run :: "host list \<Rightarrow> (nat \<Rightarrow> sys) \<Rightarrow> bool" where
  "sys_run hs run \<longleftrightarrow> sys_init hs (run 0) \<and> (\<forall>n. sys_step hs (run n) (run (Suc n)))"

definition fair_threads :: "host list \<Rightarrow> u32 set \<Rightarrow> (nat \<Rightarrow> sys) \<Rightarrow> bool" where
  "fair_threads hs C run \<longleftrightarrow> (\<forall>c \<in> C.
     infinitely_often (\<lambda>n. \<exists>out. message_turn hs c out (run n) (run (Suc n))) \<and>
     infinitely_often (\<lambda>n. delivery_turn hs c (run n) (run (Suc n))))"

definition fair_loss :: "host list \<Rightarrow> u32 set \<Rightarrow> (nat \<Rightarrow> sys) \<Rightarrow> bool" where
  "fair_loss hs C run \<longleftrightarrow> (\<forall>hj \<in> set hs. \<forall>hk \<in> set hs. \<forall>bs. h_id hj \<in> C \<longrightarrow> h_id hk \<in> C \<longrightarrow>
     infinitely_often (\<lambda>n. \<exists>out. message_turn hs (h_id hj) out (run n) (run (Suc n)) \<and> (bs, host_addr hk) \<in> set out) \<longrightarrow>
     infinitely_often (\<lambda>n. arrival hs (h_id hk) (host_addr hj) bs (run n) (run (Suc n))))"

definition few_broadcasts_run :: "host list \<Rightarrow> (nat \<Rightarrow> sys) \<Rightarrow> bool" where
  "few_broadcasts_run hs run \<longleftrightarrow> (\<forall>n. broadcasts hs (run n) + 1 < 2 ^ 32)"

lemma run_invs:
  assumes "sys_run hs run" and "hosts_ok hs"
  shows "reachable (sys_init hs) (sys_step hs) (run n)" "sys_inv hs (run n)"
proof -
  show r: "reachable (sys_init hs) (sys_step hs) (run n)"
    using assms(1) by (induction n) (auto simp: sys_run_def intro: reachable_init reachable_step)
  show "sys_inv hs (run n)" by (rule reachable_sys_inv [OF r assms(2)])
qed

lemma run_exchange:
  assumes "sys_run hs run" and "hosts_ok hs" and "few_broadcasts_run hs run"
  shows "exchange_inv hs (run n)"
proof -
  have "broadcasts hs (run n) + 1 < 2 ^ 32" using assms(3) unfolding few_broadcasts_run_def by blast
  with run_invs [OF assms(1,2), of n] show ?thesis using reachable_exchange few_broadcasts assms(2) by blast
qed

lemma run_grows:
  assumes run: "sys_run hs run" and hs: "hosts_ok hs" and "n \<le> m"
  shows "known (mgr (run n) q) \<subseteq> known (mgr (run m) q)"
    "heard (mgr (run n) q) j i \<Longrightarrow> heard (mgr (run m) q) j i"
proof -
  have s: "sys_step hs (run n) (run (Suc n))" for n using run by (simp add: sys_run_def)
  show "known (mgr (run n) q) \<subseteq> known (mgr (run m) q)"
    using assms(3) by (rule lift_Suc_mono_le [rotated]) (rule sys_step_grows(1) [OF run_invs(2) [OF run hs] s])
  show "heard (mgr (run n) q) j i \<Longrightarrow> heard (mgr (run m) q) j i"
    using assms(3) by (induction m rule: dec_induct) (auto intro: sys_step_grows(2) [OF run_invs(2) [OF run hs] s])
qed

text \<open>A queued message is in every complete turn of the sending thread.\<close>

lemma send_loop_complete:
  assumes "Manager_send_loop sendto links ord m = Inr out" and "\<And>bs dst. \<exists>n. sendto bs dst = Inr n"
    and "k \<in> set links" and "perfect_links m k = Some pl" and "t \<in> set (ord k)" and "messages_to_send pl t = Some p"
  shows "(PL_Serialize \<lparr>pm_seq = t, pm_payload = p\<rparr>, pl_target_addr pl) \<in> set out"
proof -
  have loop: "(PL_Serialize \<lparr>pm_seq = t, pm_payload = p\<rparr>, pl_target_addr pl) \<in> set out"
    if "PL_send_loop sendto pl ord' = Inr out" "t \<in> set ord'" for ord' out
    using that
  proof (induction ord' arbitrary: out)
    case (Cons t' ord')
    show ?case
    proof (cases "messages_to_send pl t'")
      case None
      with Cons assms(6) show ?thesis by auto
    next
      case (Some p')
      with Cons.prems(1) obtain rest where rest: "PL_send_loop sendto pl ord' = Inr rest"
        "out = try_send sendto (PL_Serialize \<lparr>pm_seq = t', pm_payload = p'\<rparr>, pl_target_addr pl) @ rest"
        by (auto simp: write_buffer_def split: if_splits)
      with Cons Some assms(2,6) show ?thesis
        by (cases "t' = t") (auto simp: try_send_def split: sum.splits dest: sym)
    qed
  qed simp
  show ?thesis
    using assms(1,3)
  proof (induction links arbitrary: out)
    case (Cons i links)
    then show ?case
      using loop assms(4,5) by (cases "perfect_links m i") (auto simp: PL_SendMessages_def split: if_splits)
  qed simp
qed

lemma message_turn_complete:
  assumes "message_turn hs j out s s'" and "on (mgr s j)" and "(t, p) \<in> carriers i k (mgr s j)"
    and "perfect_links (mgr s j) k = Some pl"
  shows "(PL_Serialize \<lparr>pm_seq = t, pm_payload = p\<rparr>, pl_target_addr pl) \<in> set out"
proof -
  have p: "messages_to_send pl t = Some p" using assms(3,4) by (auto simp: carriers_def)
  from assms(1) obtain sendto links ord where turn: "Manager_SendMessages sendto links ord (mgr s j) = Inr out"
    "\<And>bs dst. \<exists>n. sendto bs dst = Inr n" "set links = dom (perfect_links (mgr s j))"
    "\<And>k pl. perfect_links (mgr s j) k = Some pl \<Longrightarrow> set (ord k) = dom (messages_to_send pl)"
    unfolding message_turn_def by metis
  have "Manager_send_loop sendto links ord (mgr s j) = Inr out" using turn(1) assms(2) by (simp add: Manager_SendMessages_def)
  from send_loop_complete [OF this turn(2)] show ?thesis using turn(3) turn(4) [OF assms(4)] assms(4) p by blast
qed

lemma link_sends_entry:
  assumes "link_sends s hj hk pl" and "messages_to_send pl t = Some p"
  shows "length p \<le> 9" "in_flight s hj hk (Msg \<lparr>pm_seq = t, pm_payload = p'\<rparr>) \<Longrightarrow> p' = p"
proof -
  show "length p \<le> 9" using assms ranI [of "messages_to_send pl" t p] by (simp add: link_sends_def)
  show "p' = p" if "in_flight s hj hk (Msg \<lparr>pm_seq = t, pm_payload = p'\<rparr>)"
  proof -
    have "messages_to_send pl t \<in> {None, Some p'}" using assms(1) that unfolding link_sends_def by blast
    with assms(2) show ?thesis by simp
  qed
qed

text \<open>A message that arrives is counted.\<close>

lemma receive_notifies:
  assumes inv: "sys_inv hs s" and srv: "serving hs s" and h: "h \<in> set hs" "h' \<in> set hs" "h_id h' \<noteq> h_id h"
    and bs: "0 < length bs" "length bs \<le> 14"
    and run: "UDPServer_Receive (link_notify now) (Some (bs, host_addr h')) (app_server (procs s (h_id h)), mgr s (h_id h)) =
       Inr (srv', m')"
  shows "link_notify now (h_id h') bs (mgr s (h_id h)) = Inr m'"
proof -
  have "observers_at (app_server (procs s (h_id h))) (host_addr h') = [h_id h']"
    using sys_inv_proc(1) [OF inv imageI [OF h(1)]] h by (simp add: wired_def)
  with run servingD(2) [OF srv h(1)] bs show ?thesis
    by (auto simp: UDPServer_Receive_def UDP_SERVER_MAX_MSG_SIZE_def NotifyAll_eq Let_def split: if_splits)
qed

lemma arrival_heard:
  assumes inv: "sys_inv hs s" and ex: "exchange_inv hs s'" and srv: "serving hs s" and hs: "hosts_ok hs"
    and h: "hj \<in> set hs" "hk \<in> set hs" "h_id hj \<noteq> h_id hk"
    and arr: "arrival hs (h_id hk) (host_addr hj) (PL_Serialize \<lparr>pm_seq = t, pm_payload = p\<rparr>) s s'" and len: "length p \<le> 9"
    and car: "(t, p) \<in> carriers i (h_id hk) (mgr s' (h_id hj))"
  shows "heard (mgr s' (h_id hk)) (h_id hj) i"
proof -
  let ?bs = "PL_Serialize \<lparr>pm_seq = t, pm_payload = p\<rparr>"
  from arr obtain now srv' m' where run: "UDPServer_Receive (link_notify now) (Some (?bs, host_addr hj))
      (app_server (procs s (h_id hk)), mgr s (h_id hk)) = Inr (srv', m')"
    and s': "s' = set_proc (h_id hk) ((procs s (h_id hk))\<lparr>app_server := srv', app_manager := m'\<rparr>) s"
    unfolding arrival_def by blast
  have m': "mgr s' (h_id hk) = m'" by (simp add: s' mgr_set_proc)
  have notified: "link_notify now (h_id hj) ?bs (mgr s (h_id hk)) = Inr m'"
    by (rule receive_notifies [OF inv srv h(2,1,3) _ _ run]) (use len in simp_all)
  obtain pl where pl: "perfect_links (mgr s (h_id hk)) (h_id hj) = Some pl" "pl_target_id pl = h_id hj" "managers pl = [This_Manager]"
    using wired_link [OF sys_inv_proc(1) [OF inv imageI [OF h(2)]] imageI [OF h(1)] h(3)] .
  from link_notify_ack_due [OF notified pl PL_Parse_Serialize] obtain pl' where
    "perfect_links (mgr s' (h_id hk)) (h_id hj) = Some pl'" "t \<in> acks_to_send pl'" unfolding m' by auto
  with ex h have "received s' hj hk t" unfolding exchange_inv_def recv_ok_def by blast
  then obtain p' where p': "in_flight s' hj hk (Msg \<lparr>pm_seq = t, pm_payload = p'\<rparr>)"
    "\<And>i. carries p' i \<Longrightarrow> heard (mgr s' (h_id hk)) (h_id hj) i" unfolding received_def by blast
  from car obtain plj where plj: "perfect_links (mgr s' (h_id hj)) (h_id hk) = Some plj"
    "messages_to_send plj t = Some p" "carries p i" by (auto simp: carriers_def)
  with ex h have "link_sends s' hj hk plj" unfolding exchange_inv_def send_ok_def by blast
  then have "p' = p" by (rule link_sends_entry(2) [OF _ plj(2) p'(1)])
  with p'(2) plj(3) show ?thesis by blast
qed

section \<open>What a correct process knows spreads\<close>

lemma eventually_heard:
  assumes run: "sys_run hs run" and hs: "hosts_ok hs" and few: "few_broadcasts_run hs run"
    and fair: "fair_threads hs C run" "fair_loss hs C run"
    and h: "hj \<in> set hs" "hk \<in> set hs" "h_id hj \<in> C" "h_id hk \<in> C" "h_id hj \<noteq> h_id hk"
    and i: "i \<in> known (mgr (run n) (h_id hj))"
  shows "\<exists>m. heard (mgr (run m) (h_id hk)) (h_id hj) i"
proof (rule ccontr)
  let ?j = "h_id hj" and ?k = "h_id hk"
  assume "\<nexists>m. heard (mgr (run m) ?k) ?j i"
  then have never: "\<not> heard (mgr (run m) ?k) ?j i" for m by blast
  note inv = run_invs(2) [OF run hs] and ex = run_exchange [OF run hs few]
  note serv = reachable_serving [OF run_invs(1) [OF run hs] hs]
  have known: "i \<in> known (mgr (run m) ?j)" if "n \<le> m" for m using run_grows(1) [OF run hs that] i by blast
  have link: "\<exists>pl. perfect_links (mgr (run m) ?j) ?k = Some pl \<and> link_sends (run m) hj hk pl" for m
  proof -
    obtain pl where "perfect_links (mgr (run m) ?j) ?k = Some pl"
      using wired_link [OF sys_inv_proc(1) [OF inv imageI [OF h(1)]] imageI [OF h(2)] not_sym [OF h(5)]] .
    with ex [of m] h show ?thesis unfolding exchange_inv_def send_ok_def by blast
  qed
  have "carriers i ?k (mgr (run (n + m)) ?j) \<noteq> {}" for m
    using link [of "n + m"] known [of "n + m"] never [of "n + m"] by (fastforce simp: link_sends_def carriers_def ran_def)
  moreover have "carriers i ?k (mgr (run (n + Suc m)) ?j) \<subseteq> carriers i ?k (mgr (run (n + m)) ?j)" for m
    using run by (intro carriers_step [OF inv _ known]) (simp_all add: sys_run_def)
  ultimately obtain tp where "\<And>m. tp \<in> carriers i ?k (mgr (run (n + m)) ?j)"
    using common_element [of "\<lambda>m. carriers i ?k (mgr (run (n + m)) ?j)"] finite_carriers by metis
  moreover obtain t p where "tp = (t, p)" by (cases tp)
  ultimately have car: "(t, p) \<in> carriers i ?k (mgr (run m) ?j)" if "n \<le> m" for m
    using that by (metis le_add_diff_inverse)
  let ?bs = "PL_Serialize \<lparr>pm_seq = t, pm_payload = p\<rparr>"
  have out: "(?bs, host_addr hk) \<in> set out" if "n \<le> m" "message_turn hs ?j out (run m) (run (Suc m))" for m out
    using link [of m] message_turn_complete [OF that(2) servingD(1) [OF serv h(1)] car [OF that(1)]]
    by (auto simp: link_sends_def)
  have len: "length p \<le> 9" using link [of n] car [OF order_refl] link_sends_entry(1) by (force simp: carriers_def)
  have "infinitely_often (\<lambda>m. \<exists>out. message_turn hs ?j out (run m) (run (Suc m)) \<and> (?bs, host_addr hk) \<in> set out)"
    using infinitely_often_mono [of _ n] fair(1) h(3) out unfolding fair_threads_def by (smt (verit))
  with fair(2) h have "infinitely_often (\<lambda>m. arrival hs ?k (host_addr hj) ?bs (run m) (run (Suc m)))"
    unfolding fair_loss_def by blast
  then obtain m where m: "n \<le> m" "arrival hs ?k (host_addr hj) ?bs (run m) (run (Suc m))"
    unfolding infinitely_often_def by blast
  have "heard (mgr (run (Suc m)) ?k) ?j i"
    by (rule arrival_heard [OF inv ex serv hs h(1,2,5) m(2) len car]) (use m(1) in simp)
  with never show False by blast
qed

section \<open>What correct processes know is delivered\<close>

lemma heard_known:
  assumes "sys_inv hs s" and "q \<in> ids_of hs" and "heard (mgr s q) j i"
  shows "i \<in> known (mgr s q)"
  using ufifo_acks.reachable_inv [OF sys_inv_proc(2) [OF assms(1,2)]] assms(3)
  by (auto simp: heard_def acked_known_def known_def)

text \<open>A process that has heard of a message from a majority delivers it in its next turn.\<close>

lemma heard_majority:
  assumes inv: "sys_inv hs s" and hs: "hosts_ok hs" and C: "majority hs C" and k: "k \<in> C"
    and heard: "\<And>j. j \<in> C \<Longrightarrow> j \<noteq> k \<Longrightarrow> heard (mgr s k) j i" and not: "i \<notin> set_abs (delivered (mgr s k))"
  shows "majority_seen (mgr s k) i"
proof -
  have k': "k \<in> ids_of hs" using C k by (auto simp: majority_def)
  have "C - {k} \<subseteq> acks_of (mgr s k) i" using heard not by (auto simp: heard_def)
  then have "card (C - {k}) \<le> card (acks_of (mgr s k) i)" by (intro card_mono) simp_all
  moreover have "card (C - {k}) = card C - 1" using k by simp
  moreover have "unat (n_processes (mgr s k)) = length hs"
    using sys_inv_proc(1) [OF inv k'] hs by (simp add: wired_def hosts_ok_def unat_of_nat)
  ultimately show ?thesis using C unfolding majority_def by linarith
qed

context urb_class
begin

lemma fold_deliver_effect:
  assumes "fold_result (URB_deliver_one vt after_pop) ids u = Inr u'"
    and "urb_inv u" and "distinct ids" and "set ids \<subseteq> pending_for_delivery u" and pop: "reads_front after_pop"
  shows "set_abs (delivered u') = set_abs (delivered u) \<union> {i \<in> set ids. majority_seen u i}"
  using assms(1-4)
proof (induction ids arbitrary: u)
  case (Cons i ids)
  from Cons.prems(1) obtain u1 where u1: "URB_deliver_one vt after_pop i u = Inr u1"
    and rest: "fold_result (URB_deliver_one vt after_pop) ids u1 = Inr u'" by auto
  have i: "i \<in> pending_for_delivery u" using Cons.prems(4) by simp
  have new: "i \<notin> set_abs (delivered u)" using Cons.prems(2) i by (auto simp: urb_inv_def delivery_ok_def)
  note eff = deliver_one_effect [OF Cons.prems(2) i u1] and inv = deliver_one_inv [OF Cons.prems(2) i pop u1]
  have "set_abs (delivered u') = set_abs (delivered u1) \<union> {j \<in> set ids. majority_seen u1 j}"
    by (rule Cons.IH [OF rest]) (use inv Cons.prems(3,4) in auto)
  moreover have "{j \<in> set ids. majority_seen u1 j} = {j \<in> set ids. majority_seen u j}"
    using eff Cons.prems(3) by (metis (no_types, lifting) distinct.simps(2))
  ultimately show ?case using eff new by auto
qed simp

end

lemma delivery_turn_delivers:
  assumes turn: "delivery_turn hs k s s'" and inv: "urb_inv (mgr s k)" and on: "on (mgr s k)"
    and i: "i \<in> known (mgr s k)" "i \<notin> set_abs (delivered (mgr s k)) \<Longrightarrow> majority_seen (mgr s k) i"
  shows "i \<in> set_abs (delivered (mgr s' k))"
proof -
  from turn obtain after_pop ids m' where t: "reads_front after_pop" "distinct ids"
    "set ids = pending_for_delivery (mgr s k)" "URB_DeliverPending ufifo_vt after_pop ids (mgr s k) = Inr m'"
    "s' = set_mgr k m' s"
    unfolding delivery_turn_def by blast
  from t(4) on have "fold_result (URB_deliver_one ufifo_vt after_pop) ids (mgr s k) = Inr m'"
    by (simp add: URB_DeliverPending_def)
  from ufifo_urb.fold_deliver_effect [OF this inv t(2) equalityD1 [OF t(3)] t(1)] i t(3) show ?thesis
    by (auto simp: t(5) mgr_set_proc known_def)
qed

lemma eventually_delivered:
  assumes run: "sys_run hs run" and hs: "hosts_ok hs" and few: "few_broadcasts_run hs run"
    and fair: "fair_threads hs C run" "fair_loss hs C run" and C: "majority hs C"
    and c: "c \<in> C" "i \<in> known (mgr (run n) c)" and k: "k \<in> C"
  shows "\<exists>m. i \<in> set_abs (delivered (mgr (run m) k))"
proof -
  note inv = run_invs(2) [OF run hs]
  have host: "\<exists>h \<in> set hs. j = h_id h" if "j \<in> C" for j using C that by (auto simp: majority_def)
  have hear: "\<exists>m. heard (mgr (run m) k') j i" if "j \<in> C" "k' \<in> C" "j \<noteq> k'" "i \<in> known (mgr (run n) j)" for j k' n
    using eventually_heard [OF run hs few fair] host [OF that(1)] host [OF that(2)] that by metis
  have known: "\<exists>m. i \<in> known (mgr (run m) j)" if "j \<in> C" for j
  proof (cases "j = c")
    case False
    with hear [OF c(1) that _ c(2)] heard_known [OF inv] host [OF that] show ?thesis by fastforce
  qed (use c(2) in blast)
  obtain n1 where n1: "\<And>j m. j \<in> C - {k} \<Longrightarrow> n1 \<le> m \<Longrightarrow> heard (mgr (run m) k) j i"
  proof (rule common_time [of "C - {k}" "\<lambda>j m. heard (mgr (run m) k) j i"])
    show "\<exists>m. heard (mgr (run m) k) j i" if "j \<in> C - {k}" for j
      using that known [of j] hear [of j k] k by blast
    show "heard (mgr (run m) k) j i" if "heard (mgr (run n) k) j i" "n \<le> m" for j n m
      by (rule run_grows(2) [OF run hs that(2,1)])
  qed (rule finite, rule that)
  obtain n2 where n2: "i \<in> known (mgr (run n2) k)" using known [OF k] by blast
  obtain m where m: "max n1 n2 \<le> m" "delivery_turn hs k (run m) (run (Suc m))"
    using fair(1) k unfolding fair_threads_def infinitely_often_def by blast
  have "i \<in> known (mgr (run m) k)" using n2 run_grows(1) [OF run hs, of n2 m] m(1) by auto
  moreover have "majority_seen (mgr (run m) k) i" if "i \<notin> set_abs (delivered (mgr (run m) k))"
    by (rule heard_majority [OF inv hs C k _ that]) (use n1 m(1) in auto)
  moreover obtain h where h: "h \<in> set hs" "k = h_id h" using host [OF k] by blast
  ultimately have "i \<in> set_abs (delivered (mgr (run (Suc m)) k))"
    using delivery_turn_delivers [OF m(2)] sys_inv_proc(3) [OF inv]
      servingD(1) [OF reachable_serving [OF run_invs(1) [OF run hs] hs]] by (metis imageI)
  then show ?thesis ..
qed

section \<open>Own messages leave the queue\<close>

lemma heard_self:
  assumes "sys_inv hs s" and "q \<in> ids_of hs"
  shows "heard (mgr s q) q i \<longleftrightarrow> i \<in> set_abs (delivered (mgr s q))"
  using sys_inv_proc(5) [OF assms, of i] by (auto simp: heard_def)

lemma run_delivered:
  assumes run: "sys_run hs run" and hs: "hosts_ok hs" and q: "q \<in> ids_of hs" and "n \<le> m"
    and "i \<in> set_abs (delivered (mgr (run n) q))"
  shows "i \<in> set_abs (delivered (mgr (run m) q))"
  using run_grows(2) [OF run hs assms(4), of q q i] assms(5) heard_self [OF run_invs(2) [OF run hs] q] by blast

lemma step_counter:
  assumes inv: "sys_inv hs s" and step: "sys_step hs s s'"
  shows "bc_n_messages_sent (mgr s q) \<le> bc_n_messages_sent (mgr s' q)"
  using step
proof cases
  case (sys_send h p msg m')
  then have "bc_n_messages_sent (mgr s p) \<le> bc_n_messages_sent m'"
    using URB_Send_counts(1) [OF sys_send(4) ufifo_urb.urb_class_axioms] u32_less_succ by (metis order_refl order_less_imp_le)
  then show ?thesis by (simp add: sys_send(1) mgr_set_proc)
next
  case (sys_deliver h p after_pop ids m')
  then have "carries_on (mgr s p) m'"
    using ufifo_urb.fold_deliver_carries_on by (auto simp: URB_DeliverPending_def split: if_splits)
  then show ?thesis by (simp add: sys_deliver(1) mgr_set_proc carries_on_def)
next
  case (sys_messages h p sendto links ord out)
  then show ?thesis by (simp add: emit_def)
next
  case (sys_acks h p sendto strong now links oa od out m')
  have "carries_on (mgr s p) m'"
    using carries_on_quiet [OF quiet_SendAcks [of "mgr s p" sendto strong now links oa od]] sys_acks(4) by simp
  then show ?thesis by (simp add: sys_acks(1) emit_def set_proc_def carries_on_def)
next
  case (sys_receive h p src bs now srv' m')
  have "carries_on (mgr s p) m'"
    using inv sys_receive(2,4) sys_receive(5) [unfolded sys_receive(3)]
  proof (cases rule: receive_cases)
    case (link h' pl)
    from link_notify_carries_on [OF link(4-7)] show ?thesis by (simp add: sys_receive(3))
  qed (simp add: sys_receive(3))
  then show ?thesis by (simp add: sys_receive(1) mgr_set_proc carries_on_def)
qed

lemma run_counter:
  assumes run: "sys_run hs run" and hs: "hosts_ok hs" and "n \<le> m"
  shows "bc_n_messages_sent (mgr (run n) q) \<le> bc_n_messages_sent (mgr (run m) q)"
  using assms(3)
  by (rule lift_Suc_mono_le [rotated, where f = "\<lambda>n. bc_n_messages_sent (mgr (run n) q)"])
    (use run in \<open>simp add: step_counter [OF run_invs(2) [OF run hs]] sys_run_def\<close>)

lemma nothing_pending_own:
  assumes inv: "sys_inv hs s" and c: "c \<in> ids_of hs" and idle: "known (mgr s c) \<subseteq> set_abs (delivered (mgr s c))"
    and n: "0 < n" "n < bc_n_messages_sent (mgr s c)"
  shows "Msg_Id n c \<in> set_abs (delivered (mgr s c))"
proof -
  note r = ufifo_runs.reachable_inv [OF sys_inv_proc(2) [OF inv c]]
  have "own_in_network (mgr s c) = {}"
    using r idle by (auto simp: own_in_network_def urb_inv_def delivery_ok_def known_def)
  then have "own_pending_for_broadcast (mgr s c) = []"
    using r by (auto simp: urb_inv_def window_ok_def word_less_nat_alt)
  moreover have "bc_id (mgr s c) = c" using sys_inv_proc(1) [OF inv c] by (simp add: wired_def)
  ultimately show ?thesis using r n idle by (auto simp: own_all_def)
qed

text \<open>
  What a process knows stops growing, as there are finitely many identifiers; once all of it is
  delivered the window is open, so nothing can be left in the queue.
\<close>

lemma eventually_idle:
  assumes run: "sys_run hs run" and hs: "hosts_ok hs" and few: "few_broadcasts_run hs run"
    and fair: "fair_threads hs C run" "fair_loss hs C run" and C: "majority hs C" and c: "c \<in> C"
  obtains m where "n \<le> m" "known (mgr (run m) c) \<subseteq> set_abs (delivered (mgr (run m) c))"
proof -
  have q: "c \<in> ids_of hs" using C c by (auto simp: majority_def)
  let ?known = "\<lambda>m. known (mgr (run m) c)"
  obtain m where m: "\<And>x l. x \<in> (\<Union>l. ?known l) \<Longrightarrow> m \<le> l \<Longrightarrow> x \<in> set_abs (delivered (mgr (run l) c))"
  proof (rule common_time [of "\<Union>l. ?known l" "\<lambda>x m. x \<in> set_abs (delivered (mgr (run m) c))"])
    show "\<exists>m. x \<in> set_abs (delivered (mgr (run m) c))" if "x \<in> (\<Union>l. ?known l)" for x
      using that eventually_delivered [OF run hs few fair C c _ c] by blast
    show "x \<in> set_abs (delivered (mgr (run m) c))" if "x \<in> set_abs (delivered (mgr (run n) c))" "n \<le> m" for x n m
      by (rule run_delivered [OF run hs q that(2,1)])
  qed (rule finite_msg_ids, rule that)
  have "?known (max n m) \<subseteq> set_abs (delivered (mgr (run (max n m)) c))" using m [of _ "max n m"] by auto
  then show ?thesis by (rule that [rotated]) simp
qed

lemma own_eventually_known:
  assumes run: "sys_run hs run" and hs: "hosts_ok hs" and few: "few_broadcasts_run hs run"
    and fair: "fair_threads hs C run" "fair_loss hs C run" and C: "majority hs C" and c: "c \<in> C"
    and s: "0 < s" "s < bc_n_messages_sent (mgr (run n) c)"
  shows "\<exists>m. Msg_Id s c \<in> known (mgr (run m) c)"
proof -
  obtain m where m: "n \<le> m" "known (mgr (run m) c) \<subseteq> set_abs (delivered (mgr (run m) c))"
    using eventually_idle [OF run hs few fair C c] by blast
  have "s < bc_n_messages_sent (mgr (run m) c)" by (rule less_le_trans [OF s(2) run_counter [OF run hs m(1)]])
  moreover have "c \<in> ids_of hs" using C c by (auto simp: majority_def)
  ultimately have "Msg_Id s c \<in> set_abs (delivered (mgr (run m) c))"
    using nothing_pending_own [OF run_invs(2) [OF run hs] _ m(2) s(1)] by blast
  then show ?thesis by (auto simp: known_def)
qed

section \<open>Eventual delivery\<close>

lemma eventually_logged:
  assumes run: "sys_run hs run" and hs: "hosts_ok hs" and k: "k \<in> ids_of hs" and n: "0 < n"
    and del: "\<And>n'. 0 < n' \<Longrightarrow> n' \<le> n \<Longrightarrow> \<exists>m. Msg_Id n' a \<in> set_abs (delivered (mgr (run m) k))"
  shows "\<exists>m. deliver_line a n \<in> log_of (run m) k"
proof -
  obtain m where m: "\<And>n' l. n' \<in> {0 <.. n} \<Longrightarrow> m \<le> l \<Longrightarrow> Msg_Id n' a \<in> set_abs (delivered (mgr (run l) k))"
  proof (rule common_time [of "{0 <.. n}" "\<lambda>n' l. Msg_Id n' a \<in> set_abs (delivered (mgr (run l) k))"])
    show "\<exists>m. Msg_Id n' a \<in> set_abs (delivered (mgr (run m) k))" if "n' \<in> {0 <.. n}" for n' using that del by simp
    show "Msg_Id n' a \<in> set_abs (delivered (mgr (run l') k))"
      if "Msg_Id n' a \<in> set_abs (delivered (mgr (run l) k))" "l \<le> l'" for n' l l'
      by (rule run_delivered [OF run hs k that(2,1)])
  qed (rule finite, rule that)
  have "deliver_line a n \<in> log_of (run m) k"
    by (rule log_deliveries [OF run_invs(2) [OF run hs] k n]) (use m in simp)
  then show ?thesis ..
qed

end
