(* ===== verification/System_Liveness.thy ===== *)
theory System_Liveness
  imports System_Runs
begin

text \<open>
  Liveness: in every fair infinite run of the system, what a correct process has sent to the network
  and what any process delivers is eventually delivered by every correct process.
\<close>

section \<open>Settled systems have fair runs\<close>

lemma steps_run:
  assumes "step\<^sup>*\<^sup>* s s'" and "step s' s'"
  obtains run N where "run 0 = s" "\<And>n. step (run n) (run (Suc n))" "\<And>n. N \<le> n \<Longrightarrow> run n = s'"
proof -
  have "\<exists>run N. run 0 = s \<and> (\<forall>n. step (run n) (run (Suc n))) \<and> (\<forall>n \<ge> N. run n = s')"
    using assms(1)
  proof (induction rule: converse_rtranclp_induct)
    case base
    show ?case using assms(2) by (intro exI [of _ "\<lambda>_. s'"]) simp
  next
    case (step y z)
    then obtain run N where run: "run 0 = z" "\<forall>n. step (run n) (run (Suc n))" "\<forall>n \<ge> N. run n = s'" by blast
    have "step (case_nat y run n) (case_nat y run (Suc n))" for n using run(1,2) step(1) by (cases n) simp_all
    moreover have "case_nat y run n = s'" if "Suc N \<le> n" for n using run(3) that by (cases n) simp_all
    ultimately show ?case by (intro exI [of _ "case_nat y run"] exI [of _ "Suc N"]) simp
  qed
  then show ?thesis using that by blast
qed

lemma emit_nothing [simp]: "emit src [] s = s"
  by (simp add: emit_def)

lemma settled_turns:
  assumes inv: "sys_inv hs s" "exchange_inv hs s" "serving hs s" and hs: "hosts_ok hs" and C: "majority hs (ids_of hs)"
    and settled: "settled (ids_of hs) s" and q: "q \<in> ids_of hs"
  shows "message_turn hs q [] s s" "delivery_turn hs q s s" "message_turn hs q out s t \<Longrightarrow> out = []"
proof -
  obtain h where h: "h \<in> set hs" "q = h_id h" using q by blast
  have on: "on (mgr s q)" using servingD(1) [OF inv(3) h(1)] h(2) by simp
  have "dom (perfect_links (mgr s q)) = ids_of hs - {q}" using sys_inv_proc(1) [OF inv(1) q] by (simp add: wired_def)
  then have ids: "k \<in> ids_of hs" if "perfect_links (mgr s q) k = Some pl" for k pl using that by (metis Diff_iff domI)
  have empty: "messages_to_send pl = Map.empty" if "perfect_links (mgr s q) k = Some pl" for k pl
    using settled q that ids [OF that] unfolding settled_def by blast
  obtain links where links: "set links = dom (perfect_links (mgr s q))" using finite_list finite by metis
  have "Manager_send_loop (\<lambda>_ _. Inr 0) ls (\<lambda>_. []) (mgr s q) = Inr []" for ls
    by (induction ls) (auto simp: PL_SendMessages_def split: option.split)
  then have "Manager_SendMessages (\<lambda>_ _. Inr 0) links (\<lambda>_. []) (mgr s q) = Inr []"
    by (simp add: Manager_SendMessages_def)
  with h links empty show "message_turn hs q [] s s"
    unfolding message_turn_def by (intro conjI exI [of _ "\<lambda>_ _. Inr 0"] exI [of _ links] exI [of _ "\<lambda>_. []"]) auto
  have "pending_for_delivery (mgr s q) = {}"
    using settled_delivered [OF inv(2,1) hs C settled q _ q] sys_inv_proc(3) [OF inv(1) q]
    by (auto simp: urb_inv_def delivery_ok_def known_def)
  with on show "delivery_turn hs q s s"
    unfolding delivery_turn_def
    by (intro exI [of _ Inr] exI [of _ "[]"] exI [of _ "mgr s q"])
      (simp add: reads_front_def URB_DeliverPending_def set_proc_def)
  show "out = []" if turn: "message_turn hs q out s t"
  proof (rule ccontr)
    assume "out \<noteq> []"
    then obtain bs dst where "(bs, dst) \<in> set out" by (cases out) auto
    with turn obtain sendto links ord where "Manager_SendMessages sendto links ord (mgr s q) = Inr out"
      unfolding message_turn_def by blast
    from SendMessages_out_link [OF this \<open>(bs, dst) \<in> set out\<close>] empty show False by auto
  qed
qed

lemma message_turn_step: "message_turn hs q out s s' \<Longrightarrow> sys_step hs s s'"
  unfolding message_turn_def by (auto intro: sys_messages)

lemma settled_fair_run:
  assumes start: "sys_init hs s0" "sys_step hs s0 s1" "(sys_step hs)\<^sup>*\<^sup>* s1 s" and ok: "healthy hs {} s" and hs: "hosts_ok hs" "hs \<noteq> []"
    and C: "majority hs (ids_of hs)" and settled: "settled (ids_of hs) s"
  obtains run N where "sys_run hs run" "fair_threads hs (ids_of hs) run" "fair_loss hs (ids_of hs) run"
    "run 1 = s1" "\<And>n. N \<le> n \<Longrightarrow> run n = s"
proof -
  note inv = healthy_invs [OF ok hs(1)]
  note turns = settled_turns [OF inv hs(1) C settled]
  have "hd hs \<in> set hs" using hs(2) by simp
  then have "sys_step hs s s" using message_turn_step turns(1) by blast
  from steps_run [OF start(3) this] obtain rest M where later: "rest 0 = s1"
    "\<And>n. sys_step hs (rest n) (rest (Suc n))" "\<And>n. M \<le> n \<Longrightarrow> rest n = s" by blast
  define run where "run = case_nat s0 rest"
  define N where "N = Suc M"
  have run: "run 0 = s0" "\<And>n. sys_step hs (run n) (run (Suc n))" "\<And>n. N \<le> n \<Longrightarrow> run n = s" "run 1 = s1"
    using later start(2) by (auto simp: run_def N_def split: nat.split dest: Suc_le_D)
  have rest: "infinitely_often (\<lambda>n. P (run n) (run (Suc n)))" if "P s s" for P
    unfolding infinitely_often_def using that run(3) by (metis le_SucI max.cobounded1 max.cobounded2)
  show ?thesis
  proof (rule that [of run N])
    show "sys_run hs run" using run(1,2) start(1) by (simp add: sys_run_def)
    show "fair_threads hs (ids_of hs) run"
      unfolding fair_threads_def
    proof (intro ballI conjI)
      fix c assume c: "c \<in> ids_of hs"
      show "infinitely_often (\<lambda>n. \<exists>out. message_turn hs c out (run n) (run (Suc n)))"
        by (rule rest [of "\<lambda>s t. \<exists>out. message_turn hs c out s t"]) (use turns(1) [OF c] in blast)
      show "infinitely_often (\<lambda>n. delivery_turn hs c (run n) (run (Suc n)))"
        by (rule rest) (rule turns(2) [OF c])
    qed
    have "\<not> infinitely_often (\<lambda>n. \<exists>out. message_turn hs q out (run n) (run (Suc n)) \<and> d \<in> set out)" if q: "q \<in> ids_of hs" for q d
    proof
      assume "infinitely_often (\<lambda>n. \<exists>out. message_turn hs q out (run n) (run (Suc n)) \<and> d \<in> set out)"
      then obtain n out where "N \<le> n" "message_turn hs q out (run n) (run (Suc n))" "d \<in> set out"
        unfolding infinitely_often_def by blast
      with turns(3) [OF q] run(3) show False by fastforce
    qed
    then show "fair_loss hs (ids_of hs) run" unfolding fair_loss_def by blast
  qed (rule run(4), rule run(3))
qed

lemma few_at_end:
  assumes run: "sys_run hs run" and hs: "hosts_ok hs" and few: "broadcasts hs (run N) + 1 < 2 ^ 32"
    and stays: "\<And>n. N \<le> n \<Longrightarrow> run n = run N"
  shows "few_broadcasts_run hs run"
  unfolding few_broadcasts_run_def
proof
  fix n
  have "bc_n_messages_sent (mgr (run n) a) \<le> bc_n_messages_sent (mgr (run N) a)" for a
    using run_counter [OF run hs, of n N a] stays [of n] by (cases "n \<le> N") auto
  then have "broadcasts hs (run n) \<le> broadcasts hs (run N)"
    unfolding broadcasts_def by (intro sum_mono diff_le_mono) (simp add: word_le_nat_alt)
  with few show "broadcasts hs (run n) + 1 < 2 ^ 32" by linarith
qed

text \<open>Three correct processes, of which the first one broadcasts a message.\<close>

lemma ex_sent_all: "healthy ex_peers {1, 2, 3} ex_sent" "sys_step ex_peers ex_start ex_sent"
proof -
  note fresh = ex_start_fresh [unfolded urb_fresh_def]
  have "sendable (mgr ex_sent 3)" using fresh [of 3] by (simp add: sendable_def ex_sent_def set_proc_def)
  with ex_sent_healthy(1) show "healthy ex_peers {1, 2, 3} ex_sent" by (simp add: healthy_def)
  show "sys_step ex_peers ex_start ex_sent"
    unfolding ex_sent_def
    by (rule sys_send [of "ex_peer 1" _ _ "[]"])
      (use ex_sent_step fresh [of 1] in \<open>simp_all add: ex_peers_def ex_peer_def\<close>)
qed

lemma ex_sent_pending: "Msg_Id 1 1 \<in> pending_for_delivery (mgr ex_sent 1)"
proof -
  have "bc_id (mgr ex_start 1) = 1"
    using sys_inv_proc(1) [OF sys_init_inv [OF ex_start_init ex_peers_ok(1)], of 1] by (simp add: wired_def ex_peers_ok)
  then show ?thesis
    using ex_start_fresh [of 1]
    by (auto simp: ex_sent_def set_proc_def urb_fresh_def URB_Send_def Let_def ufifo_vt_def UFIFO_SendInternal_def
        URB_SendInternal_def BEB_SendInternal_eq string_bytes_def LogSend_def send_on_all_def)
qed

lemma ex_fair_run:
  obtains run N where "sys_run ex_peers run" "fair_threads ex_peers {1, 2, 3} run" "fair_loss ex_peers {1, 2, 3} run"
    "few_broadcasts_run ex_peers run" "majority ex_peers {1, 2, 3}" "Msg_Id 1 1 \<in> pending_for_delivery (mgr (run 1) 1)"
    "deliver_line 1 1 \<in> log_of (run N) 1"
proof -
  have C: "majority ex_peers {1, 2, 3}" using ex_peers_ok(2) by (auto simp: majority_def ex_peers_def)
  obtain s where s: "advances ex_peers {1, 2, 3} ex_sent s" "settled {1, 2, 3} s"
    using can_settle [OF ex_sent_all(1) ex_peers_ok(1)] ex_peers_ok(2) by auto
  note ok = healthy_nobody [OF healthy_advances [OF ex_sent_all(1) s(1)]]
  have "(sys_step ex_peers)\<^sup>*\<^sup>* ex_sent s" using s(1) by (simp add: advances_def)
  moreover have "ex_peers \<noteq> []" by (simp add: ex_peers_def)
  ultimately obtain run N where run: "sys_run ex_peers run" "fair_threads ex_peers {1, 2, 3} run"
    "fair_loss ex_peers {1, 2, 3} run" "run 1 = ex_sent" "\<And>n. N \<le> n \<Longrightarrow> run n = s"
    using settled_fair_run [OF ex_start_init ex_sent_all(2) _ ok ex_peers_ok(1), unfolded ex_peers_ok(2)] C s(2)
    by blast
  have N: "run N = s" using run(5) by simp
  have "broadcasts ex_peers (run N) + 1 < 2 ^ 32" using ok unfolding healthy_def N by blast
  then have few: "few_broadcasts_run ex_peers run"
    by (rule few_at_end [OF run(1) ex_peers_ok(1)]) (simp add: run(5) N)
  have "bc_n_messages_sent (mgr s 1) = 2" using s(1) ex_sent_healthy(2) by (simp add: advances_def carries_on_def)
  then have b: "broadcast_line 1 \<in> log_of s 1"
    using broadcast_logged_iff [OF sys_inv_proc(2) [OF healthy_invs(1) [OF ok ex_peers_ok(1)]], of 1] ex_peers_ok(2)
    by simp
  have "deliver_line 1 1 \<in> log_of s 1" by (rule validity [OF ok ex_peers_ok(1) C s(2) _ b]) simp_all
  then show ?thesis using that [OF run(1-3) few C, of N] run(4) N ex_sent_pending by simp
qed

section \<open>Properties\<close>

text \<open>
  C2: Relaying and validity, as liveness. In every infinite run in which the threads of a majority of
  correct processes keep taking turns and the network is fair to the datagrams between them, each
  message, its own or another's, that a correct process holds as pending or has delivered, with the
  messages of the same author before it, is eventually delivered by every correct process, in the
  log. The other processes may crash or be arbitrarily slow, and datagrams may be lost, repeated and
  reordered. An own message is held once \<open>Send\<close> or \<open>DeliverPending\<close> has handed it on; the
  program does not guarantee that it leaves the queue of own messages (\<open>Send_lost_wakeup\<close>), so
  nothing is claimed for a message that is still queued.
\<close>

theorem system_eventual_delivery:
  assumes "sys_run hs run" and "hosts_ok hs" and "few_broadcasts_run hs run"
    and "fair_threads hs C run" and "fair_loss hs C run" and "majority hs C"
    and "c \<in> C" and "0 < n"
    and "\<forall>n'. 0 < n' \<and> n' \<le> n \<longrightarrow>
      Msg_Id n' a \<in> pending_for_delivery (mgr (run t) c) \<union> set_abs (delivered (mgr (run t) c))"
    and "k \<in> C"
  shows "\<exists>t'. deliver_line a n \<in> set (lg_lines (mgr_logger (mgr (run t') k)))"
proof (rule eventually_logged [OF assms(1,2)])
  show "k \<in> ids_of hs" using assms(6,10) by (auto simp: majority_def)
  fix n' assume "0 < n'" "n' \<le> n"
  then have "Msg_Id n' a \<in> known (mgr (run t) c)" using assms(9) by (simp add: known_def)
  then show "\<exists>m. Msg_Id n' a \<in> set_abs (delivered (mgr (run m) k))"
    by (rule eventually_delivered [OF assms(1-7) _ assms(10)])
qed (rule assms(8))

theorem system_eventual_delivery_witness:
  "\<exists>run t t'. sys_run ex_peers run \<and> Msg_Id 1 1 \<in> pending_for_delivery (mgr (run t) 1) \<and>
     deliver_line 1 1 \<in> set (lg_lines (mgr_logger (mgr (run t') 3)))"
proof -
  obtain run N where r: "sys_run ex_peers run" "fair_threads ex_peers {1, 2, 3} run" "fair_loss ex_peers {1, 2, 3} run"
    "few_broadcasts_run ex_peers run" "majority ex_peers {1, 2, 3}" and sent: "Msg_Id 1 1 \<in> pending_for_delivery (mgr (run 1) 1)"
    by (rule ex_fair_run)
  have "\<exists>t'. deliver_line 1 1 \<in> set (lg_lines (mgr_logger (mgr (run t') 3)))"
  proof (rule system_eventual_delivery [OF r(1) ex_peers_ok(1) r(4,2,3,5)])
    show "\<forall>n'. 0 < n' \<and> n' \<le> 1 \<longrightarrow>
      Msg_Id n' 1 \<in> pending_for_delivery (mgr (run 1) 1) \<union> set_abs (delivered (mgr (run 1) 1))"
    proof (intro allI impI)
      fix n' :: u32 assume "0 < n' \<and> n' \<le> 1"
      then have "n' = 1" by (simp add: word_le_nat_alt word_less_nat_alt word_unat_eq_iff)
      with sent show "Msg_Id n' 1 \<in> pending_for_delivery (mgr (run 1) 1) \<union> set_abs (delivered (mgr (run 1) 1))" by simp
    qed
  qed simp_all
  with r(1) sent show ?thesis by blast
qed

text \<open>
  C3: Uniform agreement, as liveness. In every such run, whatever any process delivers, even one
  that crashes right after, is eventually delivered by every correct process.
\<close>

theorem system_eventual_agreement:
  assumes "sys_run hs run" and "hosts_ok hs" and "few_broadcasts_run hs run"
    and "fair_threads hs C run" and "fair_loss hs C run" and "majority hs C"
    and "q \<in> ids_of hs" and "deliver_line a n \<in> set (lg_lines (mgr_logger (mgr (run t) q)))" and "k \<in> C"
  shows "\<exists>t'. deliver_line a n \<in> set (lg_lines (mgr_logger (mgr (run t') k)))"
proof (rule eventually_logged [OF assms(1,2)])
  note inv = run_invs(2) [OF assms(1,2)]
  show "k \<in> ids_of hs" using assms(6,9) by (auto simp: majority_def)
  show "0 < n" using assms(8) unfolding logged_iff_delivered [OF sys_inv_proc(2) [OF inv assms(7)]] by blast
  fix n' assume n': "0 < n'" "n' \<le> n"
  have "length hs div 2 < card (knowers hs (run t) (Msg_Id n' a))"
    by (rule sys_inv_proc(6) [OF inv assms(7) logged_deliveries [OF inv assms(7,8) n']])
  moreover have "knowers hs (run t) (Msg_Id n' a) \<subseteq> ids_of hs" by (auto simp: knowers_def)
  ultimately obtain c where c: "c \<in> C" "c \<in> knowers hs (run t) (Msg_Id n' a)"
    using majority_meets [OF assms(6)] by blast
  then have "Msg_Id n' a \<in> known (mgr (run t) c)" by (simp add: knowers_def)
  with c(1) show "\<exists>m. Msg_Id n' a \<in> set_abs (delivered (mgr (run m) k))"
    by (rule eventually_delivered [OF assms(1-6) _ _ assms(9)])
qed

theorem system_eventual_agreement_witness:
  "\<exists>run t t'. sys_run ex_peers run \<and> deliver_line 1 1 \<in> set (lg_lines (mgr_logger (mgr (run t) 1))) \<and>
     deliver_line 1 1 \<in> set (lg_lines (mgr_logger (mgr (run t') 2)))"
proof -
  obtain run N where r: "sys_run ex_peers run" "fair_threads ex_peers {1, 2, 3} run" "fair_loss ex_peers {1, 2, 3} run"
    "few_broadcasts_run ex_peers run" "majority ex_peers {1, 2, 3}" "deliver_line 1 1 \<in> log_of (run N) 1"
    by (rule ex_fair_run) blast
  have "1 \<in> ids_of ex_peers" by (simp add: ex_peers_ok(2))
  from system_eventual_agreement [OF r(1) ex_peers_ok(1) r(4,2,3,5) this r(6), of 2] r(1,6) show ?thesis by auto
qed

end
