(* ===== verification/Program_Outcomes.thy ===== *)
theory Program_Outcomes
  imports Process_Drivers
begin

text \<open>
  How the program ends or which process it becomes: the perfect-links driver and \<^verbatim>\<open>main\<close>.
\<close>

section \<open>Exceptions of the parser\<close>

text \<open>
  The parser fails only by throwing, with one exception: a host name that cannot be resolved, where
  \<^verbatim>\<open>IpLookup\<close> frees an uninitialised pointer.
\<close>

definition unresolved :: "libc \<Rightarrow> bool" where
  "unresolved lc \<longleftrightarrow> \<not> lc_freeaddrinfo_returns lc \<and> (\<exists>name. lc_inet_pton lc name = 0 \<and> lc_getaddrinfo lc name = None)"

fun throws :: "libc \<Rightarrow> 'a result \<Rightarrow> bool" where
  "throws lc (Inl (Runtime_Error e)) = True"
| "throws lc (Inl (Invalid_Argument e)) = True"
| "throws lc (Inl Uninitialised_Pointer) = unresolved lc"
| "throws lc (Inl e) = False"
| "throws lc (Inr x) = True"

lemma throws_bind [simp]: "throws lc r \<Longrightarrow> (\<And>x. r = Inr x \<Longrightarrow> throws lc (f x)) \<Longrightarrow> throws lc (bind_result r f)"
  by (cases "(lc, r)" rule: throws.cases) simp_all

lemma throws_CheckParsed [simp]: "throws lc (CheckParsed p)"
  by (simp add: CheckParsed_def)

lemma throws_Host_ctor [simp]: "throws lc (Host_ctor lc name prt i)"
proof -
  have "throws lc (IpLookup_loop lc res)" for res by (induction res rule: IpLookup_loop.induct) simp_all
  then show ?thesis by (auto simp: Host_ctor_def IpLookup_def IsValidAddress_def unresolved_def split: option.splits)
qed

lemma throws_host_lines: "throws lc (parse_host_lines lc path n ls hs)"
  by (induction ls arbitrary: n hs) (simp_all add: parse_host_line_def split: option.splits)

lemma throws_ParseHostsFile [simp]: "throws lc (ParseHostsFile lc fs p)"
  by (auto simp: ParseHostsFile_def Parser_hosts_path_def throws_host_lines check_hosts_def Let_def
      intro!: throws_bind split: option.splits)

lemma throws_ParseConfigFile [simp]: "throws lc (ParseConfigFile fs p)"
  by (auto simp: ParseConfigFile_def Parser_config_path_def Let_def intro!: throws_bind
      split: option.splits exec_mode.splits)

lemma throws_Parse: "throws lc (Parser_Parse lc fs p)"
  by (auto simp: Parser_Parse_def ParseInternal_def ParseMode_def Help_def Let_def intro!: throws_bind
      split: prod.splits)

lemma or_exit_throws:
  assumes "throws lc (Inl x :: 'a result)"
  shows "if x = Uninitialised_Pointer then or_exit (Inl x :: 'a result) = Inl Uninitialised_Pointer \<and> unresolved lc
    else or_exit (Inl x :: 'a result) = Inl Exit_Failure"
  using assms by (cases x) simp_all

lemma Parse_parsed:
  assumes "Parser_Parse lc fs p = Inr p'"
  shows "parsed p'"
proof -
  have "parsed p2" if "ParseHostsFile lc fs p1 = Inr p2" "parsed p1" for p1 p2
    using that by (auto simp: ParseHostsFile_def split: option.splits)
  moreover have "parsed p2" if cf: "ParseConfigFile fs p1 = Inr p2" "parsed p1" for p1 p2
  proof -
    from cf(1) obtain path where path: "Parser_config_path p1 = Inr path"
      by (cases "Parser_config_path p1") (simp_all add: ParseConfigFile_def)
    with cf(1) obtain contents where c: "fs path = Some contents"
      by (cases "fs path") (simp_all add: ParseConfigFile_def)
    define line where "line = (case getlines contents of [] \<Rightarrow> [] | l # _ \<Rightarrow> l)"
    from cf path c show ?thesis
      by (cases "p_exec_mode p1"; cases "extract_unsigned 32 line")
        (auto simp: ParseConfigFile_def Let_def line_def [symmetric] split: if_split_asm option.split_asm)
  qed
  ultimately show ?thesis
    using assms by (auto simp: Parser_Parse_def Let_def split: if_splits)
qed

section \<open>The perfect-links driver\<close>

lemma Manager_Adds_threads:
  "ack_thread (fold Manager_Add pls m) = ack_thread m" "send_thread (fold Manager_Add pls m) = send_thread m"
  by (induction pls arbitrary: m) (simp_all add: Manager_Add_def)

text \<open>The manager of either role before the messages are sent.\<close>

definition pl_manager :: "os \<Rightarrow> parser \<Rightarrow> host \<Rightarrow> manager" where
  "pl_manager os p target =
     (fold Manager_Add (map (link_to (p_id p)) (if p_id p \<noteq> h_id target then [target] else peers p))
        (Manager_init (Logger_ctor (os_can_open os) (os_disk os) (p_output_path p))))
     \<lparr>on := True, ack_thread := True, send_thread := True\<rparr>"

lemma PL_sends_threads:
  "on (PL_sends t n m) = on m \<and> ack_thread (PL_sends t n m) = ack_thread m \<and> send_thread (PL_sends t n m) = send_thread m"
proof -
  have "on (fold (\<lambda>_. BasicManager_Send t []) xs m) = on m \<and>
      ack_thread (fold (\<lambda>_. BasicManager_Send t []) xs m) = ack_thread m \<and>
      send_thread (fold (\<lambda>_. BasicManager_Send t []) xs m) = send_thread m" for xs :: "nat list"
    by (induction xs arbitrary: m)
      (simp_all add: BasicManager_Send_def log_line_def update_link_def Let_def split: option.splits)
  then show ?thesis by (simp add: PL_sends_def)
qed

lemma PL_driver_exact:
  assumes "parsed p"
  shows "case local_host p of
      Inl _ \<Rightarrow> drivers_PerfectLinks os p = Inl Terminate
    | Inr me \<Rightarrow>
        (case target_host p of
           Inl _ \<Rightarrow> drivers_PerfectLinks os p = Inl Terminate
         | Inr t \<Rightarrow>
             if os_socket os < 0 \<or> os_bind os < 0 then drivers_PerfectLinks os p = Inl Exit_Failure
             else \<exists>a. drivers_PerfectLinks os p = Inr a \<and> listens os me a \<and>
               app_manager a = (if p_id p \<noteq> h_id t
                 then PL_sends (h_id t) (p_n_messages_to_send p) (pl_manager os p t) else pl_manager os p t))"
proof (cases "local_host p")
  case (Inl e)
  with assms show ?thesis
    by (auto simp: drivers_PerfectLinks_def Parser_id_def Parser_hosts_def Parser_n_messages_to_send_def
        CheckParsed_def local_host_def split: if_splits)
next
  case me: (Inr me)
  show ?thesis
  proof (cases "target_host p")
    case (Inl e)
    with me assms show ?thesis
      by (auto simp: drivers_PerfectLinks_def Parser_id_def Parser_hosts_def Parser_n_messages_to_send_def
          CheckParsed_def target_host_def split: if_splits)
  next
    case (Inr t)
    let ?l = "Logger_ctor (os_can_open os) (os_disk os) (p_output_path p)"
    have start: "Manager_Start (fold Manager_Add pls (Manager_init ?l)) =
        Inr ((fold Manager_Add pls (Manager_init ?l))\<lparr>on := True, ack_thread := True, send_thread := True\<rparr>)" for pls
      by (simp add: Manager_Start_def Manager_Adds_threads Manager_init_def)
    from me Inr assms show ?thesis
      using start [of "[link_to (p_id p) t]"] start [of "map (link_to (p_id p)) (peers p)"]
      by (auto simp: drivers_PerfectLinks_def Parser_id_def Parser_hosts_def Parser_n_messages_to_send_def
          CheckParsed_def open_endpoints_cases UDPServer_Start_def add_link_eq add_links_eq pl_manager_def Let_def
          listens_def PL_sends_threads attach_all_socket attach_all_thread UDPServer_Attach_def host_addr_def)
  qed
qed

lemma PL_sends_effect:
  assumes "perfect_links m t = Some pl" and "pl_n_messages_sent pl = 1" and "messages_to_send pl = Map.empty"
    and "lg_is_open (mgr_logger m)" and "k < 2 ^ 32"
  shows "let m' = fold (\<lambda>_. BasicManager_Send t []) [0 ..< k] m in
    dom (perfect_links m') = dom (perfect_links m) \<and> lg_is_open (mgr_logger m') \<and>
    lg_lines (mgr_logger m') = lg_lines (mgr_logger m) @ map (\<lambda>j. broadcast_line (of_nat j)) [1 ..< Suc k] \<and>
    (\<exists>pl'. perfect_links m' t = Some pl' \<and> pl_n_messages_sent pl' = of_nat (Suc k) \<and>
       messages_to_send pl' = (\<lambda>s. if 0 < s \<and> unat s \<le> k then Some [] else None))"
  using assms(5)
proof (induction k)
  case 0
  have "messages_to_send pl = (\<lambda>s. if 0 < s \<and> unat s \<le> 0 then Some [] else None)"
    using assms(3) by (auto simp: fun_eq_iff unat_gt_0 word_gt_0)
  then show ?case using assms by simp
next
  case (Suc k)
  define m1 where "m1 = fold (\<lambda>_. BasicManager_Send t []) [0 ..< k] m"
  from Suc obtain pl1 where m1: "dom (perfect_links m1) = dom (perfect_links m)" "lg_is_open (mgr_logger m1)"
    "lg_lines (mgr_logger m1) = lg_lines (mgr_logger m) @ map (\<lambda>j. broadcast_line (of_nat j)) [1 ..< Suc k]"
    and pl1: "perfect_links m1 t = Some pl1" "pl_n_messages_sent pl1 = of_nat (Suc k)"
      "messages_to_send pl1 = (\<lambda>s. if 0 < s \<and> unat s \<le> k then Some [] else None)"
    by (auto simp: m1_def [symmetric] Let_def)
  have u: "unat (of_nat (Suc k) :: u32) = Suc k" using Suc.prems by (simp add: unat_of_nat del: of_nat_Suc)
  then have new: "messages_to_send pl1 (of_nat (Suc k)) = None" by (simp add: pl1(3) del: of_nat_Suc)
  have "(messages_to_send pl1)(of_nat (Suc k) \<mapsto> []) =
      (\<lambda>s. if 0 < s \<and> unat s \<le> Suc k then Some [] else None)"
    using u by (auto simp: pl1(3) fun_eq_iff word_gt_0 word_unat_eq_iff le_Suc_eq simp del: of_nat_Suc)
  moreover have m2: "BasicManager_Send t [] m1 = log_line (broadcast_line (of_nat (Suc k)))
      (update_link t (\<lambda>_. pl1\<lparr>pl_n_messages_sent := of_nat (Suc k) + 1,
         messages_to_send := (messages_to_send pl1)(of_nat (Suc k) \<mapsto> [])\<rparr>) m1)"
    using new pl1(1,2) by (simp add: BasicManager_Send_def PL_Send_string_def PL_Send_def string_bytes_def Let_def)
  moreover have "fold (\<lambda>_. BasicManager_Send t []) [0 ..< Suc k] m = BasicManager_Send t [] m1"
    by (simp add: m1_def)
  moreover have "dom (perfect_links (BasicManager_Send t [] m1)) = dom (perfect_links m1)"
    using pl1(1) by (auto simp: m2 log_line_def update_link_def)
  moreover have "lg_lines (mgr_logger (BasicManager_Send t [] m1)) =
      lg_lines (mgr_logger m) @ map (\<lambda>j. broadcast_line (of_nat j)) [1 ..< Suc (Suc k)]"
    using m1(2,3) by (simp add: m2 log_line_def update_link_def Logger_write_lines)
  ultimately show ?case
    using m1(1,2) pl1(1) by (simp add: Let_def)
qed

section \<open>Properties\<close>

text \<open>
  C32: The perfect-links driver. With a parsed configuration and an open log, it terminates the program
  exactly when the own or the target identifier is not in the hosts table; otherwise it exits with failure
  exactly when no socket could be created or bound; otherwise it runs. Then its socket is bound to
  the address of the own host and all its threads are on; the target has a link to every
  other host and an empty log; a sender has one link, to the target, has logged \<^verbatim>\<open>b 1\<close> to
  \<^verbatim>\<open>b n\<close>, and has exactly the messages 1 to n queued on the link, as long as no acknowledgement has
  been received meanwhile.
\<close>

theorem PL_driver_outcome:
  assumes "parsed p" and "os_can_open os (p_output_path p)" and "distinct (map h_id (p_hosts p))"
  shows "case (local_host p, target_host p) of
      (Inr me, Inr t) \<Rightarrow>
        if os_socket os < 0 \<or> os_bind os < 0 then drivers_PerfectLinks os p = Inl Exit_Failure
        else (\<exists>a. drivers_PerfectLinks os p = Inr a \<and> listens os me a \<and>
          (let m = app_manager a; n = unat (p_n_messages_to_send p)
           in if p_id p = h_id t
              then dom (perfect_links m) = h_id ` set (p_hosts p) - {p_id p} \<and> lg_lines (mgr_logger m) = []
              else dom (perfect_links m) = {h_id t} \<and>
                lg_lines (mgr_logger m) = map (\<lambda>j. broadcast_line (of_nat j)) [1 ..< Suc n] \<and>
                (\<exists>pl. perfect_links m (h_id t) = Some pl \<and>
                   messages_to_send pl = (\<lambda>s. if 0 < s \<and> unat s \<le> n then Some [] else None))))
    | _ \<Rightarrow> drivers_PerfectLinks os p = Inl Terminate"
proof (cases "\<exists>me t. local_host p = Inr me \<and> target_host p = Inr t \<and> \<not> (os_socket os < 0 \<or> os_bind os < 0)")
  case False
  then show ?thesis using PL_driver_exact [OF assms(1), of os] by (auto split: sum.splits)
next
  case True
  then obtain me t a where hosts: "local_host p = Inr me" "target_host p = Inr t" "\<not> (os_socket os < 0 \<or> os_bind os < 0)"
    and run: "drivers_PerfectLinks os p = Inr a" "listens os me a"
      "app_manager a = (if p_id p \<noteq> h_id t
         then PL_sends (h_id t) (p_n_messages_to_send p) (pl_manager os p t) else pl_manager os p t)"
    using PL_driver_exact [OF assms(1), of os] by auto
  have lg: "mgr_logger (pl_manager os p t) = Logger_ctor (os_can_open os) (os_disk os) (p_output_path p)"
    by (simp add: pl_manager_def basic_adds.adds_logger basic_adds.add_logger Manager_init_def)
  then have op: "lg_is_open (mgr_logger (pl_manager os p t))" "lg_lines (mgr_logger (pl_manager os p t)) = []"
    using assms(2) by (simp_all add: Logger_ctor_def Logger_file_open_def)
  show ?thesis
  proof (cases "p_id p = h_id t")
    case True
    have dist: "distinct (map h_id (peers p))" using assms(3) by (simp add: distinct_map_filter)
    have "perfect_links (pl_manager os p t) j = map_option (\<lambda>h. PL_Subscribe This_Manager (link_to (p_id p) h))
        (map_of (map (\<lambda>h. (h_id h, h)) (peers p)) j)" for j
      unfolding pl_manager_def using True
      by (simp add: basic_adds.adds_links [OF dist, unfolded True]) (simp add: Manager_init_def split: option.splits)
    then have "dom (perfect_links (pl_manager os p t)) = h_id ` set (p_hosts p) - {p_id p}"
      by (force simp: dom_def map_of_eq_None_iff simp flip: not_None_eq)
    with run hosts True op show ?thesis by (auto simp: Let_def)
  next
    case False
    then have link: "perfect_links (pl_manager os p t) = [h_id t \<mapsto> PL_Subscribe This_Manager (link_to (p_id p) t)]"
      by (simp add: pl_manager_def Manager_Add_def Manager_init_def link_to_def)
    have small: "unat (p_n_messages_to_send p) < 2 ^ 32" by (rule unat_lt2p_32)
    have "perfect_links (pl_manager os p t) (h_id t) = Some (PL_Subscribe This_Manager (link_to (p_id p) t))"
      by (simp add: link)
    from PL_sends_effect [OF this _ _ op(1) small] run hosts False op link show ?thesis
      by (auto simp: Let_def PL_sends_def PL_Subscribe_def link_to_def simp del: upt_Suc)
  qed
qed

theorem PL_driver_outcome_witness:
  "\<exists>a. drivers_PerfectLinks ex_os (ex_config\<lparr>receiver_id := 1\<rparr>) = Inr a \<and> listens ex_os (ex_host 2) a \<and>
     lg_lines (mgr_logger (app_manager a)) = map broadcast_line [1, 2, 3, 4, 5]"
proof -
  let ?p = "ex_config\<lparr>receiver_id := 1\<rparr>"
  have "parsed ?p" "os_can_open ex_os (p_output_path ?p)" "distinct (map h_id (p_hosts ?p))"
    and hosts: "local_host ?p = Inr (ex_host 2)" "target_host ?p = Inr (ex_host 1)"
    by (simp_all add: local_host_def target_host_def)
  from PL_driver_outcome [OF this(1-3)] hosts show ?thesis
    by (auto simp: Let_def upt_rec)
qed

text \<open>
  C33: The program. For any arguments, files and answers of the operating system the outcome of \<^verbatim>\<open>main\<close> is
  this one: when parsing throws it exits with failure, unless a host name could not be resolved and the call
  of \<^verbatim>\<open>freeaddrinfo\<close> on the uninitialised pointer does not return; when the own identifier (or, for
  perfect links, the target) is not in the hosts table it is terminated; when no socket could be created
  or bound it exits with failure; and in all other cases it becomes a process in the mode that was
  parsed, listening at the address of the own host with its switches and threads on.
\<close>

theorem main_program_outcome:
  "case Parser_Parse lc fs (Parser_ctor argv True) of
     Inl x \<Rightarrow>
       if x = Uninitialised_Pointer
       then main_program lc fs os argv = Inl Uninitialised_Pointer \<and> \<not> lc_freeaddrinfo_returns lc \<and>
         (\<exists>name. lc_inet_pton lc name = 0 \<and> lc_getaddrinfo lc name = None)
       else main_program lc fs os argv = Inl Exit_Failure
   | Inr p \<Rightarrow>
       (case local_host p of
          Inl _ \<Rightarrow> main_program lc fs os argv = Inl Terminate
        | Inr me \<Rightarrow>
            if p_exec_mode p = kPerfectLinks \<and> (\<exists>x. target_host p = Inl x)
            then main_program lc fs os argv = Inl Terminate
            else if os_socket os < 0 \<or> os_bind os < 0 then main_program lc fs os argv = Inl Exit_Failure
            else (\<exists>out r. main_program lc fs os argv = Inr (out, r) \<and>
              (case r of
                 Run_PerfectLinks a \<Rightarrow>
                   p_exec_mode p = kPerfectLinks \<and> drivers_PerfectLinks os p = Inr a \<and> listens os me a
               | Run_FIFOBroadcast a \<Rightarrow>
                   p_exec_mode p = kFIFOBroadcast \<and> drivers_FIFOBroadcast os p = Inr a \<and> listens os me a \<and>
                   deliver_thread (app_manager a))))"
proof (cases "Parser_Parse lc fs (Parser_ctor argv True)")
  case (Inl x)
  have "throws lc (Parser_Parse lc fs (Parser_ctor argv True))" by (rule throws_Parse)
  from or_exit_throws [OF this [unfolded Inl]] Inl show ?thesis by (auto simp: main_program_def unresolved_def)
next
  case (Inr p)
  note parsed = Parse_parsed [OF Inr]
  obtain l1 l2 l3 where info: "info_Localhost (os_pid os) p = Inr l1" "info_Hosts (os_inet_ntoa os) p = Inr l2"
    "info_ExecArgs p = Inr l3" using info_total [OF parsed] by blast
  have main: "main_program lc fs os argv = (case p_exec_mode p of
      kPerfectLinks \<Rightarrow> bind_result (drivers_PerfectLinks os p) (\<lambda>a. Inr (l1 @ l2 @ l3, Run_PerfectLinks a))
    | kFIFOBroadcast \<Rightarrow> bind_result (drivers_FIFOBroadcast os p) (\<lambda>a. Inr (l1 @ l2 @ l3, Run_FIFOBroadcast a)))"
    by (simp add: main_program_def Inr info)
  show ?thesis
  proof (cases "p_exec_mode p")
    case kPerfectLinks
    then show ?thesis using PL_driver_exact [OF parsed, of os] by (auto simp: main Inr split: sum.splits)
  next
    case kFIFOBroadcast
    then show ?thesis using FIFO_driver_exact [OF parsed, of os] by (auto simp: main Inr split: sum.splits)
  qed
qed

text \<open>
  C39: In the perfect-links mode a message can be lost at the start. The driver starts the server before it creates
  the links, and a link is attached to the server before it is subscribed by the manager. A message that
  arrives in between is acknowledged and recorded as delivered, but no manager is told; each later copy
  of it, after the link has been subscribed, is taken for a duplicate. The log never shows it,
  although the sender stops sending it.
\<close>

theorem early_message_lost:
  assumes "perfect_links m j = Some (fst (PerfectLink_ctor i j a p srv))" and "PL_Parse bs = Some (Msg msg)"
  shows "\<exists>m1 m2. PL_Notify BasicManager_Notify now j bs m = Inr m1 \<and>
    pm_seq msg \<in> acks_to_send (the (perfect_links m1 j)) \<and> mgr_logger m1 = mgr_logger m \<and>
    PL_Notify BasicManager_Notify later j bs (update_link j (PL_Subscribe This_Manager) m1) = Inr m2 \<and>
    mgr_logger m2 = mgr_logger m"
  using assms by (simp add: PL_Notify_def PerfectLink_ctor_def update_link_def PL_Subscribe_def Let_def)

definition ex_early :: manager where
  "ex_early = (Manager_init ex_logger)\<lparr>perfect_links := [2 \<mapsto> fst (PerfectLink_ctor 1 2 0 0
     \<lparr>srv_sockfd = 3, server_addr = Machine 0 0, srv_on = True, receive_thread = True, observers = Map.empty\<rparr>)]\<rparr>"

theorem early_message_lost_witness:
  "\<exists>m1 m2. PL_Notify BasicManager_Notify 0 2 (PL_Serialize \<lparr>pm_seq = 1, pm_payload = []\<rparr>) ex_early = Inr m1 \<and>
    1 \<in> acks_to_send (the (perfect_links m1 2)) \<and>
    PL_Notify BasicManager_Notify 5 2 (PL_Serialize \<lparr>pm_seq = 1, pm_payload = []\<rparr>)
      (update_link 2 (PL_Subscribe This_Manager) m1) = Inr m2 \<and> lg_lines (mgr_logger m2) = []"
proof -
  have "perfect_links ex_early 2 = Some (fst (PerfectLink_ctor 1 2 0 0
     \<lparr>srv_sockfd = 3, server_addr = Machine 0 0, srv_on = True, receive_thread = True, observers = Map.empty\<rparr>))"
    by (simp add: ex_early_def)
  moreover have "PL_Parse (PL_Serialize \<lparr>pm_seq = 1, pm_payload = []\<rparr>) = Some (Msg \<lparr>pm_seq = 1, pm_payload = []\<rparr>)"
    by simp
  ultimately have "\<exists>m1 m2. PL_Notify BasicManager_Notify 0 2 (PL_Serialize \<lparr>pm_seq = 1, pm_payload = []\<rparr>) ex_early = Inr m1 \<and>
    1 \<in> acks_to_send (the (perfect_links m1 2)) \<and> mgr_logger m1 = mgr_logger ex_early \<and>
    PL_Notify BasicManager_Notify 5 2 (PL_Serialize \<lparr>pm_seq = 1, pm_payload = []\<rparr>)
      (update_link 2 (PL_Subscribe This_Manager) m1) = Inr m2 \<and> mgr_logger m2 = mgr_logger ex_early"
    using early_message_lost [of ex_early 2 1 0 0 _ "PL_Serialize \<lparr>pm_seq = 1, pm_payload = []\<rparr>" "\<lparr>pm_seq = 1, pm_payload = []\<rparr>" 0 5]
    by simp
  moreover have "lg_lines (mgr_logger ex_early) = []"
    by (simp add: ex_early_def Manager_init_def ex_logger_def Logger_ctor_def Logger_file_open_def)
  ultimately show ?thesis by auto
qed

end
