(* ===== verification/URB_Threads.thy ===== *)
theory URB_Threads
  imports FIFO_Broadcast
begin

text \<open>
  The threads of a process that broadcasts, statement by statement. The receiving thread is inside
  \<^verbatim>\<open>NotifyInternal\<close>, the delivering thread inside \<^verbatim>\<open>DeliverPending\<close> and the main thread inside
  \<^verbatim>\<open>Send\<close>; each step is one section of the source that holds a lock, or one access to an atomic
  variable. The threads take their steps in any order.
\<close>

section \<open>Where a thread stands\<close>

datatype receiver_at =
    R_idle
  | R_notify bcast_message
  | R_read_pending bcast_message
  | R_read_delivered bcast_message bool
  | R_ack bcast_message bool
  | R_pend bcast_message
  | R_relay bcast_message

fun receiver_step :: "receiver_at \<Rightarrow> ufifo \<Rightarrow> (receiver_at \<times> ufifo) result" where
  "receiver_step R_idle u = Inr (R_idle, u)"
| "receiver_step (R_notify msg) u =
     bind_result (BEB_NotifyInternal UFIFO_DeliverInternal msg u) (\<lambda>u. Inr (R_read_pending msg, u))"
| "receiver_step (R_read_pending msg) u = Inr (R_read_delivered msg (bm_id msg \<notin> pending_for_delivery u), u)"
| "receiver_step (R_read_delivered msg not_pending) u =
     Inr (if \<not> DeliveredSet_Contains (delivered u) (bm_id msg) then R_ack msg not_pending else R_idle, u)"
| "receiver_step (R_ack msg not_pending) u =
     Inr (if not_pending then R_pend msg else R_idle,
          u\<lparr>acks := (acks u)(bm_id msg \<mapsto> insert (bm_sender msg) (acks_of u (bm_id msg)))\<rparr>)"
| "receiver_step (R_pend msg) u =
     Inr (R_relay msg, u\<lparr>pending_for_delivery := insert (bm_id msg) (pending_for_delivery u)\<rparr>)"
| "receiver_step (R_relay msg) u = bind_result (BEB_SendInternal msg u) (\<lambda>u. Inr (R_idle, u))"

text \<open>
  The delivering thread: \<open>ids\<close> are the messages of the turn that are still to be looked at,
  \<open>i\<close> is the current one.
\<close>

datatype deliverer_at =
    D_idle
  | D_next "msg_id list"
  | D_check msg_id bool "msg_id list"
  | D_unpend msg_id "msg_id list"
  | D_leave msg_id "msg_id list"
  | D_pop msg_id "msg_id list"
  | D_enter msg_id bcast_message "msg_id list"
  | D_pend msg_id bcast_message "msg_id list"
  | D_send msg_id bcast_message "msg_id list"
  | D_mark msg_id "msg_id list"
  | D_forget msg_id "msg_id list"
  | D_deliver msg_id "msg_id list"

fun deliverer_step ::
  "(bcast_message \<Rightarrow> bcast_message result) \<Rightarrow> deliverer_at \<Rightarrow> ufifo \<Rightarrow> (deliverer_at \<times> ufifo) result" where
  "deliverer_step after_pop D_idle u = Inr (D_idle, u)"
| "deliverer_step after_pop (D_next []) u = Inr (D_idle, u)"
| "deliverer_step after_pop (D_next (i # ids)) u =
     (let u = u\<lparr>acks := (acks u)(i \<mapsto> acks_of u i)\<rparr>
      in Inr (D_check i (card (acks_of u i) + 1 > unat (n_processes u) div 2) ids, u))"
| "deliverer_step after_pop (D_check i seen ids) u =
     Inr (if seen \<and> \<not> DeliveredSet_Contains (delivered u) i then D_unpend i ids else D_next ids, u)"
| "deliverer_step after_pop (D_unpend i ids) u =
     Inr (if id_author i = bc_id u then D_leave i ids else D_mark i ids,
          u\<lparr>pending_for_delivery := pending_for_delivery u - {i}\<rparr>)"
| "deliverer_step after_pop (D_leave i ids) u =
     Inr (if n_own_pending_for_delivery u \<le> n_own_pending_delivery_ideal u then D_pop i ids else D_mark i ids,
          u\<lparr>n_own_pending_for_delivery := n_own_pending_for_delivery u + (- 1)\<rparr>)"
| "deliverer_step after_pop (D_pop i ids) u =
     (case own_pending_for_broadcast u of
        [] \<Rightarrow> Inr (D_mark i ids, u)
      | front # rest \<Rightarrow>
          bind_result (after_pop front) (\<lambda>msg. Inr (D_enter i msg ids, u\<lparr>own_pending_for_broadcast := rest\<rparr>)))"
| "deliverer_step after_pop (D_enter i msg ids) u =
     Inr (D_pend i msg ids, u\<lparr>n_own_pending_for_delivery := n_own_pending_for_delivery u + 1\<rparr>)"
| "deliverer_step after_pop (D_pend i msg ids) u =
     Inr (D_send i msg ids, u\<lparr>pending_for_delivery := insert (bm_id msg) (pending_for_delivery u)\<rparr>)"
| "deliverer_step after_pop (D_send i msg ids) u = bind_result (BEB_SendInternal msg u) (\<lambda>u. Inr (D_mark i ids, u))"
| "deliverer_step after_pop (D_mark i ids) u =
     Inr (D_forget i ids, u\<lparr>delivered := DeliveredSet_Insert i (delivered u)\<rparr>)"
| "deliverer_step after_pop (D_forget i ids) u = Inr (D_deliver i ids, u\<lparr>acks := (acks u)(i := None)\<rparr>)"
| "deliverer_step after_pop (D_deliver i ids) u = Inr (D_next ids, UFIFO_DeliverInternal i True u)"

datatype sender_at =
    S_idle
  | S_log u32 string
  | S_test bcast_message
  | S_push bcast_message
  | S_enter bcast_message
  | S_pend bcast_message
  | S_send bcast_message

text \<open>\<open>S_log seq msg\<close>: the number has been taken from the counter.\<close>

definition sender_begin :: "string \<Rightarrow> ufifo \<Rightarrow> sender_at \<times> ufifo" where
  "sender_begin msg u = (S_log (bc_n_messages_sent u) msg, u\<lparr>bc_n_messages_sent := bc_n_messages_sent u + 1\<rparr>)"

fun sender_step :: "sender_at \<Rightarrow> ufifo \<Rightarrow> (sender_at \<times> ufifo) result" where
  "sender_step S_idle u = Inr (S_idle, u)"
| "sender_step (S_log seq msg) u =
     Inr (S_test \<lparr>bm_id = Msg_Id seq (bc_id u), bm_sender = bc_id u, bm_payload = string_bytes msg\<rparr>, LogSend seq u)"
| "sender_step (S_test message) u =
     Inr (if n_own_pending_for_delivery u \<ge> n_own_pending_delivery_ideal u then S_push message else S_enter message, u)"
| "sender_step (S_push message) u =
     Inr (S_idle, u\<lparr>own_pending_for_broadcast := own_pending_for_broadcast u @ [message]\<rparr>)"
| "sender_step (S_enter message) u =
     Inr (S_pend message, u\<lparr>n_own_pending_for_delivery := n_own_pending_for_delivery u + 1\<rparr>)"
| "sender_step (S_pend message) u =
     Inr (S_send message, u\<lparr>pending_for_delivery := insert (bm_id message) (pending_for_delivery u)\<rparr>)"
| "sender_step (S_send message) u = bind_result (BEB_SendInternal message u) (\<lambda>u. Inr (S_idle, u))"

section \<open>A thread that runs alone\<close>

text \<open>Run without interruption, the steps of a thread are the operation they are taken from.\<close>

fun run_thread ::
  "('p \<Rightarrow> 's \<Rightarrow> ('p \<times> 's) result) \<Rightarrow> 'p \<Rightarrow> nat \<Rightarrow> 'p \<Rightarrow> 's \<Rightarrow> 's result option" where
  "run_thread step idle 0 pc s = (if pc = idle then Some (Inr s) else None)"
| "run_thread step idle (Suc fuel) pc s =
     (if pc = idle then Some (Inr s)
      else case step pc s of Inl e \<Rightarrow> Some (Inl e) | Inr (pc', s') \<Rightarrow> run_thread step idle fuel pc' s')"

lemma run_thread_idle [simp]: "run_thread step idle n idle s = Some (Inr s)"
  by (cases n) simp_all

lemma run_thread_numeral [simp]:
  "run_thread step idle (numeral k) pc s =
     (if pc = idle then Some (Inr s)
      else case step pc s of Inl e \<Rightarrow> Some (Inl e) | Inr (pc', s') \<Rightarrow> run_thread step idle (pred_numeral k) pc' s')"
  by (simp add: numeral_eq_Suc)

lemma receiver_alone: "run_thread receiver_step R_idle 6 (R_notify msg) u = Some (vt_NotifyInternal ufifo_vt msg u)"
  by (cases "BEB_NotifyInternal UFIFO_DeliverInternal msg u")
    (simp_all add: ufifo_vt_def UFIFO_NotifyInternal_def URB_NotifyInternal_def Let_def BEB_SendInternal_eq)

lemma sender_alone:
  "(case sender_begin msg u of (pc, u1) \<Rightarrow> run_thread sender_step S_idle 5 pc u1) = Some (URB_Send ufifo_vt msg u)"
  by (simp add: sender_begin_def URB_Send_def Let_def ufifo_vt_def UFIFO_SendInternal_def URB_SendInternal_def
      LogSend_line BEB_SendInternal_eq)

text \<open>A turn of the delivering thread takes at most eleven steps for each message.\<close>

lemma deliverer_one:
  "\<exists>k \<le> 11. \<forall>n. run_thread (deliverer_step after_pop) D_idle (k + n) (D_next (i # ids)) u =
     (case URB_deliver_one ufifo_vt after_pop i u of Inl e \<Rightarrow> Some (Inl e)
      | Inr u' \<Rightarrow> run_thread (deliverer_step after_pop) D_idle n (D_next ids) u')"
proof -
  note defs = URB_deliver_one_def URB_move_window_def Let_def ufifo_vt_def UFIFO_SendInternal_def URB_SendInternal_def
    BEB_SendInternal_eq eval_nat_numeral
  consider (skip) "\<not> (majority_seen u i \<and> \<not> DeliveredSet_Contains (delivered u) i)"
    | (foreign) "majority_seen u i" "\<not> DeliveredSet_Contains (delivered u) i" "id_author i \<noteq> bc_id u"
    | (full) "majority_seen u i" "\<not> DeliveredSet_Contains (delivered u) i" "id_author i = bc_id u"
        "\<not> n_own_pending_for_delivery u \<le> n_own_pending_delivery_ideal u"
    | (empty) "majority_seen u i" "\<not> DeliveredSet_Contains (delivered u) i" "id_author i = bc_id u"
        "n_own_pending_for_delivery u \<le> n_own_pending_delivery_ideal u" "own_pending_for_broadcast u = []"
    | (pop) front rest where "majority_seen u i" "\<not> DeliveredSet_Contains (delivered u) i" "id_author i = bc_id u"
        "n_own_pending_for_delivery u \<le> n_own_pending_delivery_ideal u" "own_pending_for_broadcast u = front # rest"
    by (cases "own_pending_for_broadcast u") blast+
  then show ?thesis
  proof cases
    case skip
    then show ?thesis by (intro exI [of _ 2]) (auto simp: defs)
  next
    case foreign
    then show ?thesis by (intro exI [of _ 6]) (simp add: defs)
  next
    case full
    then show ?thesis by (intro exI [of _ 7]) (simp add: defs)
  next
    case empty
    then show ?thesis by (intro exI [of _ 8]) (simp add: defs)
  next
    case pop
    then show ?thesis by (intro exI [of _ 11]) (cases "after_pop front"; simp add: defs)
  qed
qed

lemma deliverer_alone:
  assumes "on u" and "11 * length ids < n"
  shows "run_thread (deliverer_step after_pop) D_idle n (D_next ids) u = Some (URB_DeliverPending ufifo_vt after_pop ids u)"
proof -
  have "run_thread (deliverer_step after_pop) D_idle n (D_next ids) u =
      Some (fold_result (URB_deliver_one ufifo_vt after_pop) ids u)"
    using assms(2)
  proof (induction ids arbitrary: n u)
    case Nil
    then show ?case by (cases n) simp_all
  next
    case (Cons i ids)
    obtain k where k: "k \<le> 11" "\<And>n. run_thread (deliverer_step after_pop) D_idle (k + n) (D_next (i # ids)) u =
       (case URB_deliver_one ufifo_vt after_pop i u of Inl e \<Rightarrow> Some (Inl e)
        | Inr u' \<Rightarrow> run_thread (deliverer_step after_pop) D_idle n (D_next ids) u')"
      using deliverer_one by blast
    with Cons.prems have "n = k + (n - k)" "11 * length ids < n - k" by simp_all
    with k(2) [of "n - k"] Cons.IH show ?case by (simp split: sum.split)
  qed
  with assms(1) show ?thesis by (simp add: URB_DeliverPending_def)
qed

end
