(* ===== verification/Thread_Invariants.thy ===== *)
theory Thread_Invariants
  imports URB_Threads
begin

text \<open>
  Invariants of the three threads of a process that broadcasts, under every interleaving of their
  statements.
\<close>

section \<open>Interleavings\<close>

record threads =
  t_urb :: ufifo
  t_recv :: receiver_at
  t_del :: deliverer_at
  t_send :: sender_at

text \<open>
  A message that the deliverer has erased from the pending set and not yet inserted into the
  delivered set is in neither.
\<close>

fun limbo :: "deliverer_at \<Rightarrow> msg_id set" where
  "limbo (D_leave i ids) = {i}"
| "limbo (D_pop i ids) = {i}"
| "limbo (D_enter i m ids) = {i}"
| "limbo (D_pend i m ids) = {i}"
| "limbo (D_send i m ids) = {i}"
| "limbo (D_mark i ids) = {i}"
| "limbo _ = {}"

definition t_known :: "threads \<Rightarrow> msg_id set" where
  "t_known t = known (t_urb t) \<union> limbo (t_del t)"

definition good_id :: "msg_id \<Rightarrow> bool" where
  "good_id i \<longleftrightarrow> 0 < id_seq i \<and> id_seq i \<noteq> - 1"

definition t_honest :: "threads \<Rightarrow> bcast_message \<Rightarrow> bool" where
  "t_honest t msg \<longleftrightarrow> good_id (bm_id msg) \<and> (id_author (bm_id msg) = bc_id (t_urb t) \<longrightarrow> bm_id msg \<in> t_known t)"

inductive threads_step :: "(bcast_message \<Rightarrow> bcast_message result) \<Rightarrow> threads \<Rightarrow> threads \<Rightarrow> bool"
  for after_pop where
  t_arrive: "t_recv t = R_idle \<Longrightarrow> t_honest t msg \<Longrightarrow> threads_step after_pop t (t\<lparr>t_recv := R_notify msg\<rparr>)"
| t_receive: "receiver_step (t_recv t) (t_urb t) = Inr (r, u) \<Longrightarrow>
     threads_step after_pop t (t\<lparr>t_recv := r, t_urb := u\<rparr>)"
| t_turn: "t_del t = D_idle \<Longrightarrow> on (t_urb t) \<Longrightarrow> distinct ids \<Longrightarrow> set ids = pending_for_delivery (t_urb t) \<Longrightarrow>
     threads_step after_pop t (t\<lparr>t_del := D_next ids\<rparr>)"
| t_deliver: "deliverer_step after_pop (t_del t) (t_urb t) = Inr (d, u) \<Longrightarrow>
     threads_step after_pop t (t\<lparr>t_del := d, t_urb := u\<rparr>)"
| t_call: "t_send t = S_idle \<Longrightarrow> bc_n_messages_sent (t_urb t) \<noteq> - 1 \<Longrightarrow> sender_begin msg (t_urb t) = (s, u) \<Longrightarrow>
     threads_step after_pop t (t\<lparr>t_send := s, t_urb := u\<rparr>)"
| t_sender: "sender_step (t_send t) (t_urb t) = Inr (s, u) \<Longrightarrow>
     threads_step after_pop t (t\<lparr>t_send := s, t_urb := u\<rparr>)"
| t_links: "threads_step after_pop t (t\<lparr>t_urb := (t_urb t)\<lparr>perfect_links := links\<rparr>\<rparr>)"
| t_switch: "threads_step after_pop t
     (t\<lparr>t_urb := (t_urb t)\<lparr>on := b, ack_thread := b_ack, send_thread := b_send, deliver_thread := b_del\<rparr>\<rparr>)"

section \<open>The invariants\<close>

text \<open>
  The messages of the turn; the one that the deliverer has decided to deliver; the one that it has
  recorded as delivered and not handed up.
\<close>

fun in_turn :: "deliverer_at \<Rightarrow> msg_id set" where
  "in_turn D_idle = {}"
| "in_turn (D_next ids) = set ids"
| "in_turn (D_check i seen ids) = insert i (set ids)"
| "in_turn (D_unpend i ids) = insert i (set ids)"
| "in_turn (D_leave i ids) = insert i (set ids)"
| "in_turn (D_pop i ids) = insert i (set ids)"
| "in_turn (D_enter i m ids) = insert i (set ids)"
| "in_turn (D_pend i m ids) = insert i (set ids)"
| "in_turn (D_send i m ids) = insert i (set ids)"
| "in_turn (D_mark i ids) = insert i (set ids)"
| "in_turn (D_forget i ids) = insert i (set ids)"
| "in_turn (D_deliver i ids) = insert i (set ids)"

fun decided :: "deliverer_at \<Rightarrow> msg_id set" where
  "decided (D_unpend i ids) = {i}"
| "decided d = limbo d"

fun due :: "deliverer_at \<Rightarrow> msg_id set" where
  "due (D_forget i ids) = {i}"
| "due (D_deliver i ids) = {i}"
| "due _ = {}"

fun hearing :: "receiver_at \<Rightarrow> bcast_message set" where
  "hearing R_idle = {}"
| "hearing (R_notify msg) = {msg}"
| "hearing (R_read_pending msg) = {msg}"
| "hearing (R_read_delivered msg b) = {msg}"
| "hearing (R_ack msg b) = {msg}"
| "hearing (R_pend msg) = {msg}"
| "hearing (R_relay msg) = {msg}"

text \<open>A message of the own process that a thread holds and that is in none of the shared containers.\<close>

fun del_hand :: "deliverer_at \<Rightarrow> msg_id set" where
  "del_hand (D_enter i m ids) = {bm_id m}"
| "del_hand (D_pend i m ids) = {bm_id m}"
| "del_hand _ = {}"

fun send_hand :: "u32 \<Rightarrow> sender_at \<Rightarrow> msg_id set" where
  "send_hand me (S_log seq msg) = {Msg_Id seq me}"
| "send_hand me (S_test m) = {bm_id m}"
| "send_hand me (S_push m) = {bm_id m}"
| "send_hand me (S_enter m) = {bm_id m}"
| "send_hand me (S_pend m) = {bm_id m}"
| "send_hand me _ = {}"

definition t_hands :: "threads \<Rightarrow> msg_id set" where
  "t_hands t = del_hand (t_del t) \<union> send_hand (bc_id (t_urb t)) (t_send t)"

text \<open>
  The delivered set is well formed and all known identifiers are in range; the messages of the turn
  are known; the message that is about to be delivered is not delivered yet; a message that is being
  received is honest.
\<close>

definition t_delivery_ok :: "threads \<Rightarrow> bool" where
  "t_delivery_ok t \<longleftrightarrow> \<not> deliver_to_upper_layer (t_urb t) \<and> set_ok (delivered (t_urb t)) \<and>
     finite (pending_for_delivery (t_urb t)) \<and> (\<forall>i \<in> t_known t. good_id i) \<and>
     in_turn (t_del t) \<subseteq> t_known t \<and> decided (t_del t) \<inter> set_abs (delivered (t_urb t)) = {} \<and>
     due (t_del t) \<subseteq> set_abs (delivered (t_urb t)) \<and> (\<forall>m \<in> hearing (t_recv t). t_honest t m)"

text \<open>
  The own messages: with the counter at \<open>n\<close>, each number below \<open>n\<close> is in exactly one of four places,
  the known messages \<open>K\<close>, the queue \<open>Q\<close>, the hand \<open>D\<close> of the deliverer and the hand \<open>S\<close> of the sender.
\<close>

definition own_places :: "u32 \<Rightarrow> u32 \<Rightarrow> msg_id set \<Rightarrow> msg_id list \<Rightarrow> msg_id set \<Rightarrow> msg_id set \<Rightarrow> bool" where
  "own_places me n K Q D S \<longleftrightarrow> 0 < n \<and>
     {i \<in> K. id_author i = me} \<union> set Q \<union> D \<union> S = {i. id_author i = me \<and> 0 < id_seq i \<and> id_seq i < n} \<and>
     K \<inter> (set Q \<union> D \<union> S) = {} \<and> set Q \<inter> (D \<union> S) = {} \<and> D \<inter> S = {} \<and> distinct Q"

definition t_own_ok :: "threads \<Rightarrow> bool" where
  "t_own_ok t \<longleftrightarrow> own_places (bc_id (t_urb t)) (bc_n_messages_sent (t_urb t)) (t_known t)
     (map bm_id (own_pending_for_broadcast (t_urb t))) (del_hand (t_del t)) (send_hand (bc_id (t_urb t)) (t_send t))"

section \<open>Frames\<close>

lemma UFIFO_DeliverInternal_fields [simp]:
  "n_processes (UFIFO_DeliverInternal i l u) = n_processes u"
  "bc_id (UFIFO_DeliverInternal i l u) = bc_id u"
  "bc_n_messages_sent (UFIFO_DeliverInternal i l u) = bc_n_messages_sent u"
  "deliver_to_upper_layer (UFIFO_DeliverInternal i l u) = deliver_to_upper_layer u"
  "n_own_pending_for_delivery (UFIFO_DeliverInternal i l u) = n_own_pending_for_delivery u"
  "n_own_pending_delivery_ideal (UFIFO_DeliverInternal i l u) = n_own_pending_delivery_ideal u"
  "delivered (UFIFO_DeliverInternal i l u) = delivered u"
  "own_pending_for_broadcast (UFIFO_DeliverInternal i l u) = own_pending_for_broadcast u"
  "pending_for_delivery (UFIFO_DeliverInternal i l u) = pending_for_delivery u"
  "acks (UFIFO_DeliverInternal i l u) = acks u"
  using UFIFO_DeliverInternal_same [of u i l] by (simp_all add: same_urb_def)

lemma BEB_Notify_quiet: "\<not> deliver_to_upper_layer u \<Longrightarrow> BEB_NotifyInternal deliver msg u = Inr u"
  by (simp add: BEB_NotifyInternal_def BEB_DeliverInternal_def)

lemma t_known_mem:
  "i \<in> t_known t \<longleftrightarrow> i \<in> pending_for_delivery (t_urb t) \<or> i \<in> set_abs (delivered (t_urb t)) \<or> i \<in> limbo (t_del t)"
  by (auto simp: t_known_def known_def)

lemma good_id_Contains: "good_id i \<Longrightarrow> DeliveredSet_Contains d i \<longleftrightarrow> i \<in> set_abs d"
  by (rule set_Contains_abs) (simp add: good_id_def valid_id_def)

lemma good_id_Insert:
  assumes "set_ok d" and "good_id i" and "i \<notin> set_abs d"
  shows "set_abs (DeliveredSet_Insert i d) = insert i (set_abs d)" "set_ok (DeliveredSet_Insert i d)"
  using assms set_abs_Insert [of d i] by (simp_all add: set_fits_def valid_id_def good_id_def good_id_Contains)

section \<open>Own messages\<close>

lemma own_pend:
  "own_places me n K Q {i} S \<Longrightarrow> own_places me n (insert i K) Q {} S"
  "own_places me n K Q D {i} \<Longrightarrow> own_places me n (insert i K) Q D {}"
  by (auto simp: own_places_def)

lemma own_push: "own_places me n K Q D {i} \<Longrightarrow> own_places me n K (Q @ [i]) D {}"
  by (auto simp: own_places_def)

lemma own_pop: "own_places me n K (i # Q) {} S \<Longrightarrow> own_places me n K Q {i} S"
  by (auto simp: own_places_def)

lemma own_hear:
  "own_places me n K Q D S \<Longrightarrow> id_author i = me \<longrightarrow> i \<in> K \<Longrightarrow> own_places me n (insert i K) Q D S"
  by (auto simp: own_places_def)

lemma own_call:
  assumes "own_places me n K Q D {}" and "n \<noteq> - 1"
  shows "own_places me (n + 1) K Q D {Msg_Id n me}"
proof -
  have "0 < n + 1" using assms(2) by (metis add.commute add.inverse_unique word_gt_0)
  moreover have "{i. id_author i = me \<and> 0 < id_seq i \<and> id_seq i < n + 1} =
      insert (Msg_Id n me) {i. id_author i = me \<and> 0 < id_seq i \<and> id_seq i < n}"
    using assms by (auto simp: own_places_def u32_less_succ msg_id_eq_fields)
  moreover have "Msg_Id n me \<notin> K \<union> set Q \<union> D"
    using assms(1) unfolding own_places_def by (auto dest!: equalityD1)
  ultimately show ?thesis using assms(1) unfolding own_places_def by auto
qed

lemma own_range:
  assumes "own_places me n K Q D S" and "i \<in> set Q \<union> D \<union> S"
  shows "good_id i" "id_author i = me"
  using assms u32_not_max [of "id_seq i" n] by (auto simp: own_places_def good_id_def)

section \<open>What the threads change\<close>

lemma step_rule:
  assumes "f = Inr (a, b)" and "case f of Inl e \<Rightarrow> True | Inr (a, b) \<Rightarrow> P a b"
  shows "P a b"
  using assms by simp

lemma more_frame [simp]: "urb.more (send_on_all bs u) = urb.more u" "urb.more (log_line x u) = urb.more u"
  by (simp_all add: send_on_all_def log_line_def)

lemmas step_simps = BEB_Notify_quiet BEB_SendInternal_eq LogSend_line

lemma receiver_frame:
  assumes "receiver_step r u = Inr (r', u')" and "\<not> deliver_to_upper_layer u"
  shows "bc_id u' = bc_id u \<and> bc_n_messages_sent u' = bc_n_messages_sent u \<and>
    \<not> deliver_to_upper_layer u' \<and> delivered u' = delivered u \<and> n_processes u' = n_processes u \<and>
    own_pending_for_broadcast u' = own_pending_for_broadcast u \<and> mgr_logger u' = mgr_logger u \<and>
    n_own_pending_for_delivery u' = n_own_pending_for_delivery u \<and>
    n_own_pending_delivery_ideal u' = n_own_pending_delivery_ideal u \<and>
    urb.more u' = urb.more u \<and> hearing r' \<subseteq> hearing r"
  by (rule step_rule [OF assms(1)]) (use assms(2) in \<open>cases r; simp add: step_simps\<close>)

lemma receiver_pending:
  assumes "receiver_step r u = Inr (r', u')" and "\<not> deliver_to_upper_layer u"
  shows "pending_for_delivery u' = pending_for_delivery u \<or>
    (\<exists>m \<in> hearing r. pending_for_delivery u' = insert (bm_id m) (pending_for_delivery u))"
  by (rule step_rule [OF assms(1)]) (use assms(2) in \<open>cases r; simp add: step_simps\<close>)

lemma sender_frame:
  assumes "sender_step s u = Inr (s', u')"
  shows "bc_id u' = bc_id u \<and> bc_n_messages_sent u' = bc_n_messages_sent u \<and> n_processes u' = n_processes u \<and>
    deliver_to_upper_layer u' = deliver_to_upper_layer u \<and> delivered u' = delivered u \<and> acks u' = acks u \<and>
    n_own_pending_delivery_ideal u' = n_own_pending_delivery_ideal u \<and> urb.more u' = urb.more u"
  by (rule step_rule [OF assms(1)]) (cases s; simp add: step_simps)

lemma sender_pending:
  assumes "sender_step s u = Inr (s', u')"
  shows "pending_for_delivery u' = pending_for_delivery u \<or>
    (\<exists>i \<in> send_hand (bc_id u) s. pending_for_delivery u' = insert i (pending_for_delivery u))"
  by (rule step_rule [OF assms(1)]) (cases s; simp add: step_simps)

section \<open>Delivery state\<close>

text \<open>The receiver and the sender only add to the pending set.\<close>

lemma t_delivery_grow:
  assumes "t_delivery_ok t" and "pending_for_delivery (t_urb t') = P \<union> pending_for_delivery (t_urb t)"
    and "finite P" and "\<And>i. i \<in> P \<Longrightarrow> good_id i"
    and "delivered (t_urb t') = delivered (t_urb t)" "bc_id (t_urb t') = bc_id (t_urb t)"
    and "\<not> deliver_to_upper_layer (t_urb t')" "t_del t' = t_del t" "hearing (t_recv t') \<subseteq> hearing (t_recv t)"
  shows "t_delivery_ok t'"
proof -
  have K: "t_known t' = P \<union> t_known t" using assms(2,5,8) by (auto simp: t_known_def known_def)
  have honest: "t_honest t' m" if "t_honest t m" for m using that assms(6) by (auto simp: t_honest_def K)
  from assms(1,2,3,4,5,7,8) K show ?thesis
    using assms(9) honest by (auto simp: t_delivery_ok_def)
qed

lemma receiver_delivery:
  assumes ok: "t_delivery_ok t" and step: "receiver_step (t_recv t) (t_urb t) = Inr (r, u)"
  shows "t_delivery_ok (t\<lparr>t_recv := r, t_urb := u\<rparr>)"
proof -
  have quiet: "\<not> deliver_to_upper_layer (t_urb t)" using ok by (simp add: t_delivery_ok_def)
  obtain P where P: "pending_for_delivery u = P \<union> pending_for_delivery (t_urb t)" "P \<subseteq> bm_id ` hearing (t_recv t)"
    using receiver_pending [OF step quiet] by (metis Un_insert_left bot.extremum image_eqI insert_subset sup_bot_left)
  have "finite (hearing (t_recv t))" by (cases "t_recv t") simp_all
  with P have "finite P" "\<And>i. i \<in> P \<Longrightarrow> good_id i"
    using ok by (auto simp: t_delivery_ok_def t_honest_def intro: finite_subset)
  with receiver_frame [OF step quiet] P(1) show ?thesis
    by (intro t_delivery_grow [OF ok]) simp_all
qed

lemma sender_delivery:
  assumes ok: "t_delivery_ok t" and own: "t_own_ok t" and step: "sender_step (t_send t) (t_urb t) = Inr (s, u)"
  shows "t_delivery_ok (t\<lparr>t_send := s, t_urb := u\<rparr>)"
proof -
  obtain P where P: "pending_for_delivery u = P \<union> pending_for_delivery (t_urb t)"
      "P \<subseteq> send_hand (bc_id (t_urb t)) (t_send t)"
    using sender_pending [OF step] by (metis Un_insert_left bot.extremum insert_subset sup_bot_left)
  have "finite (send_hand (bc_id (t_urb t)) (t_send t))" by (cases "t_send t") simp_all
  with P own have "finite P" "\<And>i. i \<in> P \<Longrightarrow> good_id i"
    by (auto simp: t_own_ok_def intro: finite_subset own_range)
  with sender_frame [OF step] P(1) ok show ?thesis
    by (intro t_delivery_grow [OF ok]) (simp_all add: t_delivery_ok_def)
qed

lemma deliverer_delivery:
  assumes ok: "t_delivery_ok t" and own: "t_own_ok t" and step: "deliverer_step after_pop (t_del t) (t_urb t) = Inr (d, u)"
  shows "t_delivery_ok (t\<lparr>t_del := d, t_urb := u\<rparr>)"
proof -
  have hand: "\<And>i. i \<in> del_hand (t_del t) \<Longrightarrow> good_id i"
    using own by (auto simp: t_own_ok_def intro: own_range)
  show ?thesis
    by (rule step_rule [OF step], use ok hand in \<open>cases "(after_pop, t_del t, t_urb t)" rule: deliverer_step.cases\<close>)
      (auto simp: t_delivery_ok_def t_honest_def t_known_def known_def step_simps good_id_Contains good_id_Insert
        Let_def split: list.splits sum.split)
qed

section \<open>No own message is lost or doubled\<close>

lemma receiver_own:
  assumes ok: "t_delivery_ok t" "t_own_ok t" and step: "receiver_step (t_recv t) (t_urb t) = Inr (r, u)"
  shows "t_own_ok (t\<lparr>t_recv := r, t_urb := u\<rparr>)"
proof -
  have quiet: "\<not> deliver_to_upper_layer (t_urb t)" using ok by (simp add: t_delivery_ok_def)
  note f = receiver_frame [OF step quiet]
  from receiver_pending [OF step quiet] show ?thesis
  proof (elim disjE bexE)
    assume "pending_for_delivery u = pending_for_delivery (t_urb t)"
    with ok(2) f show ?thesis by (simp add: t_own_ok_def t_known_def known_def)
  next
    fix m assume m: "m \<in> hearing (t_recv t)" "pending_for_delivery u = insert (bm_id m) (pending_for_delivery (t_urb t))"
    have "id_author (bm_id m) = bc_id (t_urb t) \<longrightarrow> bm_id m \<in> t_known t"
      using ok(1) m(1) by (auto simp: t_delivery_ok_def t_honest_def)
    from own_hear [OF ok(2) [unfolded t_own_ok_def] this] f m(2) show ?thesis
      by (simp add: t_own_ok_def t_known_def known_def)
  qed
qed

lemma sender_own:
  assumes own: "t_own_ok t" and step: "sender_step (t_send t) (t_urb t) = Inr (s, u)"
  shows "t_own_ok (t\<lparr>t_send := s, t_urb := u\<rparr>)"
  by (rule step_rule [OF step], use own in \<open>cases "t_send t"\<close>)
    (auto simp: t_own_ok_def t_known_def known_def step_simps dest: own_push own_pend(2))

lemma deliverer_own:
  assumes ok: "t_delivery_ok t" "t_own_ok t" and pop: "reads_front after_pop"
    and step: "deliverer_step after_pop (t_del t) (t_urb t) = Inr (d, u)"
  shows "t_own_ok (t\<lparr>t_del := d, t_urb := u\<rparr>)"
proof -
  have front: "m' = m" if "after_pop m = Inr m'" for m m' using pop that by (simp add: reads_front_def)
  have pend: "own_places me n (insert i (insert j K)) Q {} S" if "own_places me n (insert i K) Q {j} S" for me n i j K Q S
    using own_pend(1) [OF that] by (simp add: insert_commute)
  have unpend: "insert i (P - {i} \<union> D) = P \<union> D" if "i \<in> P" for i :: msg_id and P D using that by auto
  show ?thesis
    by (rule step_rule [OF step], use ok in \<open>cases "(after_pop, t_del t, t_urb t)" rule: deliverer_step.cases\<close>)
      (auto simp: t_own_ok_def t_known_def known_def step_simps Let_def t_delivery_ok_def good_id_Insert insert_absorb unpend
        dest!: front dest: own_pop pend split: list.splits sum.split)
qed

section \<open>The window\<close>

fun left_window :: "deliverer_at \<Rightarrow> msg_id set" where
  "left_window (D_leave i ids) = {}"
| "left_window d = limbo d"

fun del_entered :: "deliverer_at \<Rightarrow> msg_id set" where
  "del_entered (D_pend i m ids) = {bm_id m}"
| "del_entered _ = {}"

fun send_entered :: "sender_at \<Rightarrow> msg_id set" where
  "send_entered (S_pend m) = {bm_id m}"
| "send_entered _ = {}"

text \<open>Places in the window that a thread has found free and not taken yet.\<close>

fun del_room :: "deliverer_at \<Rightarrow> nat" where
  "del_room (D_pop i ids) = 1"
| "del_room (D_enter i m ids) = 1"
| "del_room _ = 0"

fun send_room :: "sender_at \<Rightarrow> nat" where
  "send_room (S_enter m) = 1"
| "send_room _ = 0"

fun leaving :: "deliverer_at \<Rightarrow> msg_id set" where
  "leaving (D_leave i ids) = {i}"
| "leaving _ = {}"

text \<open>The own messages that the window counter counts.\<close>

definition t_window :: "threads \<Rightarrow> msg_id set" where
  "t_window t = {i \<in> t_known t. id_author i = bc_id (t_urb t) \<and> i \<notin> set_abs (delivered (t_urb t)) \<and>
     i \<notin> left_window (t_del t)} \<union> del_entered (t_del t) \<union> send_entered (t_send t)"

definition t_window_ok :: "threads \<Rightarrow> bool" where
  "t_window_ok t \<longleftrightarrow> unat (n_own_pending_for_delivery (t_urb t)) = card (t_window t) \<and>
     unat (n_own_pending_for_delivery (t_urb t)) + del_room (t_del t) + send_room (t_send t) \<le>
       unat (n_own_pending_delivery_ideal (t_urb t)) + 1 \<and>
     unat (n_own_pending_delivery_ideal (t_urb t)) \<le> URB_MAX_MSGS_IN_NETWORK \<and>
     (\<forall>i \<in> leaving (t_del t). id_author i = bc_id (t_urb t))"

lemma finite_window:
  assumes "t_delivery_ok t"
  shows "finite (t_window t)"
proof -
  have "finite (limbo (t_del t))" "finite (del_entered (t_del t))" by (cases "t_del t"; simp)+
  moreover have "finite (send_entered (t_send t))" by (cases "t_send t"; simp)
  moreover have "t_window t \<subseteq> pending_for_delivery (t_urb t) \<union> limbo (t_del t) \<union> del_entered (t_del t) \<union> send_entered (t_send t)"
    by (auto simp: t_window_def t_known_def known_def)
  ultimately show ?thesis using assms by (auto simp: t_delivery_ok_def intro: finite_subset)
qed

lemma entered_hand:
  "i \<in> del_entered d \<Longrightarrow> i \<in> del_hand d" "i \<in> send_entered s \<Longrightarrow> i \<in> send_hand me s"
  by (cases d; simp) (cases s; simp)

lemma hands_apart:
  assumes "t_own_ok t"
  shows "i \<in> del_hand (t_del t) \<Longrightarrow> id_author i = bc_id (t_urb t) \<and> i \<notin> t_known t \<and> i \<notin> send_hand (bc_id (t_urb t)) (t_send t)"
    and "i \<in> send_hand (bc_id (t_urb t)) (t_send t) \<Longrightarrow> id_author i = bc_id (t_urb t) \<and> i \<notin> t_known t \<and> i \<notin> del_hand (t_del t)"
  using assms by (auto simp: t_own_ok_def own_places_def)

lemma deliverer_window:
  assumes ok: "t_delivery_ok t" "t_own_ok t" and pop: "reads_front after_pop"
    and step: "deliverer_step after_pop (t_del t) (t_urb t) = Inr (d, u)"
  shows "t_window (t\<lparr>t_del := d, t_urb := u\<rparr>) =
    (case t_del t of D_leave i ids \<Rightarrow> t_window t - {i} | D_enter i m ids \<Rightarrow> insert (bm_id m) (t_window t) | _ \<Rightarrow> t_window t)"
proof -
  note del = hands_apart(1) [OF ok(2)]
  have entered: "i \<notin> t_known t" if "i \<in> send_entered (t_send t)" for i
    using hands_apart(2) [OF ok(2) entered_hand(2) [OF that]] by simp
  show ?thesis
    by (rule step_rule [OF step], use ok(1) del entered in \<open>cases "(after_pop, t_del t, t_urb t)" rule: deliverer_step.cases\<close>)
      (auto simp: t_window_def t_known_def known_def step_simps Let_def t_delivery_ok_def good_id_Insert
        split: list.splits sum.split)
qed

lemma sender_window:
  assumes ok: "t_own_ok t" "t_delivery_ok t" and step: "sender_step (t_send t) (t_urb t) = Inr (s, u)"
  shows "t_window (t\<lparr>t_send := s, t_urb := u\<rparr>) =
    (case t_send t of S_enter m \<Rightarrow> insert (bm_id m) (t_window t) | _ \<Rightarrow> t_window t)"
proof -
  note own = hands_apart(2) [OF ok(1)]
  have left: "i \<in> t_known t" if "i \<in> left_window (t_del t)" for i using that by (cases "t_del t") (simp_all add: t_known_def)
  show ?thesis
    by (rule step_rule [OF step], use own left in \<open>cases "t_send t"\<close>)
      (auto simp: t_window_def t_known_def known_def step_simps)
qed

lemma receiver_window:
  assumes ok: "t_delivery_ok t" and step: "receiver_step (t_recv t) (t_urb t) = Inr (r, u)"
  shows "t_window (t\<lparr>t_recv := r, t_urb := u\<rparr>) = t_window t"
proof -
  have quiet: "\<not> deliver_to_upper_layer (t_urb t)" using ok by (simp add: t_delivery_ok_def)
  note f = receiver_frame [OF step quiet]
  from receiver_pending [OF step quiet] f ok show ?thesis
    by (auto simp: t_window_def t_known_def known_def t_delivery_ok_def t_honest_def)
qed

lemma window_leave: "unat n = card W \<Longrightarrow> i \<in> W \<Longrightarrow> finite W \<Longrightarrow> unat (n + - 1 :: u32) = card (W - {i})"
  using unat_minus_one [of n] by (cases "n = 0") auto

lemma window_enter: "unat n = card W \<Longrightarrow> i \<notin> W \<Longrightarrow> finite W \<Longrightarrow> unat n < 2 ^ 31 \<Longrightarrow> unat (n + 1 :: u32) = card (insert i W)"
  by (simp add: unat_word_ariths)

lemma deliverer_counter:
  assumes "deliverer_step after_pop d u = Inr (d', u')"
  shows "n_own_pending_delivery_ideal u' = n_own_pending_delivery_ideal u \<and> bc_id u' = bc_id u \<and>
    (\<forall>i \<in> leaving d'. id_author i = bc_id u) \<and>
    (case d of
       D_leave i ids \<Rightarrow> n_own_pending_for_delivery u' = n_own_pending_for_delivery u + - 1 \<and>
         del_room d' \<le> (if n_own_pending_for_delivery u \<le> n_own_pending_delivery_ideal u then 1 else 0)
     | D_enter i m ids \<Rightarrow> n_own_pending_for_delivery u' = n_own_pending_for_delivery u + 1 \<and> del_room d' = 0
     | _ \<Rightarrow> n_own_pending_for_delivery u' = n_own_pending_for_delivery u \<and> del_room d' \<le> del_room d)"
  by (rule step_rule [OF assms], cases "(after_pop, d, u)" rule: deliverer_step.cases)
    (auto simp: step_simps Let_def split: list.splits sum.split)

lemma sender_counter:
  assumes "sender_step s u = Inr (s', u')"
  shows "case s of
       S_enter m \<Rightarrow> n_own_pending_for_delivery u' = n_own_pending_for_delivery u + 1 \<and> send_room s' = 0
     | S_test m \<Rightarrow> n_own_pending_for_delivery u' = n_own_pending_for_delivery u \<and>
         send_room s' \<le> (if n_own_pending_for_delivery u < n_own_pending_delivery_ideal u then 1 else 0)
     | _ \<Rightarrow> n_own_pending_for_delivery u' = n_own_pending_for_delivery u \<and> send_room s' = 0"
  by (rule step_rule [OF assms], cases s) (auto simp: step_simps)

lemma window_bound:
  assumes "t_window_ok t"
  shows "unat (n_own_pending_for_delivery (t_urb t)) < 2 ^ 31"
  using assms by (simp add: t_window_ok_def URB_MAX_MSGS_IN_NETWORK_def)

lemma send_room_le: "send_room s \<le> 1" and del_room_le: "del_room d \<le> 1"
  by (cases s; simp) (cases d; simp)

lemma deliverer_window_ok:
  assumes ok: "t_delivery_ok t" "t_own_ok t" "t_window_ok t" and pop: "reads_front after_pop"
    and step: "deliverer_step after_pop (t_del t) (t_urb t) = Inr (d, u)"
  shows "t_window_ok (t\<lparr>t_del := d, t_urb := u\<rparr>)"
proof -
  note W = deliverer_window [OF ok(1,2) pop step] and c = deliverer_counter [OF step]
  note fin = finite_window [OF ok(1)] and bound = window_bound [OF ok(3)]
  consider (leave) i ids where "t_del t = D_leave i ids" | (enter) i m ids where "t_del t = D_enter i m ids"
    | (other) "t_window (t\<lparr>t_del := d, t_urb := u\<rparr>) = t_window t"
        "n_own_pending_for_delivery u = n_own_pending_for_delivery (t_urb t)" "del_room d \<le> del_room (t_del t)"
    using W c by (cases "t_del t") auto
  then show ?thesis
  proof cases
    case (leave i ids)
    have "i \<in> t_window t"
      using ok(1,3) leave by (simp add: t_window_def t_known_def t_delivery_ok_def t_window_ok_def)
    with ok(3) fin have "unat (n_own_pending_for_delivery (t_urb t) + - 1) = card (t_window t - {i})"
      by (intro window_leave) (simp_all add: t_window_ok_def)
    moreover have "0 < card (t_window t)" using \<open>i \<in> t_window t\<close> fin by (auto simp: card_gt_0_iff)
    ultimately show ?thesis using ok(3) W c leave \<open>i \<in> t_window t\<close> fin send_room_le [of "t_send t"]
      by (auto simp: t_window_ok_def word_le_nat_alt split: if_splits)
  next
    case (enter i m ids)
    have "bm_id m \<notin> t_window t"
      using hands_apart(1) [OF ok(2), of "bm_id m"] entered_hand(2) enter by (auto simp: t_window_def)
    with ok(3) fin bound have "unat (n_own_pending_for_delivery (t_urb t) + 1) = card (insert (bm_id m) (t_window t))"
      by (intro window_enter) (simp_all add: t_window_ok_def)
    with ok(3) W c enter \<open>bm_id m \<notin> t_window t\<close> fin show ?thesis by (auto simp: t_window_ok_def)
  next
    case other
    with ok(3) c show ?thesis by (simp add: t_window_ok_def)
  qed
qed

lemma sender_window_ok:
  assumes ok: "t_delivery_ok t" "t_own_ok t" "t_window_ok t" and step: "sender_step (t_send t) (t_urb t) = Inr (s, u)"
  shows "t_window_ok (t\<lparr>t_send := s, t_urb := u\<rparr>)"
proof -
  note W = sender_window [OF ok(2,1) step] and c = sender_counter [OF step] and f = sender_frame [OF step]
  note fin = finite_window [OF ok(1)] and bound = window_bound [OF ok(3)]
  show ?thesis
  proof (cases "t_send t")
    case (S_enter m)
    have "bm_id m \<notin> t_window t"
      using hands_apart(2) [OF ok(2), of "bm_id m"] entered_hand(1) S_enter by (auto simp: t_window_def)
    with ok(3) fin bound have "unat (n_own_pending_for_delivery (t_urb t) + 1) = card (insert (bm_id m) (t_window t))"
      by (intro window_enter) (simp_all add: t_window_ok_def)
    with ok(3) W c f S_enter \<open>bm_id m \<notin> t_window t\<close> fin show ?thesis by (auto simp: t_window_ok_def)
  next
    case (S_test m)
    with ok(3) W c f del_room_le [of "t_del t"] show ?thesis
      by (auto simp: t_window_ok_def word_less_nat_alt split: if_splits)
  qed (use ok(3) W c f in \<open>simp_all add: t_window_ok_def\<close>)
qed

lemma receiver_window_ok:
  assumes ok: "t_delivery_ok t" "t_window_ok t" and step: "receiver_step (t_recv t) (t_urb t) = Inr (r, u)"
  shows "t_window_ok (t\<lparr>t_recv := r, t_urb := u\<rparr>)"
proof -
  have "\<not> deliver_to_upper_layer (t_urb t)" using ok by (simp add: t_delivery_ok_def)
  from receiver_frame [OF step this] receiver_window [OF ok(1) step] ok(2) show ?thesis
    by (simp add: t_window_ok_def)
qed

end
