(* ===== verification/Thread_Safety.thy ===== *)
theory Thread_Safety
  imports Thread_Invariants
begin

text \<open>
  What every interleaving of the threads guarantees: the majority rule, the order of the log and the
  window; the runs of the threads, and two executions that no run of whole operations has.
\<close>

section \<open>Majority\<close>

fun counted :: "deliverer_at \<Rightarrow> msg_id set" where
  "counted (D_check i seen ids) = (if seen then {i} else {})"
| "counted d = decided d"

definition t_majority_ok :: "threads \<Rightarrow> bool" where
  "t_majority_ok t \<longleftrightarrow> (\<forall>i. finite (acks_of (t_urb t) i)) \<and> (\<forall>i \<in> counted (t_del t). majority_seen (t_urb t) i)"

text \<open>Acknowledgements are only added, except when the deliverer forgets the message it has delivered.\<close>

lemma majority_grow:
  assumes "t_majority_ok t" and "t_del t' = t_del t" and "n_processes (t_urb t') = n_processes (t_urb t)"
    and "\<And>i. acks_of (t_urb t) i \<subseteq> acks_of (t_urb t') i" and "\<And>i. finite (acks_of (t_urb t') i)"
  shows "t_majority_ok t'"
proof -
  have "card (acks_of (t_urb t) i) \<le> card (acks_of (t_urb t') i)" for i using assms(4,5) by (rule card_mono [rotated])
  then have "majority_seen (t_urb t') i" if "majority_seen (t_urb t) i" for i
    using that assms(3) by (auto intro: less_le_trans)
  with assms(1,2,5) show ?thesis by (simp add: t_majority_ok_def)
qed

lemma acks_of_cong: "acks u' = acks u \<Longrightarrow> acks_of u' i = acks_of u i"
  by (simp add: acks_of_def)

lemma receiver_acks:
  assumes "receiver_step r u = Inr (r', u')" and "\<not> deliver_to_upper_layer u" and "finite (acks_of u i)"
  shows "acks_of u i \<subseteq> acks_of u' i \<and> finite (acks_of u' i)"
  by (rule step_rule [OF assms(1)]) (use assms(2,3) in \<open>cases r; auto simp: step_simps acks_of_def\<close>)

lemma receiver_majority:
  assumes ok: "t_delivery_ok t" "t_majority_ok t" and step: "receiver_step (t_recv t) (t_urb t) = Inr (r, u)"
  shows "t_majority_ok (t\<lparr>t_recv := r, t_urb := u\<rparr>)"
proof -
  have quiet: "\<not> deliver_to_upper_layer (t_urb t)" using ok by (simp add: t_delivery_ok_def)
  have fin: "finite (acks_of (t_urb t) i)" for i using ok by (simp add: t_majority_ok_def)
  from receiver_frame [OF step quiet] receiver_acks [OF step quiet fin] show ?thesis by (intro majority_grow [OF ok(2)]) simp_all
qed

lemma deliverer_majority:
  assumes ok: "t_majority_ok t" and step: "deliverer_step after_pop (t_del t) (t_urb t) = Inr (d, u)"
  shows "t_majority_ok (t\<lparr>t_del := d, t_urb := u\<rparr>)"
  by (rule step_rule [OF step], use ok in \<open>cases "(after_pop, t_del t, t_urb t)" rule: deliverer_step.cases\<close>)
    (auto simp: t_majority_ok_def acks_of_def step_simps Let_def split: list.splits sum.split option.splits)

section \<open>The log\<close>

text \<open>The reorder buffer is the delivered set but for the message that is about to be handed up.\<close>

definition t_log_ok :: "threads \<Rightarrow> bool" where
  "t_log_ok t \<longleftrightarrow> ufifo.log_in_order (t_urb t) \<and>
     (\<forall>a. peer_abs (ufifo_buffer (t_urb t) a) = {s. Msg_Id s a \<in> set_abs (delivered (t_urb t)) - due (t_del t)})"

lemma t_log_frame:
  assumes "t_log_ok t" and "mgr_logger (t_urb t') = mgr_logger (t_urb t)" and "urb.more (t_urb t') = urb.more (t_urb t)"
    and "set_abs (delivered (t_urb t')) - due (t_del t') = set_abs (delivered (t_urb t)) - due (t_del t)"
  shows "t_log_ok t'"
  using assms ufifo.log_in_order_cong [OF _ assms(2) ufifo_buffer_more [OF assms(3)]] ufifo_buffer_more [OF assms(3)]
  by (simp add: t_log_ok_def)

lemma receiver_log:
  assumes ok: "t_delivery_ok t" "t_log_ok t" and step: "receiver_step (t_recv t) (t_urb t) = Inr (r, u)"
  shows "t_log_ok (t\<lparr>t_recv := r, t_urb := u\<rparr>)"
proof -
  have "\<not> deliver_to_upper_layer (t_urb t)" using ok by (simp add: t_delivery_ok_def)
  from receiver_frame [OF step this] show ?thesis by (intro t_log_frame [OF ok(2)]) simp_all
qed

lemma sender_logger:
  assumes "sender_step s u = Inr (s', u')"
  shows "mgr_logger u' = (case s of S_log seq msg \<Rightarrow> Logger_write (mgr_logger u) (broadcast_line seq) | _ \<Rightarrow> mgr_logger u)"
  by (rule step_rule [OF assms], cases s) (simp_all add: step_simps)

lemma sender_log:
  assumes ok: "t_log_ok t" and step: "sender_step (t_send t) (t_urb t) = Inr (s, u)"
  shows "t_log_ok (t\<lparr>t_send := s, t_urb := u\<rparr>)"
proof -
  note f = sender_frame [OF step]
  then have buffer: "ufifo_buffer u = ufifo_buffer (t_urb t)" by (intro ufifo_buffer_more) simp
  note log = sender_logger [OF step]
  show ?thesis
  proof (cases "t_send t")
    case (S_log seq msg)
    with log have "mgr_logger u = Logger_write (mgr_logger (t_urb t)) (broadcast_line seq)" by simp
    from ufifo.log_in_order_broadcast [OF _ this buffer] ok buffer f show ?thesis by (simp add: t_log_ok_def)
  qed (use log f in \<open>intro t_log_frame [OF ok]; simp\<close>)+
qed

lemma deliverer_log_frame:
  assumes "deliverer_step after_pop d u = Inr (d', u')" and "\<And>i ids. d \<noteq> D_deliver i ids"
  shows "mgr_logger u' = mgr_logger u \<and> urb.more u' = urb.more u"
  by (rule step_rule [OF assms(1)], use assms(2) in \<open>cases "(after_pop, d, u)" rule: deliverer_step.cases\<close>)
    (auto simp: step_simps Let_def split: list.splits sum.split)

lemma deliverer_due:
  assumes ok: "t_delivery_ok t" and step: "deliverer_step after_pop (t_del t) (t_urb t) = Inr (d, u)"
    and "\<And>i ids. t_del t \<noteq> D_deliver i ids"
  shows "set_abs (delivered u) - due d = set_abs (delivered (t_urb t)) - due (t_del t)"
  by (rule step_rule [OF step], use ok assms(3) in \<open>cases "(after_pop, t_del t, t_urb t)" rule: deliverer_step.cases\<close>)
    (auto simp: t_delivery_ok_def t_known_def known_def good_id_Insert step_simps Let_def split: list.splits sum.split)

lemma deliverer_log:
  assumes ok: "t_delivery_ok t" "t_log_ok t" and step: "deliverer_step after_pop (t_del t) (t_urb t) = Inr (d, u)"
  shows "t_log_ok (t\<lparr>t_del := d, t_urb := u\<rparr>)"
proof (cases "\<exists>i ids. t_del t = D_deliver i ids")
  case True
  then obtain i ids where at: "t_del t = D_deliver i ids" by blast
  with step have u: "u = UFIFO_DeliverInternal i True (t_urb t)" "d = D_next ids" by simp_all
  have i: "i \<in> set_abs (delivered (t_urb t))" "good_id i"
    using ok(1) at by (auto simp: t_delivery_ok_def t_known_def known_def)
  have order: "ufifo.log_in_order (t_urb t)" using ok(2) by (simp add: t_log_ok_def)
  from i(2) have s: "0 < id_seq i" "id_seq i \<noteq> - 1" by (simp_all add: good_id_def)
  from ufifo.log_in_order_deliver [OF order s] ok(2) i(1) show ?thesis
    by (cases i) (auto simp: t_log_ok_def u at)
next
  case False
  then have other: "\<And>i ids. t_del t \<noteq> D_deliver i ids" by blast
  show ?thesis
    using deliverer_log_frame [OF step other] deliverer_due [OF ok(1) step other]
    by (intro t_log_frame [OF ok(2)]) simp_all
qed

section \<open>Every interleaving keeps the invariants\<close>

definition threads_inv :: "threads \<Rightarrow> bool" where
  "threads_inv t \<longleftrightarrow> t_delivery_ok t \<and> t_own_ok t \<and> t_window_ok t \<and> t_majority_ok t \<and> t_log_ok t"

lemma threads_inv_receive:
  assumes "threads_inv t" and "receiver_step (t_recv t) (t_urb t) = Inr (r, u)"
  shows "threads_inv (t\<lparr>t_recv := r, t_urb := u\<rparr>)"
  using assms receiver_delivery receiver_own receiver_window_ok receiver_majority receiver_log
  by (simp add: threads_inv_def)

lemma threads_inv_deliver:
  assumes "threads_inv t" and "reads_front after_pop" and "deliverer_step after_pop (t_del t) (t_urb t) = Inr (d, u)"
  shows "threads_inv (t\<lparr>t_del := d, t_urb := u\<rparr>)"
  using assms deliverer_delivery deliverer_own deliverer_window_ok deliverer_majority deliverer_log
  by (simp add: threads_inv_def)

lemma threads_inv_sender:
  assumes inv: "threads_inv t" and step: "sender_step (t_send t) (t_urb t) = Inr (s, u)"
  shows "threads_inv (t\<lparr>t_send := s, t_urb := u\<rparr>)"
proof -
  have "t_majority_ok (t\<lparr>t_send := s, t_urb := u\<rparr>)"
    using inv sender_frame [OF step] by (simp add: threads_inv_def t_majority_ok_def acks_of_def)
  with inv step sender_delivery sender_own sender_window_ok sender_log show ?thesis by (simp add: threads_inv_def)
qed

lemma threads_inv_call:
  assumes inv: "threads_inv t" and idle: "t_send t = S_idle" and n: "bc_n_messages_sent (t_urb t) \<noteq> - 1"
    and call: "sender_begin msg (t_urb t) = (s, u)"
  shows "threads_inv (t\<lparr>t_send := s, t_urb := u\<rparr>)"
proof -
  let ?t = "t\<lparr>t_send := s, t_urb := u\<rparr>"
  from call have s: "s = S_log (bc_n_messages_sent (t_urb t)) msg"
    and u: "u = (t_urb t)\<lparr>bc_n_messages_sent := bc_n_messages_sent (t_urb t) + 1\<rparr>"
    by (simp_all add: sender_begin_def)
  have K: "t_known ?t = t_known t" "t_window ?t = t_window t" by (simp_all add: t_known_def known_def t_window_def u s idle)
  have "t_delivery_ok ?t" "t_window_ok ?t" "t_majority_ok ?t"
    using inv idle by (simp_all add: threads_inv_def t_delivery_ok_def t_honest_def K t_window_ok_def t_majority_ok_def
        acks_of_def) (simp_all add: u s)
  moreover have "t_own_ok ?t"
    using inv own_call [OF _ n] idle by (simp add: threads_inv_def t_own_ok_def K) (simp add: u s)
  moreover have "t_log_ok ?t" by (rule t_log_frame [of t]) (use inv in \<open>simp_all add: threads_inv_def u\<close>)
  ultimately show ?thesis by (simp add: threads_inv_def)
qed

lemma threads_inv_same:
  assumes inv: "threads_inv t" and "t_del t' = t_del t" "t_send t' = t_send t" "t_recv t' = t_recv t"
    and u: "t_urb t' = (t_urb t)\<lparr>perfect_links := links, on := b, ack_thread := b_ack, send_thread := b_send, deliver_thread := b_del\<rparr>"
  shows "threads_inv t'"
proof -
  have "t_log_ok t'" by (rule t_log_frame [of t]) (use inv assms(2) in \<open>simp_all add: threads_inv_def u\<close>)
  moreover have "t_known t' = t_known t" "t_window t' = t_window t"
    using assms by (simp_all add: t_known_def known_def t_window_def)
  ultimately show ?thesis
    using assms by (simp add: threads_inv_def t_delivery_ok_def t_honest_def t_own_ok_def t_window_ok_def
        t_majority_ok_def acks_of_def)
qed

lemma threads_inv_turn:
  assumes inv: "threads_inv t" and idle: "t_del t = D_idle" and ids: "set ids = pending_for_delivery (t_urb t)"
  shows "threads_inv (t\<lparr>t_del := D_next ids\<rparr>)"
proof -
  let ?t = "t\<lparr>t_del := D_next ids\<rparr>"
  have "t_log_ok ?t" by (rule t_log_frame [of t]) (use inv idle in \<open>simp_all add: threads_inv_def\<close>)
  moreover have "t_known ?t = t_known t" "t_window ?t = t_window t"
    using idle by (simp_all add: t_known_def known_def t_window_def)
  moreover have "set ids \<subseteq> t_known t" by (auto simp: ids t_known_def known_def)
  ultimately show ?thesis
    using inv idle by (simp add: threads_inv_def t_delivery_ok_def t_honest_def t_own_ok_def t_window_ok_def t_majority_ok_def)
qed

lemma threads_inv_arrive:
  assumes "threads_inv t" and "t_honest t msg"
  shows "threads_inv (t\<lparr>t_recv := R_notify msg\<rparr>)"
proof -
  let ?t = "t\<lparr>t_recv := R_notify msg\<rparr>"
  have "t_log_ok ?t" by (rule t_log_frame [of t]) (use assms in \<open>simp_all add: threads_inv_def\<close>)
  moreover have "t_known ?t = t_known t" "t_window ?t = t_window t" by (simp_all add: t_known_def t_window_def)
  ultimately show ?thesis
    using assms by (simp add: threads_inv_def t_delivery_ok_def t_honest_def t_own_ok_def t_window_ok_def t_majority_ok_def)
qed

lemma threads_inv_step:
  assumes "threads_inv t" and "reads_front after_pop" and "threads_step after_pop t t'"
  shows "threads_inv t'"
  using assms(3)
proof cases
  case (t_links links)
  then show ?thesis
    by (intro threads_inv_same [OF assms(1), where links = links and b = "on (t_urb t)" and b_ack = "ack_thread (t_urb t)"
          and b_send = "send_thread (t_urb t)" and b_del = "deliver_thread (t_urb t)"]) simp_all
next
  case (t_switch b_del b_send b_ack b)
  then show ?thesis
    by (intro threads_inv_same [OF assms(1), where links = "perfect_links (t_urb t)" and b = b and b_ack = b_ack
          and b_send = b_send and b_del = b_del]) simp_all
qed (use assms threads_inv_arrive threads_inv_receive threads_inv_turn threads_inv_deliver threads_inv_call
    threads_inv_sender in \<open>simp_all\<close>)

section \<open>Runs of the threads\<close>

definition threads_started :: "threads \<Rightarrow> bool" where
  "threads_started t \<longleftrightarrow> ufifo_started (t_urb t) \<and> t_recv t = R_idle \<and> t_del t = D_idle \<and> t_send t = S_idle"

definition threads_next :: "threads \<Rightarrow> threads \<Rightarrow> bool" where
  "threads_next t t' \<longleftrightarrow> (\<exists>after_pop. reads_front after_pop \<and> threads_step after_pop t t')"

lemma window_size_bound: "unat (of_nat (max 1 (URB_MAX_MSGS_IN_NETWORK div n ^ 2)) :: u32) \<le> URB_MAX_MSGS_IN_NETWORK"
proof -
  have "max 1 (URB_MAX_MSGS_IN_NETWORK div n ^ 2) \<le> URB_MAX_MSGS_IN_NETWORK"
    by (simp add: URB_MAX_MSGS_IN_NETWORK_def)
  then show ?thesis unfolding unat_of_nat using mod_less_eq_dividend le_trans by blast
qed

lemma started_window:
  assumes "ufifo_started u"
  shows "unat (n_own_pending_delivery_ideal u) \<le> URB_MAX_MSGS_IN_NETWORK"
proof -
  have "unat (n_own_pending_delivery_ideal (fold URB_Add pls v)) \<le> URB_MAX_MSGS_IN_NETWORK"
    if "unat (n_own_pending_delivery_ideal v) \<le> URB_MAX_MSGS_IN_NETWORK" for pls and v :: ufifo
    using that window_size_bound by (induction pls arbitrary: v) (simp_all add: URB_Add_def Let_def)
  with assms show ?thesis
    by (auto simp: ufifo_started_def UFIFO_init_def URB_init_def manager.defs urb.defs URB_MAX_MSGS_IN_NETWORK_def)
qed

lemma threads_started_inv:
  assumes "threads_started t"
  shows "threads_inv t"
proof -
  let ?u = "t_urb t"
  from assms have st: "ufifo_started ?u" and pc: "t_recv t = R_idle" "t_del t = D_idle" "t_send t = S_idle"
    by (simp_all add: threads_started_def)
  from st obtain l i pls where "?u = fold URB_Add pls (UFIFO_init l i)" by (auto simp: ufifo_started_def)
  then have fresh: "urb_fresh ?u" by (simp only: urb_fresh_Adds urb_fresh_UFIFO_init)
  then have K: "t_known t = {}" "t_window t = {}"
    using pc by (auto simp: urb_fresh_def t_known_def t_window_def known_def dset.abs_emp)
  have "t_log_ok t" using ufifo_started_inv [OF st] pc by (simp add: t_log_ok_def fifo_sync_def)
  moreover have "t_delivery_ok t" "t_window_ok t" "t_majority_ok t" "t_own_ok t"
    using fresh pc K started_window [OF st] dset.invar_emp dset.abs_emp
    by (auto simp: urb_fresh_def t_delivery_ok_def t_window_ok_def t_majority_ok_def t_own_ok_def own_places_def acks_of_def
        word_less_1)
  ultimately show ?thesis by (simp add: threads_inv_def)
qed

interpretation thread_runs: invariant threads_started threads_next threads_inv
  by unfold_locales (auto simp: threads_next_def intro: threads_started_inv threads_inv_step)

end
