(* ===== verification/Thread_Runs.thy ===== *)
theory Thread_Runs
  imports Thread_Safety
begin

text \<open>
  Runs of the threads: schedules that can be executed, the end of the delivering thread after
  \<^verbatim>\<open>Stop\<close>, and the properties of all interleavings.
\<close>

section \<open>Schedules\<close>

datatype turn =
    Hear bcast_message
  | Receiver
  | Turn "msg_id list"
  | Deliverer
  | Call string
  | Sender

fun take_turn :: "turn \<Rightarrow> threads \<Rightarrow> threads option" where
  "take_turn (Hear msg) t =
     (if t_recv t = R_idle \<and> good_id (bm_id msg) \<and> id_author (bm_id msg) \<noteq> bc_id (t_urb t)
      then Some (t\<lparr>t_recv := R_notify msg\<rparr>) else None)"
| "take_turn Receiver t =
     (case receiver_step (t_recv t) (t_urb t) of Inl e \<Rightarrow> None | Inr (r, u) \<Rightarrow> Some (t\<lparr>t_recv := r, t_urb := u\<rparr>))"
| "take_turn (Turn ids) t =
     (if t_del t = D_idle \<and> on (t_urb t) \<and> distinct ids \<and> set ids = pending_for_delivery (t_urb t)
      then Some (t\<lparr>t_del := D_next ids\<rparr>) else None)"
| "take_turn Deliverer t =
     (case deliverer_step Inr (t_del t) (t_urb t) of Inl e \<Rightarrow> None | Inr (d, u) \<Rightarrow> Some (t\<lparr>t_del := d, t_urb := u\<rparr>))"
| "take_turn (Call msg) t =
     (if t_send t = S_idle \<and> bc_n_messages_sent (t_urb t) \<noteq> - 1
      then (case sender_begin msg (t_urb t) of (s, u) \<Rightarrow> Some (t\<lparr>t_send := s, t_urb := u\<rparr>)) else None)"
| "take_turn Sender t =
     (case sender_step (t_send t) (t_urb t) of Inl e \<Rightarrow> None | Inr (s, u) \<Rightarrow> Some (t\<lparr>t_send := s, t_urb := u\<rparr>))"

fun schedule :: "turn list \<Rightarrow> threads \<Rightarrow> threads option" where
  "schedule [] t = Some t"
| "schedule (c # cs) t = Option.bind (take_turn c t) (schedule cs)"

lemma reads_front_Inr: "reads_front Inr"
  by (simp add: reads_front_def)

lemma take_turn_next:
  assumes "take_turn c t = Some t'"
  shows "threads_next t t'"
proof -
  have "threads_step Inr t t'"
    using assms by (cases c) (auto intro: threads_step.intros simp: t_honest_def split: if_splits sum.splits prod.splits)
  with reads_front_Inr show ?thesis unfolding threads_next_def by blast
qed

lemma schedule_runs: "schedule cs t = Some t' \<Longrightarrow> threads_next\<^sup>*\<^sup>* t t'"
proof (induction cs arbitrary: t)
  case (Cons c cs)
  then obtain t1 where "take_turn c t = Some t1" "schedule cs t1 = Some t'"
    by (auto simp: bind_eq_Some_conv)
  with Cons.IH take_turn_next show ?case by (meson converse_rtranclp_into_rtranclp)
qed simp

section \<open>The end of the delivering thread\<close>

text \<open>How many steps the deliverer is away from the end of its turn.\<close>

fun deliverer_left :: "deliverer_at \<Rightarrow> nat" where
  "deliverer_left D_idle = 0"
| "deliverer_left (D_next ids) = 11 * length ids + 1"
| "deliverer_left (D_check i seen ids) = 11 * length ids + 11"
| "deliverer_left (D_unpend i ids) = 11 * length ids + 10"
| "deliverer_left (D_leave i ids) = 11 * length ids + 9"
| "deliverer_left (D_pop i ids) = 11 * length ids + 8"
| "deliverer_left (D_enter i m ids) = 11 * length ids + 7"
| "deliverer_left (D_pend i m ids) = 11 * length ids + 6"
| "deliverer_left (D_send i m ids) = 11 * length ids + 5"
| "deliverer_left (D_mark i ids) = 11 * length ids + 4"
| "deliverer_left (D_forget i ids) = 11 * length ids + 3"
| "deliverer_left (D_deliver i ids) = 11 * length ids + 2"

lemma deliverer_advances:
  assumes "deliverer_step after_pop d u = Inr (d', u')" and "d \<noteq> D_idle"
  shows "deliverer_left d' < deliverer_left d"
  by (rule step_rule [OF assms(1)], use assms(2) in \<open>cases "(after_pop, d, u)" rule: deliverer_step.cases\<close>)
    (auto simp: step_simps Let_def split: list.splits sum.split)

lemma stopped_advances:
  assumes "threads_next t t'" and "\<not> on (t_urb t)"
  shows "t_del t' = t_del t \<or> deliverer_left (t_del t') < deliverer_left (t_del t)"
proof -
  obtain after_pop where "threads_step after_pop t t'" using assms(1) by (auto simp: threads_next_def)
  then show ?thesis
  proof cases
    case (t_deliver d u)
    show ?thesis
    proof (cases "t_del t = D_idle")
      case False
      then show ?thesis using deliverer_advances [OF t_deliver(2) False] t_deliver(1) by simp
    qed (use t_deliver in simp)
  qed (use assms(2) in simp_all)
qed

text \<open>In an endless run with the switch off the deliverer comes to rest, if it is scheduled while it has work.\<close>

lemma stopped_rests:
  assumes run: "\<And>k. threads_next (f k) (f (Suc k))" and off: "\<And>k. \<not> on (t_urb (f k))"
    and fair: "\<And>k. t_del (f k) \<noteq> D_idle \<Longrightarrow> \<exists>j \<ge> k. t_del (f (Suc j)) \<noteq> t_del (f j)"
  shows "\<exists>k. \<forall>j \<ge> k. t_del (f j) = D_idle"
proof -
  have falls: "deliverer_left (t_del (f (Suc k))) \<le> deliverer_left (t_del (f k))" for k
    using stopped_advances [OF run off, of k] by auto
  have "\<exists>k. t_del (f k) = D_idle"
  proof -
    have "\<exists>j. t_del (f j) = D_idle" if "deliverer_left (t_del (f k)) = n" for n k
      using that
    proof (induction n arbitrary: k rule: less_induct)
      case (less n)
      show ?case
      proof (cases "t_del (f k) = D_idle")
        case False
        then obtain j where j: "j \<ge> k" "t_del (f (Suc j)) \<noteq> t_del (f j)" using fair by blast
        have "deliverer_left (t_del (f j)) \<le> deliverer_left (t_del (f k))"
          by (rule lift_Suc_antimono_le [of "\<lambda>k. deliverer_left (t_del (f k))", OF falls j(1)])
        with j(2) stopped_advances [OF run off, of j] less.prems have "deliverer_left (t_del (f (Suc j))) < n" by auto
        with less.IH show ?thesis by blast
      qed blast
    qed
    then show ?thesis by blast
  qed
  then obtain k where k: "t_del (f k) = D_idle" by blast
  have "t_del (f j) = D_idle" if "j \<ge> k" for j
    using that
  proof (induction rule: dec_induct)
    case (step n)
    with stopped_advances [OF run off, of n] show ?case by simp
  qed (rule k)
  then show ?thesis by blast
qed

section \<open>What never changes\<close>

text \<open>A message that is pending and delivered stays pending: the deliverer erases only what it delivers.\<close>

lemma deliverer_keeps:
  assumes "deliverer_step after_pop d u = Inr (d', u')" and "i \<in> pending_for_delivery u" and "i \<notin> decided d"
  shows "i \<in> pending_for_delivery u'"
  by (rule step_rule [OF assms(1)], use assms(2,3) in \<open>cases "(after_pop, d, u)" rule: deliverer_step.cases\<close>)
    (auto simp: step_simps Let_def split: list.splits sum.split)

lemma deliverer_delivered:
  assumes ok: "t_delivery_ok t" and step: "deliverer_step after_pop (t_del t) (t_urb t) = Inr (d, u)"
  shows "set_abs (delivered (t_urb t)) \<subseteq> set_abs (delivered u)"
  by (rule step_rule [OF step], use ok in \<open>cases "(after_pop, t_del t, t_urb t)" rule: deliverer_step.cases\<close>)
    (auto simp: t_delivery_ok_def t_known_def good_id_Insert step_simps Let_def split: list.splits sum.split)

lemma pending_forever_step:
  assumes inv: "threads_inv t" and step: "threads_next t t'"
    and i: "i \<in> pending_for_delivery (t_urb t)" "i \<in> set_abs (delivered (t_urb t))"
  shows "i \<in> pending_for_delivery (t_urb t') \<and> i \<in> set_abs (delivered (t_urb t'))"
proof -
  have ok: "t_delivery_ok t" and quiet: "\<not> deliver_to_upper_layer (t_urb t)" and "i \<notin> decided (t_del t)"
    using inv i(2) by (auto simp: threads_inv_def t_delivery_ok_def)
  obtain after_pop where "threads_step after_pop t t'" using step by (auto simp: threads_next_def)
  then show ?thesis
  proof cases
    case (t_receive r u)
    with receiver_pending [OF t_receive(2) quiet] receiver_frame [OF t_receive(2) quiet] i show ?thesis by auto
  next
    case (t_deliver d u)
    with deliverer_keeps [OF t_deliver(2) i(1) \<open>i \<notin> decided (t_del t)\<close>] deliverer_delivered [OF ok t_deliver(2)] i
    show ?thesis by auto
  next
    case (t_sender s u)
    with sender_pending [OF t_sender(2)] sender_frame [OF t_sender(2)] i show ?thesis by auto
  qed (use i in \<open>auto simp: sender_begin_def\<close>)
qed

lemma pending_forever:
  assumes "threads_next\<^sup>*\<^sup>* t t'" and "threads_inv t"
    and "i \<in> pending_for_delivery (t_urb t)" "i \<in> set_abs (delivered (t_urb t))"
  shows "threads_inv t' \<and> i \<in> pending_for_delivery (t_urb t') \<and> i \<in> set_abs (delivered (t_urb t'))"
  using assms by (induction rule: rtranclp_induct) (auto intro: thread_runs.inv_step dest: pending_forever_step)

text \<open>
  With no own message in the network and the main thread outside \<^verbatim>\<open>Send\<close>, nothing leaves the queue
  before the next \<^verbatim>\<open>Send\<close>.
\<close>

definition starved :: "threads \<Rightarrow> bool" where
  "starved t \<longleftrightarrow> threads_inv t \<and> t_send t = S_idle \<and> t_window t = {} \<and> del_room (t_del t) = 0"

definition no_send :: "threads \<Rightarrow> threads \<Rightarrow> bool" where
  "no_send t t' \<longleftrightarrow> threads_next t t' \<and> bc_n_messages_sent (t_urb t') = bc_n_messages_sent (t_urb t)"

lemma deliverer_queue:
  assumes "deliverer_step after_pop d u = Inr (d', u')" and "del_room d = 0"
  shows "own_pending_for_broadcast u' = own_pending_for_broadcast u"
  by (rule step_rule [OF assms(1)], use assms(2) in \<open>cases "(after_pop, d, u)" rule: deliverer_step.cases\<close>)
    (auto simp: step_simps Let_def split: list.splits sum.split)

lemma starved_deliver:
  assumes t: "starved t" and pop: "reads_front after_pop" and step: "deliverer_step after_pop (t_del t) (t_urb t) = Inr (d, u)"
  shows "t_window (t\<lparr>t_del := d, t_urb := u\<rparr>) = {}" "del_room d = 0"
    "own_pending_for_broadcast u = own_pending_for_broadcast (t_urb t)"
proof -
  have ok: "t_delivery_ok t" "t_own_ok t" "t_window_ok t" using t by (simp_all add: starved_def threads_inv_def)
  have "t_del t \<noteq> D_leave i ids" for i ids
    using t ok by (auto simp: starved_def t_window_def t_known_def t_delivery_ok_def t_window_ok_def)
  then show "t_window (t\<lparr>t_del := d, t_urb := u\<rparr>) = {}" "del_room d = 0"
    using deliverer_window [OF ok(1,2) pop step] deliverer_counter [OF step] t
    by (cases "t_del t"; simp add: starved_def)+
  show "own_pending_for_broadcast u = own_pending_for_broadcast (t_urb t)"
    using deliverer_queue [OF step] t by (simp add: starved_def)
qed

lemma starved_step:
  assumes t: "starved t" and step: "no_send t t'"
  shows "starved t' \<and> own_pending_for_broadcast (t_urb t') = own_pending_for_broadcast (t_urb t)"
proof -
  obtain after_pop where pop: "reads_front after_pop" and "threads_step after_pop t t'"
    using step by (auto simp: no_send_def threads_next_def)
  have inv: "threads_inv t'" using t step by (auto simp: starved_def no_send_def intro: thread_runs.inv_step)
  have ok: "t_delivery_ok t" and quiet: "\<not> deliver_to_upper_layer (t_urb t)"
    using t by (simp_all add: starved_def threads_inv_def t_delivery_ok_def)
  from \<open>threads_step after_pop t t'\<close> show ?thesis
  proof cases
    case (t_receive r u)
    with receiver_window [OF ok t_receive(2)] receiver_frame [OF t_receive(2) quiet] inv t show ?thesis
      by (simp add: starved_def)
  next
    case (t_deliver d u)
    with starved_deliver [OF t pop t_deliver(2)] inv t show ?thesis by (simp add: starved_def)
  next
    case (t_call msg s u)
    then have "bc_n_messages_sent (t_urb t) + 1 = bc_n_messages_sent (t_urb t)"
      using step by (auto simp: no_send_def sender_begin_def)
    then show ?thesis by simp
  qed (use inv t in \<open>auto simp: starved_def t_window_def t_known_def known_def\<close>)
qed

lemma starved_forever:
  assumes "no_send\<^sup>*\<^sup>* t t'" and "starved t"
  shows "starved t' \<and> own_pending_for_broadcast (t_urb t') = own_pending_for_broadcast (t_urb t)"
  using assms by (induction rule: rtranclp_induct) (auto dest: starved_step)

section \<open>Executions\<close>

definition ex_threads :: "ufifo \<Rightarrow> threads" where
  "ex_threads u = \<lparr>t_urb = u, t_recv = R_idle, t_del = D_idle, t_send = S_idle\<rparr>"

definition ex_on :: "ufifo \<Rightarrow> threads" where
  "ex_on u = (ex_threads u)\<lparr>t_urb := u\<lparr>on := True\<rparr>\<rparr>"

lemma ex_on_reachable:
  assumes "ufifo_started u"
  shows "reachable threads_started threads_next (ex_on u)"
proof -
  have "threads_started (ex_threads u)" using assms by (simp add: threads_started_def ex_threads_def)
  moreover have "threads_next (ex_threads u) (ex_on u)"
    using t_switch [of Inr "ex_threads u" "deliver_thread u" "send_thread u" "ack_thread u" True] reads_front_Inr by (auto simp: threads_next_def ex_on_def ex_threads_def)
  ultimately show ?thesis by (blast intro: reachable.intros)
qed

lemma ex_started: "ufifo_started ex_fifo" "ufifo_started (UFIFO_init ex_logger 1)"
proof -
  have "lg_is_open ex_logger \<and> lg_lines ex_logger = []"
    by (simp add: ex_logger_def Logger_ctor_def Logger_file_open_def)
  then show "ufifo_started ex_fifo" "ufifo_started (UFIFO_init ex_logger 1)"
    unfolding ufifo_started_def ex_fifo_def by (blast, metis fold_simps(1))
qed

text \<open>
  Process 1 of three. Message 1 of process 2 arrives from process 2 and is about to be marked as
  delivered when it arrives again, from process 3.
\<close>

definition ex_from :: "u32 \<Rightarrow> bcast_message" where
  "ex_from j = \<lparr>bm_id = Msg_Id 1 2, bm_sender = j, bm_payload = []\<rparr>"

definition ex_to_mark :: "turn list" where
  "ex_to_mark = Hear (ex_from 2) # replicate 6 Receiver @ Turn [Msg_Id 1 2] # replicate 3 Deliverer"

definition ex_marking :: threads where
  "ex_marking = the (schedule ex_to_mark (ex_on ex_fifo))"

definition ex_to_leak :: "turn list" where
  "ex_to_leak = Hear (ex_from 3) # replicate 3 Receiver @ replicate 4 Deliverer @ replicate 3 Receiver"

definition ex_leak :: threads where
  "ex_leak = the (schedule ex_to_leak ex_marking)"

lemma replicate_numeral: "replicate (numeral k) x = x # replicate (pred_numeral k) x"
  by (simp add: numeral_eq_Suc)

lemmas ex_thread_defs = ex_on_def ex_threads_def ex_from_def good_id_def sender_begin_def replicate_numeral ex_fifo_defs

lemma ex_marking_runs:
  "schedule ex_to_mark (ex_on ex_fifo) = Some ex_marking"
  "t_del ex_marking = D_mark (Msg_Id 1 2) []" "take_turn Deliverer ex_marking = Some (the (take_turn Deliverer ex_marking))"
  "\<not> DeliveredSet_Contains (delivered (t_urb ex_marking)) (Msg_Id 1 2)"
  "DeliveredSet_Contains (delivered (t_urb (the (take_turn Deliverer ex_marking)))) (Msg_Id 1 2)"
  by (simp_all add: ex_marking_def ex_to_mark_def ex_thread_defs)

lemma ex_leak_runs:
  "schedule ex_to_leak ex_marking = Some ex_leak"
  "t_recv ex_leak = R_idle" "t_del ex_leak = D_idle" "pending_for_delivery (t_urb ex_leak) = {Msg_Id 1 2}"
  "DeliveredSet_Contains (delivered (t_urb ex_leak)) (Msg_Id 1 2)" "lg_lines (mgr_logger (t_urb ex_leak)) = [deliver_line 2 1]"
  by (simp_all add: ex_leak_def ex_to_leak_def ex_marking_def ex_to_mark_def ex_thread_defs)

lemma ex_leak_reachable:
  "reachable threads_started threads_next ex_marking" "reachable threads_started threads_next ex_leak"
proof -
  show marking: "reachable threads_started threads_next ex_marking"
    by (rule reachable_steps [OF ex_on_reachable [OF ex_started(1)] schedule_runs [OF ex_marking_runs(1)]])
  show "reachable threads_started threads_next ex_leak"
    by (rule reachable_steps [OF marking schedule_runs [OF ex_leak_runs(1)]])
qed

text \<open>Process 1 alone, with room for one message in the network: its first message is pending.\<close>

definition ex_first :: threads where
  "ex_first = the (schedule (Call [] # replicate 5 Sender) (ex_on (UFIFO_init ex_logger 1)))"

text \<open>The second message is queued; while the first is delivered and the second leaves the queue, the third enters.\<close>

definition ex_to_over :: "turn list" where
  "ex_to_over = Call [] # replicate 3 Sender @ Turn [Msg_Id 1 1] # replicate 4 Deliverer @
     Call [] # replicate 2 Sender @ replicate 2 Deliverer @ [Sender]"

definition ex_over :: threads where
  "ex_over = the (schedule ex_to_over ex_first)"

text \<open>The second \<^verbatim>\<open>Send\<close> finds the window full and is overtaken by the delivery of the first message.\<close>

definition ex_to_starved :: "turn list" where
  "ex_to_starved = Call [] # replicate 2 Sender @ Turn [Msg_Id 1 1] # replicate 9 Deliverer @ [Sender]"

definition ex_starved :: threads where
  "ex_starved = the (schedule ex_to_starved ex_first)"

lemma ex_first_runs:
  "schedule (Call [] # replicate 5 Sender) (ex_on (UFIFO_init ex_logger 1)) = Some ex_first"
  by (simp add: ex_first_def ex_thread_defs)

lemma ex_over_runs:
  "schedule ex_to_over ex_first = Some ex_over"
  "n_own_pending_for_delivery (t_urb ex_over) = 2" "n_own_pending_delivery_ideal (t_urb ex_over) = 1"
  by (simp_all add: ex_over_def ex_to_over_def ex_first_def ex_thread_defs)

lemma ex_starved_runs:
  "schedule ex_to_starved ex_first = Some ex_starved"
  "t_send ex_starved = S_idle" "t_del ex_starved = D_idle" "t_recv ex_starved = R_idle"
  "map bm_id (own_pending_for_broadcast (t_urb ex_starved)) = [Msg_Id 2 1]" "pending_for_delivery (t_urb ex_starved) = {}"
  "n_own_pending_for_delivery (t_urb ex_starved) = 0"
  "lg_lines (mgr_logger (t_urb ex_starved)) = [broadcast_line 1, broadcast_line 2, deliver_line 1 1]"
  by (simp_all add: ex_starved_def ex_to_starved_def ex_first_def ex_thread_defs)

lemma ex_first_reachable:
  "reachable threads_started threads_next ex_over" "reachable threads_started threads_next ex_starved"
proof -
  have "reachable threads_started threads_next ex_first"
    by (rule reachable_steps [OF ex_on_reachable [OF ex_started(2)] schedule_runs [OF ex_first_runs]])
  note steps = reachable_steps [OF this]
  show "reachable threads_started threads_next ex_over" by (rule steps [OF schedule_runs [OF ex_over_runs(1)]])
  show "reachable threads_started threads_next ex_starved" by (rule steps [OF schedule_runs [OF ex_starved_runs(1)]])
qed

end
