(* ===== verification/Thread_Properties.thy ===== *)
theory Thread_Properties
  imports Thread_Runs
begin

text \<open>
  The properties of a process whose threads interleave statement by statement: what every
  interleaving keeps, when the threads come to an end, and two executions in which the
  interleaving of statements does harm.
\<close>

section \<open>Whole operations\<close>

text \<open>
  C21: A thread that is not interrupted performs the operation its statements are taken from, in a
  bounded number of steps: six for \<^verbatim>\<open>NotifyInternal\<close>, five after the first for \<^verbatim>\<open>Send\<close>, and at
  most eleven for each message of a turn of \<^verbatim>\<open>DeliverPending\<close>; and it fails exactly when the
  operation fails.
\<close>

theorem threads_alone:
  assumes "on u" and "11 * length ids < fuel"
  shows "run_thread receiver_step R_idle 6 (R_notify m) u = Some (vt_NotifyInternal ufifo_vt m u) \<and>
    (case sender_begin msg u of (s, u1) \<Rightarrow> run_thread sender_step S_idle 5 s u1) = Some (URB_Send ufifo_vt msg u) \<and>
    run_thread (deliverer_step after_pop) D_idle fuel (D_next ids) u =
      Some (URB_DeliverPending ufifo_vt after_pop ids u)"
  using receiver_alone sender_alone deliverer_alone [OF assms] by blast

theorem threads_alone_witness:
  "run_thread (deliverer_step Inr) D_idle 12 (D_next [Msg_Id 2 3]) (ex_fifo_hear 2 ex_fifo_on) =
     Some (Inr (ex_fifo_turn 2 (ex_fifo_hear 2 ex_fifo_on)))"
proof -
  have "on (ex_fifo_hear 2 ex_fifo_on)" by (simp add: ex_fifo_defs)
  from threads_alone [OF this, of "[Msg_Id 2 3]" 12] show ?thesis by (simp add: ex_fifo_runs(5) del: run_thread_numeral)
qed

section \<open>Every interleaving\<close>

text \<open>
  C9: The log under every interleaving of the threads. In every reachable state of a process, also in the
  middle of operations of all three threads, the delivery lines of each author are numbered 1, 2 and so
  on up to some number, without gap, repetition or inversion, and a line is in the log exactly when
  the message and its predecessors are delivered and none of them is the one that the deliverer has
  marked as delivered and not handed up yet.
\<close>

theorem threads_log:
  assumes "reachable threads_started threads_next t"
  shows "(\<exists>k. filter (\<lambda>x. x \<in> range (deliver_line a)) (lg_lines (mgr_logger (t_urb t))) =
      map (\<lambda>j. deliver_line a (of_nat j)) [1 ..< Suc k]) \<and>
    (\<forall>s. 0 < s \<longrightarrow> deliver_line a s \<in> set (lg_lines (mgr_logger (t_urb t))) \<longleftrightarrow>
      (\<forall>r. 0 < r \<and> r \<le> s \<longrightarrow> DeliveredSet_Contains (delivered (t_urb t)) (Msg_Id r a) \<and> Msg_Id r a \<notin> due (t_del t)))"
proof -
  have log: "t_log_ok t" using thread_runs.reachable_inv [OF assms] by (simp add: threads_inv_def)
  then have order: "ufifo.log_in_order (t_urb t)" by (simp add: t_log_ok_def)
  have "deliver_line a s \<in> set (lg_lines (mgr_logger (t_urb t))) \<longleftrightarrow>
      (\<forall>r. 0 < r \<and> r \<le> s \<longrightarrow> DeliveredSet_Contains (delivered (t_urb t)) (Msg_Id r a) \<and> Msg_Id r a \<notin> due (t_del t))"
    if "0 < s" for s
    using log ufifo.logged_iff_prefix [OF order that, of a] by (simp add: t_log_ok_def set_Contains_abs valid_id_def)
  with ufifo.in_order_lines [OF order] show ?thesis by blast
qed

theorem threads_log_witness:
  "DeliveredSet_Contains (delivered (t_urb ex_leak)) (Msg_Id 1 2) \<and> Msg_Id 1 2 \<notin> due (t_del ex_leak) \<and>
   (\<exists>k. filter (\<lambda>x. x \<in> range (deliver_line 2)) [deliver_line 2 1] = map (\<lambda>j. deliver_line 2 (of_nat j)) [1 ..< Suc k])"
proof -
  note log = threads_log [OF ex_leak_reachable(2), of 2, unfolded ex_leak_runs(6)]
  from log [THEN conjunct2, THEN spec, of 1]
  have "\<forall>r. 0 < r \<and> r \<le> 1 \<longrightarrow> DeliveredSet_Contains (delivered (t_urb ex_leak)) (Msg_Id r 2) \<and> Msg_Id r 2 \<notin> due (t_del ex_leak)"
    by simp
  then show ?thesis using log [THEN conjunct1] spec [of _ 1] by simp
qed

lemma delivered_by_mark:
  assumes step: "threads_next t t'" and ok: "t_delivery_ok t"
    and i: "i \<in> set_abs (delivered (t_urb t'))" "i \<notin> set_abs (delivered (t_urb t))"
  shows "i \<in> decided (t_del t)"
proof -
  obtain after_pop where "threads_step after_pop t t'" using step by (auto simp: threads_next_def)
  then show ?thesis
  proof cases
    case (t_deliver d u)
    have "set_abs (delivered u) \<subseteq> set_abs (delivered (t_urb t)) \<union> decided (t_del t)"
      by (rule step_rule [OF t_deliver(2)], use ok in \<open>cases "(after_pop, t_del t, t_urb t)" rule: deliverer_step.cases\<close>)
        (auto simp: t_delivery_ok_def t_known_def good_id_Insert step_simps Let_def split: list.splits sum.split)
    with i t_deliver show ?thesis by auto
  next
    case (t_receive r u)
    then show ?thesis using receiver_frame [OF t_receive(2)] ok i by (simp add: t_delivery_ok_def)
  next
    case (t_sender s u)
    then show ?thesis using sender_frame [OF t_sender(2)] i by simp
  qed (use i in \<open>auto simp: sender_begin_def\<close>)
qed

text \<open>
  C10: The majority rule under every interleaving. In whatever way the threads interleave, a message
  becomes delivered only in a state in which more than half of the processes, the process itself
  counted, have acknowledged it, although the majority was counted several statements earlier.
\<close>

theorem threads_majority:
  assumes "reachable threads_started threads_next t" and "threads_next t t'" and "0 < id_seq i"
    and "DeliveredSet_Contains (delivered (t_urb t')) i" and "\<not> DeliveredSet_Contains (delivered (t_urb t)) i"
  shows "card (acks_of (t_urb t) i) + 1 > unat (n_processes (t_urb t)) div 2"
proof -
  have ok: "t_delivery_ok t" "t_majority_ok t"
    using thread_runs.reachable_inv [OF assms(1)] by (simp_all add: threads_inv_def)
  have "i \<in> decided (t_del t)"
    by (rule delivered_by_mark [OF assms(2) ok(1)]) (use assms(3-5) in \<open>simp_all add: set_Contains_abs valid_id_def\<close>)
  then have "i \<in> counted (t_del t)" by (cases "t_del t") simp_all
  with ok(2) show ?thesis by (simp add: t_majority_ok_def)
qed

theorem threads_majority_witness:
  "card (acks_of (t_urb ex_marking) (Msg_Id 1 2)) + 1 > unat (n_processes (t_urb ex_marking)) div 2"
  using threads_majority [OF ex_leak_reachable(1) take_turn_next [OF ex_marking_runs(3)], of "Msg_Id 1 2"]
    ex_marking_runs(4,5) by simp

text \<open>
  C11: No interleaving loses or doubles an own message. Each number that \<^verbatim>\<open>Send\<close> has handed out names a
  message in exactly one of four places: known to the process (pending, delivered, or between the
  two), in the queue, in the hand of the deliverer that has popped it, or in the hand of the thread
  that is sending it; and nothing else is in these places under the own identifier.
\<close>

theorem threads_own_messages:
  assumes "reachable threads_started threads_next t"
  defines "me \<equiv> bc_id (t_urb t)" and "queue \<equiv> map bm_id (own_pending_for_broadcast (t_urb t))"
    and "pending \<equiv> pending_for_delivery (t_urb t)" and "marked \<equiv> set_abs (delivered (t_urb t))"
    and "mine \<equiv> {i. id_author i = bc_id (t_urb t)}"
  shows "(pending \<union> marked \<union> limbo (t_del t)) \<inter> mine \<union> set queue \<union> del_hand (t_del t) \<union> send_hand me (t_send t) =
      {i \<in> mine. 0 < id_seq i \<and> id_seq i < bc_n_messages_sent (t_urb t)} \<and>
    distinct queue \<and> (pending \<union> marked \<union> limbo (t_del t)) \<inter> (set queue \<union> del_hand (t_del t) \<union> send_hand me (t_send t)) = {} \<and>
    set queue \<inter> (del_hand (t_del t) \<union> send_hand me (t_send t)) = {} \<and> del_hand (t_del t) \<inter> send_hand me (t_send t) = {}"
proof -
  have K: "pending \<union> marked \<union> limbo (t_del t) = t_known t" by (simp add: pending_def marked_def t_known_def known_def)
  have "own_places me (bc_n_messages_sent (t_urb t)) (t_known t) queue (del_hand (t_del t)) (send_hand me (t_send t))"
    using thread_runs.reachable_inv [OF assms(1)] by (simp add: threads_inv_def t_own_ok_def me_def queue_def)
  moreover have "t_known t \<inter> mine = {i \<in> t_known t. id_author i = me}" by (auto simp: mine_def me_def)
  moreover have "{i \<in> mine. P i} = {i. id_author i = me \<and> P i}" for P by (auto simp: mine_def me_def)
  ultimately show ?thesis unfolding K own_places_def by simp
qed

theorem threads_own_messages_witness:
  "Msg_Id 2 1 \<notin> pending_for_delivery (t_urb ex_starved) \<union> set_abs (delivered (t_urb ex_starved))"
  using threads_own_messages [OF ex_first_reachable(2)] unfolding ex_starved_runs(5) by auto

text \<open>
  C12: The window under every interleaving. The counter \<^verbatim>\<open>n_own_pending_for_delivery_\<close> is at any time the
  number of own messages that have entered the window and not left it; it neither wraps around nor
  exceeds the size of the window by more than one. The excess of one occurs, when \<^verbatim>\<open>Send\<close> finds the
  place free that the deliverer is about to give to a queued message.
\<close>

theorem threads_window:
  assumes "reachable threads_started threads_next t"
  shows "unat (n_own_pending_for_delivery (t_urb t)) = card (t_window t) \<and>
    unat (n_own_pending_for_delivery (t_urb t)) \<le> unat (n_own_pending_delivery_ideal (t_urb t)) + 1"
  using thread_runs.reachable_inv [OF assms] by (simp add: threads_inv_def t_window_ok_def)

theorem threads_window_witness:
  "unat (2 :: u32) = card (t_window ex_over) \<and> unat (2 :: u32) \<le> unat (1 :: u32) + 1"
  using threads_window [OF ex_first_reachable(1)] by (simp add: ex_over_runs)

section \<open>The end of the deliverer\<close>

text \<open>
  C13: \<^verbatim>\<open>Stop\<close> returns. In an endless run in which the switch is off, as \<^verbatim>\<open>Stop\<close> leaves it, the
  thread of \<^verbatim>\<open>DeliverPending\<close> reaches the end of its loop and stays there, so that joining it succeeds,
  whatever the other threads do; all that is assumed is that it takes a further step as long as it
  has not ended.
\<close>

theorem Stop_ends_deliverer:
  assumes "\<forall>k. threads_next (f k) (f (Suc k))" and "\<forall>k. \<not> on (t_urb (f k))"
    and "\<forall>k. t_del (f k) \<noteq> D_idle \<longrightarrow> (\<exists>j \<ge> k. t_del (f (Suc j)) \<noteq> t_del (f j))"
  shows "\<exists>k. \<forall>j. t_del (f (k + j)) = D_idle"
proof -
  have "\<exists>k. \<forall>j \<ge> k. t_del (f j) = D_idle" by (rule stopped_rests) (use assms in auto)
  then show ?thesis using le_add1 by blast
qed

definition ex_stopping :: threads where
  "ex_stopping = ex_leak\<lparr>t_urb := (t_urb ex_leak)\<lparr>on := False\<rparr>, t_del := D_next [Msg_Id 1 2]\<rparr>"

definition ex_stop_run :: "nat \<Rightarrow> threads" where
  "ex_stop_run k = ((\<lambda>t. the (take_turn Deliverer t)) ^^ k) ex_stopping"

lemma ex_stop_turn:
  assumes "\<not> on (t_urb t)" and "DeliveredSet_Contains (delivered (t_urb t)) i"
    and "t_del t \<in> {D_next [i], D_check i True [], D_check i False [], D_next [], D_idle}"
  shows "\<exists>t'. take_turn Deliverer t = Some t' \<and> \<not> on (t_urb t') \<and> DeliveredSet_Contains (delivered (t_urb t')) i \<and>
    t_del t' \<in> {D_check i True [], D_check i False [], D_next [], D_idle} \<and> (t_del t' = t_del t \<longrightarrow> t_del t = D_idle)"
  using assms by (auto simp: Let_def)

lemma ex_stop_states:
  "\<not> on (t_urb (ex_stop_run k)) \<and> DeliveredSet_Contains (delivered (t_urb (ex_stop_run k))) (Msg_Id 1 2) \<and>
   t_del (ex_stop_run k) \<in> {D_next [Msg_Id 1 2], D_check (Msg_Id 1 2) True [], D_check (Msg_Id 1 2) False [], D_next [], D_idle}"
proof (induction k)
  case 0
  then show ?case by (simp add: ex_stop_run_def ex_stopping_def ex_leak_runs(5))
next
  case (Suc k)
  then have "\<not> on (t_urb (ex_stop_run k))" "DeliveredSet_Contains (delivered (t_urb (ex_stop_run k))) (Msg_Id 1 2)"
    "t_del (ex_stop_run k) \<in> {D_next [Msg_Id 1 2], D_check (Msg_Id 1 2) True [], D_check (Msg_Id 1 2) False [], D_next [], D_idle}"
    by blast+
  from ex_stop_turn [OF this] show ?case by (auto simp: ex_stop_run_def)
qed

lemma ex_stop_next:
  "threads_next (ex_stop_run k) (ex_stop_run (Suc k))"
  "t_del (ex_stop_run k) \<noteq> D_idle \<Longrightarrow> t_del (ex_stop_run (Suc k)) \<noteq> t_del (ex_stop_run k)"
proof -
  obtain t' where t': "take_turn Deliverer (ex_stop_run k) = Some t'"
    "t_del t' = t_del (ex_stop_run k) \<longrightarrow> t_del (ex_stop_run k) = D_idle"
    using ex_stop_turn [of "ex_stop_run k"] ex_stop_states [of k] by blast
  then have next_state: "ex_stop_run (Suc k) = t'" by (simp add: ex_stop_run_def)
  show "threads_next (ex_stop_run k) (ex_stop_run (Suc k))"
    unfolding next_state by (rule take_turn_next [OF t'(1)])
  show "t_del (ex_stop_run k) \<noteq> D_idle \<Longrightarrow> t_del (ex_stop_run (Suc k)) \<noteq> t_del (ex_stop_run k)"
    using t'(2) by (auto simp: next_state)
qed

theorem Stop_ends_deliverer_witness: "\<exists>k. \<forall>j. t_del (ex_stop_run (k + j)) = D_idle"
proof (rule Stop_ends_deliverer)
  show "\<forall>k. threads_next (ex_stop_run k) (ex_stop_run (Suc k))" by (simp only: ex_stop_next(1) simp_thms)
  show "\<forall>k. \<not> on (t_urb (ex_stop_run k))" using ex_stop_states by blast
  show "\<forall>k. t_del (ex_stop_run k) \<noteq> D_idle \<longrightarrow> (\<exists>j \<ge> k. t_del (ex_stop_run (Suc j)) \<noteq> t_del (ex_stop_run j))"
    using ex_stop_next(2) by blast
qed

section \<open>Interleavings that do harm\<close>

text \<open>
  C36: A message can stay pending for ever. Process 1 of three hears message 1 of process 2 and starts to
  deliver it. Between the two statements of the deliverer that erase the message from the pending
  set and insert it into the delivered set, the same message arrives from process 3: the receiver
  finds it in neither, and after the delivery makes it pending and relays it a second time. It is
  delivered once only, but in every later state of every run the message is both pending and
  delivered, so that each turn of \<^verbatim>\<open>DeliverPending\<close> looks at it again and its acknowledgements are
  kept for ever.
\<close>

theorem NotifyInternal_race:
  "reachable threads_started threads_next ex_leak \<and> t_recv ex_leak = R_idle \<and> t_del ex_leak = D_idle \<and>
   lg_lines (mgr_logger (t_urb ex_leak)) = [deliver_line 2 1] \<and>
   {t. threads_next\<^sup>*\<^sup>* ex_leak t} \<subseteq>
     {t. Msg_Id 1 2 \<in> pending_for_delivery (t_urb t) \<and> DeliveredSet_Contains (delivered (t_urb t)) (Msg_Id 1 2)}"
proof -
  have valid: "valid_id (Msg_Id 1 2)" by (simp add: valid_id_def)
  have "threads_inv ex_leak" by (rule thread_runs.reachable_inv [OF ex_leak_reachable(2)])
  from pending_forever [OF _ this] have "Msg_Id 1 2 \<in> pending_for_delivery (t_urb t) \<and>
      DeliveredSet_Contains (delivered (t_urb t)) (Msg_Id 1 2)" if "threads_next\<^sup>*\<^sup>* ex_leak t" for t
    using that ex_leak_runs(4,5) unfolding set_Contains_abs [OF valid] by blast
  then show ?thesis using ex_leak_reachable(2) ex_leak_runs(2,3,6) by blast
qed

text \<open>
  C37: \<^verbatim>\<open>Send\<close> can lose its wake-up. Process 1, alone, has one message in the network, which fills the
  window, and calls \<^verbatim>\<open>Send\<close> for a second one. The test finds the window full; before the message is
  pushed, the deliverer delivers message 1, empties the window and finds the queue empty; then
  \<^verbatim>\<open>Send\<close> pushes message 2. All threads are idle, message 2 is logged as broadcast and queued, nothing is
  pending and the window is empty; and in every run from there in which \<^verbatim>\<open>Send\<close> is not called again,
  however the threads interleave, message 2 stays in the queue.
\<close>

theorem Send_lost_wakeup:
  "reachable threads_started threads_next ex_starved \<and>
   t_send ex_starved = S_idle \<and> t_del ex_starved = D_idle \<and> t_recv ex_starved = R_idle \<and>
   lg_lines (mgr_logger (t_urb ex_starved)) = [broadcast_line 1, broadcast_line 2, deliver_line 1 1] \<and>
   n_own_pending_for_delivery (t_urb ex_starved) = 0 \<and> pending_for_delivery (t_urb ex_starved) = {} \<and>
   {t. no_send\<^sup>*\<^sup>* ex_starved t} \<subseteq> {t. map bm_id (own_pending_for_broadcast (t_urb t)) = [Msg_Id 2 1]}"
proof -
  have inv: "threads_inv ex_starved" by (rule thread_runs.reachable_inv [OF ex_first_reachable(2)])
  then have "finite (t_window ex_starved)" "card (t_window ex_starved) = 0"
    using finite_window ex_starved_runs(7) by (auto simp: threads_inv_def t_window_ok_def)
  with inv have "starved ex_starved" using ex_starved_runs(2,3) by (simp add: starved_def)
  with starved_forever have "map bm_id (own_pending_for_broadcast (t_urb t)) = [Msg_Id 2 1]"
    if "no_send\<^sup>*\<^sup>* ex_starved t" for t
    using that ex_starved_runs(5) by metis
  then show ?thesis using ex_first_reachable(2) ex_starved_runs by blast
qed

end
