(* ===== verification/Process_Threads.thy ===== *)
theory Process_Threads
  imports Thread_Properties Distributed_System
begin

text \<open>
  A whole process that broadcasts, with all its threads statement by statement: on top of the
  positions of \<^verbatim>\<open>NotifyInternal\<close>, \<^verbatim>\<open>DeliverPending\<close> and \<^verbatim>\<open>Send\<close>, the calls of \<^verbatim>\<open>PerfectLink::Send\<close> that a
  broadcast makes link by link, the receiving thread of the server in \<^verbatim>\<open>NotifyAll\<close> and
  \<^verbatim>\<open>PerfectLink::Notify\<close>, and the two sending threads of the manager. Each step is one section that
  holds a mutex, or one access to atomic variables.
\<close>

section \<open>Broadcasting link by link\<close>

text \<open>
  A call of \<^verbatim>\<open>PerfectLink::Send\<close> on the link to \<open>j\<close>: first the number is taken from the counter, then
  the message is inserted under the mutex.
\<close>

datatype pl_call =
    Take_number u32 bytes
  | Insert_message u32 u32 bytes

definition at_link :: "u32 \<Rightarrow> 'a manager_scheme \<Rightarrow> (perfect_link \<Rightarrow> 'b result) \<Rightarrow> 'b result" where
  "at_link j m f = (case perfect_links m j of None \<Rightarrow> Inl Dangling_Pointer | Some pl \<Rightarrow> f pl)"

fun PL_Send_step :: "pl_call \<Rightarrow> 'a manager_scheme \<Rightarrow> (pl_call list \<times> 'a manager_scheme) result" where
  "PL_Send_step (Take_number j bs) m = at_link j m (\<lambda>pl.
     Inr ([Insert_message j (pl_n_messages_sent pl) bs],
          update_link j (\<lambda>pl. pl\<lparr>pl_n_messages_sent := pl_n_messages_sent pl + 1\<rparr>) m))"
| "PL_Send_step (Insert_message j i bs) m = at_link j m (\<lambda>pl.
     Inr ([], update_link j (\<lambda>pl. pl\<lparr>messages_to_send :=
        (if messages_to_send pl i = None then (messages_to_send pl)(i \<mapsto> bs) else messages_to_send pl)\<rparr>) m))"

text \<open>\<^verbatim>\<open>BestEffortBroadcast::SendInternal\<close>: \<open>links\<close> is the copy of the links, in the order of the map.\<close>

definition BEB_calls :: "u32 list \<Rightarrow> bcast_message \<Rightarrow> pl_call list result" where
  "BEB_calls links msg =
     bind_result (write_buffer (kMaxSendSize - kPacketPrefixSize) (Broadcast_Serialize msg))
       (\<lambda>buffer. Inr (map (\<lambda>j. Take_number j buffer) links))"

text \<open>
  A thread inside the broadcast classes: the calls it still has to make and its position.
  \<open>sends\<close> tells whether the next statement of a position is the broadcast of a message, and the
  position after it.
\<close>

type_synonym 'p caller = "pl_call list \<times> 'p"

fun receiver_sends :: "receiver_at \<Rightarrow> (bcast_message \<times> receiver_at) option" where
  "receiver_sends (R_relay msg) = Some (msg, R_idle)"
| "receiver_sends _ = None"

fun deliverer_sends :: "deliverer_at \<Rightarrow> (bcast_message \<times> deliverer_at) option" where
  "deliverer_sends (D_send i msg ids) = Some (msg, D_mark i ids)"
| "deliverer_sends _ = None"

fun sender_sends :: "sender_at \<Rightarrow> (bcast_message \<times> sender_at) option" where
  "sender_sends (S_send msg) = Some (msg, S_idle)"
| "sender_sends _ = None"

fun link_by_link ::
  "('p \<Rightarrow> (bcast_message \<times> 'p) option) \<Rightarrow> ('p \<Rightarrow> 'a manager_scheme \<Rightarrow> ('p \<times> 'a manager_scheme) result) \<Rightarrow> u32 list
     \<Rightarrow> 'p caller \<Rightarrow> 'a manager_scheme \<Rightarrow> ('p caller \<times> 'a manager_scheme) result" where
  "link_by_link sends step links (c # cs, pc) m =
     bind_result (PL_Send_step c m) (\<lambda>(cs', m). Inr ((cs' @ cs, pc), m))"
| "link_by_link sends step links ([], pc) m =
     (case sends pc of
        Some (msg, pc') \<Rightarrow> bind_result (BEB_calls links msg) (\<lambda>cs. Inr ((cs, pc'), m))
      | None \<Rightarrow> bind_result (step pc m) (\<lambda>(pc, m). Inr (([], pc), m)))"

section \<open>The receiving thread\<close>

text \<open>Inside \<^verbatim>\<open>PerfectLink::Notify\<close>; in \<open>N_managers\<close> the list holds the managers still to be notified.\<close>

datatype notify_at =
    N_ack pl_message
  | N_look pl_message
  | N_managers pl_message "manager_ptr list"
  | N_stamp pl_message
  | N_unqueue u32

definition Notify_begin :: "bytes \<Rightarrow> notify_at option" where
  "Notify_begin bs = (case PL_Parse bs of None \<Rightarrow> None | Some (Msg message) \<Rightarrow> Some (N_ack message)
     | Some (Ack ack_id) \<Rightarrow> Some (N_unqueue ack_id))"

text \<open>
  A step of \<^verbatim>\<open>Notify\<close> on the link to \<open>j\<close>. The result is the next position, or \<open>None\<close> when it returns,
  the message with which a manager's \<^verbatim>\<open>NotifyInternal\<close> is entered, if any, and the new state.
\<close>

fun Notify_step ::
  "time \<Rightarrow> u32 \<Rightarrow> notify_at \<Rightarrow> 'a manager_scheme \<Rightarrow> (notify_at option \<times> bcast_message option \<times> 'a manager_scheme) result" where
  "Notify_step now j (N_ack message) m = at_link j m (\<lambda>pl.
     Inr (Some (N_look message), None,
          update_link j (\<lambda>pl. pl\<lparr>acks_to_send := insert (pm_seq message) (acks_to_send pl)\<rparr>) m))"
| "Notify_step now j (N_look message) m = at_link j m (\<lambda>pl.
     Inr (Some (if messages_delivered pl (pm_seq message) = None then N_managers message (managers pl) else N_stamp message),
          None, m))"
| "Notify_step now j (N_managers message []) m = Inr (Some (N_stamp message), None, m)"
| "Notify_step now j (N_managers message (manager # ms)) m = at_link j m (\<lambda>pl.
     Inr (Some (N_managers message ms), Broadcast_Parse (pl_target_id pl) (pm_payload message), m))"
| "Notify_step now j (N_stamp message) m = at_link j m (\<lambda>pl.
     Inr (None, None, update_link j (\<lambda>pl. pl\<lparr>messages_delivered := (messages_delivered pl)(pm_seq message \<mapsto> now)\<rparr>) m))"
| "Notify_step now j (N_unqueue ack_id) m = at_link j m (\<lambda>pl.
     Inr (None, None, update_link j (\<lambda>pl. pl\<lparr>messages_to_send := (messages_to_send pl)(ack_id := None)\<rparr>) m))"

text \<open>
  The thread of the server: waiting in \<^verbatim>\<open>recvfrom\<close>, about to copy the observers of a machine, in the
  loop over the copy, and inside the \<^verbatim>\<open>Notify\<close> of an observer.
\<close>

datatype server_at =
    W_wait
  | W_observers bytes machine
  | W_loop "u32 list" bytes
  | W_notify u32 notify_at "u32 list" bytes

fun server_step ::
  "time \<Rightarrow> server_at \<Rightarrow> u32 udp_server \<times> 'a manager_scheme
     \<Rightarrow> (server_at \<times> bcast_message option \<times> u32 udp_server \<times> 'a manager_scheme) result" where
  "server_step now W_wait (srv, m) = Inr (W_wait, None, srv, m)"
| "server_step now (W_observers bs addr) (srv, m) =
     (let obs = observers_at srv addr
      in Inr (W_loop obs bs, None, srv\<lparr>observers := (observers srv)(addr \<mapsto> obs)\<rparr>, m))"
| "server_step now (W_loop [] bs) (srv, m) = Inr (W_wait, None, srv, m)"
| "server_step now (W_loop (j # obs) bs) (srv, m) = at_link j m (\<lambda>pl.
     Inr (case Notify_begin bs of None \<Rightarrow> W_loop obs bs | Some p \<Rightarrow> W_notify j p obs bs, None, srv, m))"
| "server_step now (W_notify j p obs bs) (srv, m) =
     bind_result (Notify_step now j p m) (\<lambda>(p', up, m).
       Inr (case p' of None \<Rightarrow> W_loop obs bs | Some p' \<Rightarrow> W_notify j p' obs bs, up, srv, m))"

section \<open>The sending threads\<close>

text \<open>
  The acknowledging thread: the links whose turn is to come, and the two sections of \<^verbatim>\<open>CleanAcks\<close>.
  \<open>oa\<close> and \<open>od\<close> are the orders of the sets of the link.
\<close>

datatype acks_at =
    A_links "u32 list"
  | A_clean u32 "u32 list"
  | A_erase u32 "(u32 \<times> bool) list" "u32 list"

fun acks_step ::
  "(bytes \<Rightarrow> machine \<Rightarrow> int result) \<Rightarrow> bool \<Rightarrow> time \<Rightarrow> u32 list \<Rightarrow> u32 list \<Rightarrow> acks_at \<Rightarrow> 'a manager_scheme
     \<Rightarrow> (dgram list \<times> acks_at \<times> 'a manager_scheme) result" where
  "acks_step send strong now oa od (A_links []) m = Inr ([], A_links [], m)"
| "acks_step send strong now oa od (A_links (j # links)) m = at_link j m (\<lambda>pl.
     Inr (if acks_to_send pl = {} then ([], A_links links, m)
          else (concat (map (\<lambda>a. try_send send (PL_ack_packet a, pl_target_addr pl)) oa), A_clean j links, m)))"
| "acks_step send strong now oa od (A_clean j links) m = at_link j m (\<lambda>pl.
     let rm = acks_to_remove now od (messages_delivered pl)
     in Inr ([], A_erase j rm links,
             update_link j (\<lambda>pl. pl\<lparr>messages_delivered := (if strong then messages_delivered pl
               else fold (\<lambda>(s, remove_from_delivered) d. if remove_from_delivered then d(s := None) else d)
                      rm (messages_delivered pl))\<rparr>) m))"
| "acks_step send strong now oa od (A_erase j rm links) m = at_link j m (\<lambda>pl.
     Inr ([], A_links links, update_link j (\<lambda>pl. pl\<lparr>acks_to_send := fold (\<lambda>(s, _) A. A - {s}) rm (acks_to_send pl)\<rparr>) m))"

text \<open>The thread that sends messages holds the mutex of a link for a whole pass over its messages.\<close>

fun messages_step ::
  "(bytes \<Rightarrow> machine \<Rightarrow> int result) \<Rightarrow> u32 list \<Rightarrow> u32 list \<Rightarrow> 'a manager_scheme \<Rightarrow> (dgram list \<times> u32 list) result" where
  "messages_step send ord [] m = Inr ([], [])"
| "messages_step send ord (j # links) m = at_link j m (\<lambda>pl.
     bind_result (PL_SendMessages send ord pl) (\<lambda>out. Inr (out, links)))"

section \<open>The process\<close>

text \<open>The receiving thread: inside the broadcast classes, or else in the loop of the server.\<close>

type_synonym receiving = "server_at \<times> receiver_at caller"

definition receiving_step ::
  "time \<Rightarrow> u32 list \<Rightarrow> receiving \<Rightarrow> u32 udp_server \<times> ufifo \<Rightarrow> (receiving \<times> u32 udp_server \<times> ufifo) result" where
  "receiving_step now links p st = (case p of (w, r) \<Rightarrow> case st of (srv, u) \<Rightarrow>
     if r = ([], R_idle)
     then bind_result (server_step now w (srv, u)) (\<lambda>(w, up, srv, u).
            Inr ((w, [], case up of None \<Rightarrow> R_idle | Some msg \<Rightarrow> R_notify msg), srv, u))
     else bind_result (link_by_link receiver_sends receiver_step links r u) (\<lambda>(r, u). Inr ((w, r), srv, u)))"

text \<open>
  The state of a process: the shared state and the positions of the threads, of which
  \<open>nd_threads\<close> has the positions inside the broadcast classes.
\<close>

record node =
  nd_threads :: threads
  nd_server :: "u32 udp_server"
  nd_client :: udp_client
  nd_at :: server_at
  nd_recv_calls :: "pl_call list"
  nd_del_calls :: "pl_call list"
  nd_send_calls :: "pl_call list"
  nd_acks :: acks_at
  nd_msgs :: "u32 list"

abbreviation nd_urb :: "node \<Rightarrow> ufifo" where
  "nd_urb n \<equiv> t_urb (nd_threads n)"

abbreviation set_urb :: "ufifo \<Rightarrow> node \<Rightarrow> node" where
  "set_urb u n \<equiv> n\<lparr>nd_threads := (nd_threads n)\<lparr>t_urb := u\<rparr>\<rparr>"

definition links_of :: "'a manager_scheme \<Rightarrow> u32 list \<Rightarrow> bool" where
  "links_of m links \<longleftrightarrow> distinct links \<and> set links = dom (perfect_links m)"

text \<open>
  A step of one thread of a process, with the datagrams that it sends; \<open>inbox\<close> holds the datagrams
  that the process can receive, each with its source. The clock, the outcomes of \<^verbatim>\<open>sendto\<close> and the
  orders of the hash containers are arbitrary. \<open>nd_stop\<close> is the store in \<^verbatim>\<open>Stop\<close>.
\<close>

inductive node_step :: "(machine \<times> bytes) set \<Rightarrow> node \<Rightarrow> dgram list \<Rightarrow> node \<Rightarrow> bool" for inbox n where
  nd_recvfrom: "nd_at n = W_wait \<Longrightarrow> srv_on (nd_server n) \<Longrightarrow> (src, bs) \<in> inbox \<Longrightarrow> bs \<noteq> [] \<Longrightarrow>
     node_step inbox n [] (n\<lparr>nd_at := W_observers (take kMaxSendSize bs) src\<rparr>)"
| nd_receive: "receiving_step now links (nd_at n, nd_recv_calls n, t_recv (nd_threads n)) (nd_server n, nd_urb n) =
       Inr ((w, cs, r), srv, u) \<Longrightarrow> links_of (nd_urb n) links \<Longrightarrow>
     node_step inbox n [] (n\<lparr>nd_at := w, nd_recv_calls := cs, nd_server := srv,
       nd_threads := (nd_threads n)\<lparr>t_recv := r, t_urb := u\<rparr>\<rparr>)"
| nd_turn: "nd_del_calls n = [] \<Longrightarrow> t_del (nd_threads n) = D_idle \<Longrightarrow> on (nd_urb n) \<Longrightarrow>
     distinct ids \<Longrightarrow> set ids = pending_for_delivery (nd_urb n) \<Longrightarrow>
     node_step inbox n [] (n\<lparr>nd_threads := (nd_threads n)\<lparr>t_del := D_next ids\<rparr>\<rparr>)"
| nd_deliver: "link_by_link deliverer_sends (deliverer_step after_pop) links (nd_del_calls n, t_del (nd_threads n)) (nd_urb n) =
       Inr ((cs, d), u) \<Longrightarrow> reads_front after_pop \<Longrightarrow> links_of (nd_urb n) links \<Longrightarrow>
     node_step inbox n [] (n\<lparr>nd_del_calls := cs, nd_threads := (nd_threads n)\<lparr>t_del := d, t_urb := u\<rparr>\<rparr>)"
| nd_call: "nd_send_calls n = [] \<Longrightarrow> t_send (nd_threads n) = S_idle \<Longrightarrow> bc_n_messages_sent (nd_urb n) \<noteq> - 1 \<Longrightarrow>
     sender_begin msg (nd_urb n) = (s, u) \<Longrightarrow>
     node_step inbox n [] (n\<lparr>nd_threads := (nd_threads n)\<lparr>t_send := s, t_urb := u\<rparr>\<rparr>)"
| nd_send: "link_by_link sender_sends sender_step links (nd_send_calls n, t_send (nd_threads n)) (nd_urb n) =
       Inr ((cs, s), u) \<Longrightarrow> links_of (nd_urb n) links \<Longrightarrow>
     node_step inbox n [] (n\<lparr>nd_send_calls := cs, nd_threads := (nd_threads n)\<lparr>t_send := s, t_urb := u\<rparr>\<rparr>)"
| nd_acks_turn: "nd_acks n = A_links [] \<Longrightarrow> on (nd_urb n) \<Longrightarrow> links_of (nd_urb n) links \<Longrightarrow>
     node_step inbox n [] (n\<lparr>nd_acks := A_links links\<rparr>)"
| nd_ack: "acks_step sendto strong now oa od (nd_acks n) (nd_urb n) = Inr (out, a, u) \<Longrightarrow>
     (\<And>j links pl. nd_acks n = A_links (j # links) \<Longrightarrow> perfect_links (nd_urb n) j = Some pl \<Longrightarrow> set oa = acks_to_send pl) \<Longrightarrow>
     node_step inbox n out ((set_urb u n)\<lparr>nd_acks := a\<rparr>)"
| nd_messages_turn: "nd_msgs n = [] \<Longrightarrow> on (nd_urb n) \<Longrightarrow> links_of (nd_urb n) links \<Longrightarrow>
     node_step inbox n [] (n\<lparr>nd_msgs := links\<rparr>)"
| nd_message: "messages_step sendto ord (nd_msgs n) (nd_urb n) = Inr (out, links) \<Longrightarrow>
     node_step inbox n out (n\<lparr>nd_msgs := links\<rparr>)"
| nd_stop: "node_step inbox n [] (set_urb ((nd_urb n)\<lparr>on := False\<rparr>) n)"
| nd_server_stop: "node_step inbox n [] (n\<lparr>nd_server := (nd_server n)\<lparr>srv_on := False\<rparr>\<rparr>)"

section \<open>The process refines its threads\<close>

text \<open>
  Seen from the broadcast classes, a call of \<^verbatim>\<open>PerfectLink::Send\<close> is a change of the links, and the
  broadcast of a message its whole loop of calls followed by such a change.
\<close>

definition only_links :: "'a manager_scheme \<Rightarrow> 'a manager_scheme \<Rightarrow> bool" where
  "only_links m m' \<longleftrightarrow> m' = m\<lparr>perfect_links := perfect_links m'\<rparr>"

lemma only_links_refl [simp]: "only_links m m"
  by (simp add: only_links_def)

lemma only_links_update_link [simp]: "only_links m (update_link j f m)"
  by (simp add: only_links_def update_link_def)

lemma at_link_eq [simp]: "at_link j m f = Inr x \<longleftrightarrow> (\<exists>pl. perfect_links m j = Some pl \<and> f pl = Inr x)"
  by (auto simp: at_link_def split: option.splits)

lemma PL_Send_step_only_links: "PL_Send_step c m = Inr (cs, m') \<Longrightarrow> only_links m m'"
  by (cases c) auto

lemma sends_step:
  "receiver_sends r = Some (msg, r') \<Longrightarrow> receiver_step r u = bind_result (BEB_SendInternal msg u) (\<lambda>u. Inr (r', u))"
  "deliverer_sends d = Some (msg, d') \<Longrightarrow> deliverer_step after_pop d u = bind_result (BEB_SendInternal msg u) (\<lambda>u. Inr (d', u))"
  "sender_sends s = Some (msg, s') \<Longrightarrow> sender_step s u = bind_result (BEB_SendInternal msg u) (\<lambda>u. Inr (s', u))"
  by ((cases r; simp), (cases d; simp), (cases s; simp))

lemma link_by_link_cases:
  assumes "link_by_link sends step links (cs, pc) m = Inr ((cs', pc'), m')"
    and "\<forall>msg q. sends pc = Some (msg, q) \<longrightarrow> step pc m = bind_result (BEB_SendInternal msg m) (\<lambda>m. Inr (q, m))"
  obtains (call) c cs1 cs2 where "cs = c # cs1" "PL_Send_step c m = Inr (cs2, m')" "cs' = cs2 @ cs1" "pc' = pc" "only_links m m'"
  | (broadcast) msg where "cs = []" "sends pc = Some (msg, pc')" "m' = m"
      "cs' = map (\<lambda>j. Take_number j (Broadcast_Serialize msg)) links" "length (bm_payload msg) \<le> 1"
      "step pc m = Inr (pc', send_on_all (Broadcast_Serialize msg) m)"
  | (step) "cs = []" "sends pc = None" "cs' = []" "step pc m = Inr (pc', m')"
proof (cases cs)
  case (Cons c cs1)
  with assms(1) obtain cs2 where "PL_Send_step c m = Inr (cs2, m')" "cs' = cs2 @ cs1" "pc' = pc" by auto
  with Cons call PL_Send_step_only_links show ?thesis by blast
next
  case Nil
  show ?thesis
  proof (cases "sends pc")
    case None
    with Nil assms(1) step show ?thesis by auto
  next
    case (Some a)
    obtain msg q where a: "a = (msg, q)" by (cases a)
    with Some Nil assms(1) have "BEB_calls links msg = Inr cs'" "q = pc'" "m' = m" by auto
    moreover from this have "length (bm_payload msg) \<le> 1" "cs' = map (\<lambda>j. Take_number j (Broadcast_Serialize msg)) links"
      by (auto simp: BEB_calls_def write_buffer_def split: if_splits)
    ultimately show ?thesis
      using broadcast [of msg] Nil Some a assms(2) by (simp add: BEB_SendInternal_eq)
  qed
qed

text \<open>The message that the next statement of the receiving thread hands to the manager.\<close>

fun handed_up :: "server_at \<Rightarrow> 'a manager_scheme \<Rightarrow> bcast_message option" where
  "handed_up (W_notify j (N_managers message (manager # ms)) obs bs) m =
     (case perfect_links m j of None \<Rightarrow> None | Some pl \<Rightarrow> Broadcast_Parse (pl_target_id pl) (pm_payload message))"
| "handed_up _ m = None"

lemma Notify_step_handed:
  assumes "Notify_step now j p m = Inr (p', up, m')"
  shows "only_links m m' \<and> up = handed_up (W_notify j p obs bs) m \<and> (up \<noteq> None \<longrightarrow> m' = m)"
  using assms
proof (cases "(now, j, p, m)" rule: Notify_step.cases)
  case (4 now' j' message manager ms m1)
  with assms show ?thesis by (auto split: option.splits)
qed auto

lemma server_step_handed:
  assumes "server_step now w (srv, m) = Inr (w', up, srv', m')"
  shows "only_links m m' \<and> up = handed_up w m \<and> (up \<noteq> None \<longrightarrow> m' = m)"
proof (cases w)
  case (W_notify j p obs bs)
  with assms obtain p' where "Notify_step now j p m = Inr (p', up, m')" by (auto split: prod.splits)
  with Notify_step_handed W_notify show ?thesis by blast
next
  case (W_loop obs bs)
  with assms show ?thesis by (cases obs) auto
qed (use assms in \<open>auto simp: Let_def\<close>)

lemma receiving_cases:
  assumes "receiving_step now links (w, cs, r) (srv, u) = Inr ((w', cs', r'), srv', u')"
  obtains (inside) "(cs, r) \<noteq> ([], R_idle)" "w' = w" "srv' = srv"
      "link_by_link receiver_sends receiver_step links (cs, r) u = Inr ((cs', r'), u')"
  | (server) "cs = []" "r = R_idle" "cs' = []" "handed_up w u = None" "r' = R_idle" "only_links u u'"
      "server_step now w (srv, u) = Inr (w', None, srv', u')"
  | (up) msg where "cs = []" "r = R_idle" "cs' = []" "handed_up w u = Some msg" "r' = R_notify msg" "u' = u"
      "server_step now w (srv, u) = Inr (w', Some msg, srv', u)"
proof (cases "(cs, r) = ([], R_idle)")
  case False
  with assms inside show ?thesis by (auto simp: receiving_step_def)
next
  case True
  with assms obtain up where st: "server_step now w (srv, u) = Inr (w', up, srv', u')" "cs' = []"
    "r' = (case up of None \<Rightarrow> R_idle | Some msg \<Rightarrow> R_notify msg)"
    by (auto simp: receiving_step_def)
  with True server_step_handed [OF st(1)] server up show ?thesis by (cases up) auto
qed

lemma threads_links: "only_links (t_urb t) u \<Longrightarrow> threads_next t (t\<lparr>t_urb := u\<rparr>)"
  using t_links [of Inr t "perfect_links u"] reads_front_Inr unfolding threads_next_def only_links_def by metis

lemma link_by_link_threads:
  assumes run: "link_by_link sends step links (cs, pc) (t_urb t) = Inr ((cs', pc'), u')"
    and sends: "\<forall>msg q. sends pc = Some (msg, q) \<longrightarrow>
      step pc (t_urb t) = bind_result (BEB_SendInternal msg (t_urb t)) (\<lambda>m. Inr (q, m))"
    and set_pc: "\<And>q u. step pc (t_urb t) = Inr (q, u) \<Longrightarrow> threads_next t ((put q t)\<lparr>t_urb := u\<rparr>)"
    and same: "put pc t = t" "\<And>q u. t_urb ((put q t)\<lparr>t_urb := u\<rparr>) = u"
  shows "threads_next\<^sup>*\<^sup>* t ((put pc' t)\<lparr>t_urb := u'\<rparr>)"
  using run sends
proof (cases rule: link_by_link_cases)
  case call
  then show ?thesis using threads_links [of t u'] same(1) by auto
next
  case (broadcast msg)
  let ?t = "(put pc' t)\<lparr>t_urb := send_on_all (Broadcast_Serialize msg) (t_urb t)\<rparr>"
  have "only_links (t_urb ?t) u'"
    using broadcast(3) by (simp add: only_links_def send_on_all_def)
  then have "threads_next ?t (?t\<lparr>t_urb := u'\<rparr>)" by (rule threads_links)
  with set_pc [OF broadcast(6)] show ?thesis by (auto intro: rtranclp.rtrancl_into_rtrancl)
next
  case step
  with set_pc show ?thesis by auto
qed

text \<open>
  Every step of a process is a run of its threads, provided that the message handed up is honest.
\<close>

lemma node_step_threads:
  assumes step: "node_step inbox n out n'"
    and honest: "\<And>msg. handed_up (nd_at n) (nd_urb n) = Some msg \<Longrightarrow> t_honest (nd_threads n) msg"
  shows "threads_next\<^sup>*\<^sup>* (nd_threads n) (nd_threads n')"
proof -
  let ?t = "nd_threads n"
  have one: "threads_next\<^sup>*\<^sup>* ?t t'" if "reads_front after_pop" "threads_step after_pop ?t t'" for after_pop t'
    using that unfolding threads_next_def by blast
  note inr = one [OF reads_front_Inr]
  from step show ?thesis
  proof cases
    case (nd_receive now links w cs r srv u)
    from nd_receive(3) show ?thesis
    proof (cases rule: receiving_cases)
      case inside
      have "threads_next\<^sup>*\<^sup>* ?t ((?t\<lparr>t_recv := r\<rparr>)\<lparr>t_urb := u\<rparr>)"
        by (rule link_by_link_threads [where put = "\<lambda>q t. t\<lparr>t_recv := q\<rparr>", OF inside(4)])
          (use sends_step(1) t_receive [of ?t _ _ Inr] reads_front_Inr in \<open>auto simp: threads_next_def\<close>)
      with nd_receive show ?thesis by simp
    next
      case server
      have "?t\<lparr>t_recv := r, t_urb := u\<rparr> = ?t\<lparr>t_urb := u\<rparr>" using server(2,5) by (cases ?t) simp
      with server(6) threads_links [of ?t u] nd_receive show ?thesis by auto
    next
      case (up msg)
      have "threads_next\<^sup>*\<^sup>* ?t (?t\<lparr>t_recv := R_notify msg\<rparr>)"
        by (rule inr [OF t_arrive [OF up(2) honest [OF up(4)]]])
      with up nd_receive show ?thesis by simp
    qed
  next
    case (nd_turn ids)
    with inr [OF t_turn] show ?thesis by simp
  next
    case (nd_deliver after_pop links cs d u)
    have "threads_next\<^sup>*\<^sup>* ?t ((?t\<lparr>t_del := d\<rparr>)\<lparr>t_urb := u\<rparr>)"
      by (rule link_by_link_threads [where put = "\<lambda>q t. t\<lparr>t_del := q\<rparr>", OF nd_deliver(3)])
        (use sends_step(2) t_deliver [of after_pop ?t] nd_deliver(4) in \<open>auto simp: threads_next_def\<close>)
    with nd_deliver show ?thesis by simp
  next
    case (nd_call msg s u)
    with inr [OF t_call] show ?thesis by simp
  next
    case (nd_send links cs s u)
    have "threads_next\<^sup>*\<^sup>* ?t ((?t\<lparr>t_send := s\<rparr>)\<lparr>t_urb := u\<rparr>)"
      by (rule link_by_link_threads [where put = "\<lambda>q t. t\<lparr>t_send := q\<rparr>", OF nd_send(3)])
        (use sends_step(3) t_sender [of ?t _ _ Inr] reads_front_Inr in \<open>auto simp: threads_next_def\<close>)
    with nd_send show ?thesis by simp
  next
    case (nd_ack sendto strong now oa od a u)
    have "only_links (nd_urb n) u"
      using nd_ack(2) by (cases "(sendto, strong, now, oa, od, nd_acks n, nd_urb n)" rule: acks_step.cases)
        (auto simp: Let_def split: if_splits)
    with threads_links [of ?t u] nd_ack show ?thesis by auto
  next
    case nd_stop
    have "threads_next ?t (?t\<lparr>t_urb := (t_urb ?t)\<lparr>on := False\<rparr>\<rparr>)"
      using t_switch [of Inr ?t "deliver_thread (t_urb ?t)" "send_thread (t_urb ?t)" "ack_thread (t_urb ?t)" False]
        reads_front_Inr by (auto simp: threads_next_def)
    with nd_stop show ?thesis by auto
  qed simp_all
qed

end
