(* ===== verification/Thread_System.thy ===== *)
theory Thread_System
  imports Process_Threads Link_Exchange
begin

text \<open>
  The system of processes with all threads statement by statement: the network of the whole-step
  system, between processes whose threads interleave in every possible way.
\<close>

section \<open>The system\<close>

record tsys =
  nodes :: "u32 \<Rightarrow> node"
  tnet :: "(machine \<times> machine \<times> bytes) set"

abbreviation thr :: "tsys \<Rightarrow> u32 \<Rightarrow> threads" where
  "thr s q \<equiv> nd_threads (nodes s q)"

abbreviation urb_at :: "tsys \<Rightarrow> u32 \<Rightarrow> ufifo" where
  "urb_at s q \<equiv> nd_urb (nodes s q)"

text \<open>All threads of a process that the driver has set up are at the start of their loops.\<close>

definition start_node :: "ufifo app \<Rightarrow> node" where
  "start_node a = \<lparr>nd_threads = \<lparr>t_urb = app_manager a, t_recv = R_idle, t_del = D_idle, t_send = S_idle\<rparr>,
     nd_server = app_server a, nd_client = app_client a, nd_at = W_wait, nd_recv_calls = [], nd_del_calls = [], nd_send_calls = [],
     nd_acks = A_links [], nd_msgs = []\<rparr>"

definition tsys_init :: "host list \<Rightarrow> tsys \<Rightarrow> bool" where
  "tsys_init hs s \<longleftrightarrow> hosts_ok hs \<and> tnet s = {} \<and> (\<forall>q \<in> ids_of hs. \<exists>a os p n. nodes s q = start_node a \<and>
     parsed p \<and> p_hosts p = hs \<and> p_id p = q \<and> os_can_open os (p_output_path p) \<and> FIFO_setup os p = Inr (n, a))"

definition set_node :: "u32 \<Rightarrow> node \<Rightarrow> tsys \<Rightarrow> tsys" where
  "set_node q n s = s\<lparr>nodes := (nodes s)(q := n)\<rparr>"

definition temit :: "machine \<Rightarrow> dgram list \<Rightarrow> tsys \<Rightarrow> tsys" where
  "temit src out s = s\<lparr>tnet := tnet s \<union> {(src, dst, bs) |bs dst. (bs, dst) \<in> set out}\<rparr>"

inductive tsys_step :: "host list \<Rightarrow> tsys \<Rightarrow> tsys \<Rightarrow> bool" for hs s where
  tsys_node: "h \<in> set hs \<Longrightarrow> node_step {(src, bs). (src, host_addr h, bs) \<in> tnet s} (nodes s (h_id h)) out n \<Longrightarrow>
     tsys_step hs s (temit (host_addr h) out (set_node (h_id h) n s))"

section \<open>The invariant of a process\<close>

text \<open>The message identifiers that the payload of a packet carries.\<close>

definition in_packet :: "bytes \<Rightarrow> msg_id \<Rightarrow> bool" where
  "in_packet bs i \<longleftrightarrow> (\<exists>m. PL_Parse bs = Some (Msg m) \<and> carries (pm_payload m) i)"

definition tknowers :: "host list \<Rightarrow> tsys \<Rightarrow> msg_id \<Rightarrow> u32 set" where
  "tknowers hs s i = {j \<in> ids_of hs. i \<in> t_known (thr s j)}"

fun call_bytes :: "pl_call \<Rightarrow> bytes" where
  "call_bytes (Take_number j bs) = bs"
| "call_bytes (Insert_message j i bs) = bs"

fun call_link :: "pl_call \<Rightarrow> u32" where
  "call_link (Take_number j bs) = j"
| "call_link (Insert_message j i bs) = j"

definition calls :: "node \<Rightarrow> pl_call set" where
  "calls n = set (nd_recv_calls n) \<union> set (nd_del_calls n) \<union> set (nd_send_calls n)"

text \<open>The messages that a thread is about to broadcast.\<close>

definition broadcasting :: "threads \<Rightarrow> bcast_message set" where
  "broadcasting t = {m. (\<exists>q. receiver_sends (t_recv t) = Some (m, q)) \<or> (\<exists>q. deliverer_sends (t_del t) = Some (m, q)) \<or>
     (\<exists>q. sender_sends (t_send t) = Some (m, q))}"

definition outgoing :: "node \<Rightarrow> msg_id set" where
  "outgoing n = {i. (\<exists>p \<in> queued (nd_urb n) \<union> call_bytes ` calls n. carries p i)} \<union> bm_id ` broadcasting (nd_threads n)"

fun notify_message :: "notify_at \<Rightarrow> pl_message option" where
  "notify_message (N_ack m) = Some m"
| "notify_message (N_look m) = Some m"
| "notify_message (N_managers m ms) = Some m"
| "notify_message (N_stamp m) = Some m"
| "notify_message (N_unqueue a) = None"

text \<open>What has arrived from \<open>j\<close> is known to \<open>j\<close>.\<close>

definition from_ok :: "host list \<Rightarrow> tsys \<Rightarrow> u32 \<Rightarrow> bytes \<Rightarrow> bool" where
  "from_ok hs s j bs \<longleftrightarrow> (\<forall>i. in_packet bs i \<longrightarrow> j \<in> tknowers hs s i)"

fun at_ok :: "host list \<Rightarrow> tsys \<Rightarrow> u32 \<Rightarrow> server_at \<Rightarrow> bool" where
  "at_ok hs s q W_wait \<longleftrightarrow> True"
| "at_ok hs s q (W_observers bs addr) \<longleftrightarrow> (\<exists>h \<in> set hs. addr = host_addr h \<and> from_ok hs s (h_id h) bs)"
| "at_ok hs s q (W_loop obs bs) \<longleftrightarrow> (\<forall>j \<in> set obs. j \<noteq> q \<and> from_ok hs s j bs)"
| "at_ok hs s q (W_notify j p obs bs) \<longleftrightarrow> (\<forall>j \<in> insert j (set obs). j \<noteq> q \<and> from_ok hs s j bs) \<and>
     (\<forall>m. notify_message p = Some m \<longrightarrow> PL_Parse bs = Some (Msg m))"

definition app_of :: "node \<Rightarrow> ufifo app" where
  "app_of n = \<lparr>app_server = nd_server n, app_client = nd_client n, app_manager = nd_urb n\<rparr>"

abbreviation marked :: "threads \<Rightarrow> msg_id set" where
  "marked t \<equiv> set_abs (delivered (t_urb t))"

definition node_ok :: "host list \<Rightarrow> tsys \<Rightarrow> u32 \<Rightarrow> node \<Rightarrow> bool" where
  "node_ok hs s q n \<longleftrightarrow> wired hs q (app_of n) \<and> threads_inv (nd_threads n) \<and> outgoing n \<subseteq> t_known (nd_threads n) \<and>
     (\<forall>i \<in> t_known (nd_threads n). id_author i \<in> tknowers hs s i) \<and>
     (\<forall>i. acks_of (nd_urb n) i \<subseteq> tknowers hs s i - {q}) \<and>
     (\<forall>m \<in> hearing (t_recv (nd_threads n)). bm_sender m \<in> tknowers hs s (bm_id m) - {q}) \<and>
     (\<forall>i \<in> marked (nd_threads n). length hs div 2 < card (tknowers hs s i)) \<and> at_ok hs s q (nd_at n)"

definition tnet_ok :: "host list \<Rightarrow> tsys \<Rightarrow> bool" where
  "tnet_ok hs s \<longleftrightarrow> (\<forall>src dst bs. (src, dst, bs) \<in> tnet s \<longrightarrow>
     (\<exists>h \<in> set hs. src = host_addr h \<and> from_ok hs s (h_id h) (take 14 bs)))"

definition tsys_inv :: "host list \<Rightarrow> tsys \<Rightarrow> bool" where
  "tsys_inv hs s \<longleftrightarrow> (\<forall>q \<in> ids_of hs. node_ok hs s q (nodes s q)) \<and> tnet_ok hs s"

section \<open>What is known only grows\<close>

lemma set_node_simps [simp]:
  "nodes (set_node q n s) j = (if j = q then n else nodes s j)" "tnet (set_node q n s) = tnet s"
  "nodes (temit a out s) = nodes s"
  by (simp_all add: set_node_def temit_def)

lemma tknowers_mono:
  assumes "\<And>j. t_known (thr s j) \<subseteq> t_known (thr s' j)"
  shows "tknowers hs s i \<subseteq> tknowers hs s' i" "card (tknowers hs s i) \<le> card (tknowers hs s' i)"
  using assms by (auto simp: tknowers_def intro!: card_mono)

lemma from_ok_mono:
  assumes "from_ok hs s j bs" and "\<And>j. t_known (thr s j) \<subseteq> t_known (thr s' j)"
  shows "from_ok hs s' j bs"
  using assms(1) tknowers_mono(1) [OF assms(2)] unfolding from_ok_def by blast

lemma at_ok_mono:
  assumes "at_ok hs s q w" and "\<And>j. t_known (thr s j) \<subseteq> t_known (thr s' j)"
  shows "at_ok hs s' q w"
  using assms(1) from_ok_mono [OF _ assms(2)] by (cases w) auto

lemma node_ok_mono:
  assumes "node_ok hs s q n" and "\<And>j. t_known (thr s j) \<subseteq> t_known (thr s' j)"
  shows "node_ok hs s' q n"
proof -
  note mono = tknowers_mono [OF assms(2)]
  have "\<forall>i \<in> marked (nd_threads n). length hs div 2 < card (tknowers hs s' i)"
    using assms(1) less_le_trans [OF _ mono(2)] unfolding node_ok_def by blast
  with assms(1) mono(1) at_ok_mono [OF _ assms(2)] show ?thesis unfolding node_ok_def by blast
qed

lemma tnet_ok_mono:
  assumes "tnet_ok hs s" and "\<And>j. t_known (thr s j) \<subseteq> t_known (thr s' j)" and "tnet s' = tnet s"
  shows "tnet_ok hs s'"
  using assms(1) from_ok_mono [OF _ assms(2)] unfolding tnet_ok_def assms(3) by meson

text \<open>A process changes: what has to be shown of its new state refers to what was known before.\<close>

lemma tsys_inv_update:
  assumes inv: "tsys_inv hs s" and q: "q \<in> ids_of hs"
    and wires: "wires (nd_urb n) = wires (urb_at s q)" "\<And>a. observers_at (nd_server n) a = observers_at (nd_server (nodes s q)) a"
    and thr: "threads_inv (nd_threads n)" and known: "t_known (thr s q) \<subseteq> t_known (nd_threads n)"
    and new: "\<forall>i \<in> t_known (nd_threads n) - t_known (thr s q). id_author i = q \<or> id_author i \<in> tknowers hs s i"
    and out: "outgoing n \<subseteq> t_known (nd_threads n)"
    and acks: "\<forall>i. acks_of (nd_urb n) i \<subseteq> acks_of (urb_at s q) i \<union> (tknowers hs s i - {q})"
    and heard: "\<forall>m \<in> hearing (t_recv (nd_threads n)). m \<in> hearing (t_recv (thr s q)) \<or>
       bm_sender m \<in> tknowers hs s (bm_id m) - {q}"
    and marks: "\<forall>i \<in> marked (nd_threads n). i \<in> marked (thr s q) \<or> length hs div 2 < card (tknowers hs s i)"
    and at: "at_ok hs s q (nd_at n)"
  shows "tsys_inv hs (set_node q n s)"
proof -
  let ?s' = "set_node q n s"
  have ok: "node_ok hs s q (nodes s q)" using inv q by (auto simp: tsys_inv_def)
  have grow: "t_known (thr s j) \<subseteq> t_known (thr ?s' j)" for j using known by simp
  note mono = tknowers_mono [OF grow]
  have "wired hs q (app_of n)"
    by (rule wired_wires [of _ _ "app_of (nodes s q)"]) (use ok wires in \<open>simp_all add: node_ok_def app_of_def\<close>)
  moreover have "id_author i \<in> tknowers hs ?s' i" if i: "i \<in> t_known (nd_threads n)" for i
  proof (cases "i \<in> t_known (thr s q) \<or> id_author i \<noteq> q")
    case True
    with i new ok have "id_author i \<in> tknowers hs s i" unfolding node_ok_def by blast
    with mono(1) show ?thesis by blast
  next
    case False
    with i q show ?thesis by (auto simp: tknowers_def)
  qed
  moreover have "acks_of (nd_urb n) i \<subseteq> tknowers hs ?s' i - {q}" for i
    using acks ok mono(1) [of hs i] unfolding node_ok_def by blast
  moreover have "bm_sender m \<in> tknowers hs ?s' (bm_id m) - {q}" if "m \<in> hearing (t_recv (nd_threads n))" for m
    using heard ok mono(1) that unfolding node_ok_def by blast
  moreover have "length hs div 2 < card (tknowers hs ?s' i)" if "i \<in> marked (nd_threads n)" for i
    using marks ok that less_le_trans [OF _ mono(2)] unfolding node_ok_def by blast
  ultimately have mine: "node_ok hs ?s' q n"
    using thr out at_ok_mono [OF at grow] unfolding node_ok_def by blast
  have "node_ok hs ?s' j (nodes ?s' j)" if "j \<in> ids_of hs" for j
  proof (cases "j = q")
    case False
    then have "node_ok hs s j (nodes ?s' j)" using inv that by (auto simp: tsys_inv_def)
    then show ?thesis by (rule node_ok_mono [OF _ grow])
  qed (use mine in simp)
  moreover have "tnet_ok hs ?s'" by (rule tnet_ok_mono [OF _ grow]) (use inv in \<open>simp_all add: tsys_inv_def\<close>)
  ultimately show ?thesis by (simp add: tsys_inv_def)
qed

section \<open>What a step of a thread does\<close>

lemma receiver_acks_from:
  assumes "receiver_step r u = Inr (r', u')" and "\<not> deliver_to_upper_layer u"
  shows "acks_of u' i \<subseteq> acks_of u i \<union> {bm_sender m |m. m \<in> hearing r \<and> bm_id m = i}"
  by (rule step_rule [OF assms(1)]) (use assms(2) in \<open>cases r; auto simp: step_simps acks_of_def\<close>)

lemma receiver_links:
  assumes "receiver_step r u = Inr (r', u')" and "receiver_sends r = None"
  shows "perfect_links u' = perfect_links u"
  by (rule step_rule [OF assms(1)]) (use assms(2) in \<open>cases r;
    simp add: BEB_NotifyInternal_def BEB_DeliverInternal_def UFIFO_DeliverInternal_same [unfolded same_urb_def]\<close>)

lemma receiver_next_sends:
  assumes "receiver_step r u = Inr (r', u')" and "receiver_sends r' = Some (m, q)"
  shows "bm_id m \<in> pending_for_delivery u'"
proof -
  from assms(2) have "r' = R_relay m" by (cases r') simp_all
  with assms(1) show ?thesis by (cases r) (auto split: if_splits)
qed

lemma deliverer_acks_less:
  assumes "deliverer_step after_pop d u = Inr (d', u')"
  shows "acks_of u' i \<subseteq> acks_of u i"
  by (rule step_rule [OF assms], cases "(after_pop, d, u)" rule: deliverer_step.cases)
    (auto simp: step_simps acks_of_def Let_def split: list.splits sum.split option.splits)

lemma deliverer_links:
  assumes "deliverer_step after_pop d u = Inr (d', u')" and "deliverer_sends d = None"
  shows "perfect_links u' = perfect_links u \<and> n_processes u' = n_processes u"
  by (rule step_rule [OF assms(1)], use assms(2) in \<open>cases "(after_pop, d, u)" rule: deliverer_step.cases\<close>)
    (auto simp: UFIFO_DeliverInternal_same [unfolded same_urb_def] Let_def split: list.splits sum.split)

lemma deliverer_next_sends:
  assumes "deliverer_step after_pop d u = Inr (d', u')" and "deliverer_sends d' = Some (m, q)"
  shows "bm_id m \<in> pending_for_delivery u'"
proof -
  from assms(2) obtain i ids where "d' = D_send i m ids" by (cases d') simp_all
  with assms(1) show ?thesis
    by (cases "(after_pop, d, u)" rule: deliverer_step.cases) (auto simp: Let_def split: if_splits list.splits)
qed

lemma sender_links:
  assumes "sender_step s u = Inr (s', u')" and "sender_sends s = None"
  shows "perfect_links u' = perfect_links u"
  by (rule step_rule [OF assms(1)], use assms(2) in \<open>cases s\<close>) (simp_all add: step_simps)

lemma sender_next_sends:
  assumes "sender_step s u = Inr (s', u')" and "sender_sends s' = Some (m, q)"
  shows "bm_id m \<in> pending_for_delivery u'"
proof -
  from assms(2) have "s' = S_send m" by (cases s') simp_all
  with assms(1) show ?thesis by (cases s) (auto split: if_splits)
qed

text \<open>
  New known messages are own ones or have just been heard, new acknowledgements come from those who
  were heard, and new deliveries were decided.
\<close>

lemma deliverer_known:
  assumes ok: "t_delivery_ok t" and step: "deliverer_step after_pop (t_del t) (t_urb t) = Inr (d, u)"
  shows "t_known t \<subseteq> t_known (t\<lparr>t_del := d, t_urb := u\<rparr>)"
    "t_known (t\<lparr>t_del := d, t_urb := u\<rparr>) \<subseteq> t_known t \<union> del_hand (t_del t)"
proof -
  have "t_known t \<subseteq> t_known (t\<lparr>t_del := d, t_urb := u\<rparr>) \<and>
      t_known (t\<lparr>t_del := d, t_urb := u\<rparr>) \<subseteq> t_known t \<union> del_hand (t_del t)"
    by (rule step_rule [OF step], use ok in \<open>cases "(after_pop, t_del t, t_urb t)" rule: deliverer_step.cases\<close>)
      (auto simp: t_delivery_ok_def t_known_def known_def good_id_Insert step_simps Let_def split: list.splits sum.split)
  then show "t_known t \<subseteq> t_known (t\<lparr>t_del := d, t_urb := u\<rparr>)"
    "t_known (t\<lparr>t_del := d, t_urb := u\<rparr>) \<subseteq> t_known t \<union> del_hand (t_del t)" by blast+
qed

lemma threads_step_effect:
  assumes inv: "threads_inv t" and step: "threads_step after_pop t t'"
  shows "t_known t \<subseteq> t_known t'"
    "t_known t' \<subseteq> t_known t \<union> {i. id_author i = bc_id (t_urb t)} \<union> bm_id ` hearing (t_recv t)"
    "acks_of (t_urb t') i \<subseteq> acks_of (t_urb t) i \<union> {bm_sender m |m. m \<in> hearing (t_recv t) \<and> bm_id m = i}"
proof -
  have ok: "t_delivery_ok t" "t_own_ok t" and quiet: "\<not> deliver_to_upper_layer (t_urb t)"
    using inv by (simp_all add: threads_inv_def t_delivery_ok_def)
  have "t_known t \<subseteq> t_known t' \<and>
      t_known t' \<subseteq> t_known t \<union> {i. id_author i = bc_id (t_urb t)} \<union> bm_id ` hearing (t_recv t) \<and>
      acks_of (t_urb t') i \<subseteq> acks_of (t_urb t) i \<union> {bm_sender m |m. m \<in> hearing (t_recv t) \<and> bm_id m = i}"
    using step
  proof cases
    case (t_receive r u)
    with receiver_pending [OF t_receive(2) quiet] receiver_frame [OF t_receive(2) quiet]
      receiver_acks_from [OF t_receive(2) quiet, of i]
    show ?thesis by (auto simp: t_known_def known_def)
  next
    case (t_deliver d u)
    have "del_hand (t_del t) \<subseteq> {i. id_author i = bc_id (t_urb t)}" using hands_apart(1) [OF ok(2)] by blast
    with deliverer_known [OF ok(1) t_deliver(2)] deliverer_acks_less [OF t_deliver(2), of i] t_deliver(1)
    show ?thesis by auto
  next
    case (t_sender s u)
    have "send_hand (bc_id (t_urb t)) (t_send t) \<subseteq> {i. id_author i = bc_id (t_urb t)}"
      using hands_apart(2) [OF ok(2)] by blast
    with sender_pending [OF t_sender(2)] sender_frame [OF t_sender(2)] t_sender(1)
    show ?thesis by (auto simp: t_known_def known_def acks_of_def)
  qed (auto simp: t_known_def known_def acks_of_def sender_begin_def)
  then show "t_known t \<subseteq> t_known t'"
    "t_known t' \<subseteq> t_known t \<union> {i. id_author i = bc_id (t_urb t)} \<union> bm_id ` hearing (t_recv t)"
    "acks_of (t_urb t') i \<subseteq> acks_of (t_urb t) i \<union> {bm_sender m |m. m \<in> hearing (t_recv t) \<and> bm_id m = i}"
    by blast+
qed

lemma threads_known_steps:
  assumes "threads_next\<^sup>*\<^sup>* t t'" and "threads_inv t"
  shows "t_known t \<subseteq> t_known t'"
proof -
  from assms have "threads_inv t' \<and> t_known t \<subseteq> t_known t'"
  proof (induction rule: rtranclp_induct)
    case (step t1 t2)
    then obtain after_pop where "threads_step after_pop t1 t2" by (auto simp: threads_next_def)
    with threads_step_effect(1) [of t1] step thread_runs.inv_step show ?case by blast
  qed simp
  then show ?thesis ..
qed

text \<open>A decided message is known to a majority.\<close>

lemma node_ok_facts:
  assumes "tsys_inv hs s" and "q \<in> ids_of hs"
  shows "node_ok hs s q (nodes s q)" "threads_inv (thr s q)" "bc_id (urb_at s q) = q" "wired hs q (app_of (nodes s q))"
    "outgoing (nodes s q) \<subseteq> t_known (thr s q)" "\<And>i. i \<in> t_known (thr s q) \<Longrightarrow> id_author i \<in> tknowers hs s i"
    "\<And>i. acks_of (urb_at s q) i \<subseteq> tknowers hs s i - {q}"
    "\<And>m. m \<in> hearing (t_recv (thr s q)) \<Longrightarrow> bm_sender m \<in> tknowers hs s (bm_id m) - {q}"
    "at_ok hs s q (nd_at (nodes s q))"
proof -
  show ok: "node_ok hs s q (nodes s q)" using assms by (auto simp: tsys_inv_def)
  then show "threads_inv (thr s q)" "bc_id (urb_at s q) = q" "wired hs q (app_of (nodes s q))"
    "outgoing (nodes s q) \<subseteq> t_known (thr s q)" "\<And>i. i \<in> t_known (thr s q) \<Longrightarrow> id_author i \<in> tknowers hs s i"
    "\<And>i. acks_of (urb_at s q) i \<subseteq> tknowers hs s i - {q}" "at_ok hs s q (nd_at (nodes s q))"
    by (auto simp: node_ok_def wired_def app_of_def)
  show "\<And>m. m \<in> hearing (t_recv (thr s q)) \<Longrightarrow> bm_sender m \<in> tknowers hs s (bm_id m) - {q}"
    using ok unfolding node_ok_def by blast
qed

lemma decided_majority:
  assumes inv: "tsys_inv hs s" and q: "q \<in> ids_of hs" and hs: "hosts_ok hs" and i: "i \<in> decided (t_del (thr s q))"
  shows "length hs div 2 < card (tknowers hs s i)"
proof -
  note f = node_ok_facts [OF inv q]
  have "i \<in> counted (t_del (thr s q))" using i by (cases "t_del (thr s q)") simp_all
  then have maj: "majority_seen (urb_at s q) i" using f(2) by (simp add: threads_inv_def t_majority_ok_def)
  have "i \<in> in_turn (t_del (thr s q))" using i by (cases "t_del (thr s q)") simp_all
  then have "i \<in> t_known (thr s q)" using f(2) by (auto simp: threads_inv_def t_delivery_ok_def)
  then have "q \<in> tknowers hs s i" using q by (simp add: tknowers_def)
  with f(7) have sub: "insert q (acks_of (urb_at s q) i) \<subseteq> tknowers hs s i" "q \<notin> acks_of (urb_at s q) i" by auto
  have "finite (tknowers hs s i)" by (simp add: tknowers_def)
  from card_mono [OF this sub(1)] sub(2)
  have "card (acks_of (urb_at s q) i) + 1 \<le> card (tknowers hs s i)" by simp
  moreover have "unat (n_processes (urb_at s q)) = length hs"
    using f(4) hs by (simp add: wired_def app_of_def hosts_ok_def unat_of_nat)
  ultimately show ?thesis using maj by linarith
qed

section \<open>Every step keeps the invariant\<close>

lemma carries_of: "Broadcast_Parse k p = Some bm \<Longrightarrow> carries p (bm_id bm)"
  by (auto simp: carries_def)

lemma handed_up_ok:
  assumes inv: "tsys_inv hs s" and q: "q \<in> ids_of hs" and up: "handed_up (nd_at (nodes s q)) (urb_at s q) = Some msg"
  shows "t_honest (thr s q) msg" "bm_sender msg \<in> tknowers hs s (bm_id msg) - {q}"
proof -
  note f = node_ok_facts [OF inv q]
  from up obtain j m mg ms obs bs pl where at: "nd_at (nodes s q) = W_notify j (N_managers m (mg # ms)) obs bs"
    and pl: "perfect_links (urb_at s q) j = Some pl" and msg: "Broadcast_Parse (pl_target_id pl) (pm_payload m) = Some msg"
    by (cases "(nd_at (nodes s q), urb_at s q)" rule: handed_up.cases) (auto split: option.splits)
  have j: "j \<noteq> q" "from_ok hs s j bs" "PL_Parse bs = Some (Msg m)" using f(9) by (simp_all add: at)
  have "pl_target_id pl = j" using f(4) pl by (simp add: wired_def app_of_def)
  then have snd: "bm_sender msg = j" using Broadcast_Serialize_Parse(2) [OF msg] by simp
  have "in_packet bs (bm_id msg)" using j(3) carries_of [OF msg] by (auto simp: in_packet_def)
  with j(2) have know: "j \<in> tknowers hs s (bm_id msg)" by (simp add: from_ok_def)
  with snd j(1) show "bm_sender msg \<in> tknowers hs s (bm_id msg) - {q}" by simp
  from know have jd: "j \<in> ids_of hs" "bm_id msg \<in> t_known (thr s j)" by (simp_all add: tknowers_def)
  note fj = node_ok_facts [OF inv jd(1)]
  have "good_id (bm_id msg)" using fj(2) jd(2) by (auto simp: threads_inv_def t_delivery_ok_def)
  moreover have "bm_id msg \<in> t_known (thr s q)" if "id_author (bm_id msg) = q"
    using fj(6) [OF jd(2)] that by (simp add: tknowers_def)
  ultimately show "t_honest (thr s q) msg" using f(3) by (simp add: t_honest_def)
qed

lemma Notify_begin_message: "Notify_begin bs = Some p \<Longrightarrow> notify_message p = Some m \<Longrightarrow> PL_Parse bs = Some (Msg m)"
  by (auto simp: Notify_begin_def split: option.splits packet.splits)

lemma Notify_step_message:
  assumes "Notify_step now j p m = Inr (Some p', up, m')"
  shows "notify_message p' = notify_message p"
  using assms by (cases "(now, j, p, m)" rule: Notify_step.cases) auto

lemma server_step_at_ok:
  assumes wired: "wired hs q \<lparr>app_server = srv, app_client = cl, app_manager = m0\<rparr>" and ok: "at_ok hs s q w"
    and step: "server_step now w (srv, m) = Inr (w', up, srv', m')"
  shows "at_ok hs s q w' \<and> (\<forall>a. observers_at srv' a = observers_at srv a)"
proof (cases "(now, w, srv, m)" rule: server_step.cases)
  case (2 now' bs addr srv1 m1)
  then obtain h where h: "h \<in> set hs" "addr = host_addr h" "from_ok hs s (h_id h) bs" using ok by auto
  then have "observers_at srv addr = (if h_id h = q then [] else [h_id h])" using wired by (simp add: wired_def)
  with 2 h step show ?thesis by (auto simp: Let_def observers_at_def)
next
  case (4 now' j obs bs srv1 m1)
  with step ok show ?thesis by (auto simp: Notify_begin_message split: option.splits)
next
  case (5 now' j p obs bs srv1 m1)
  with step obtain p' where "Notify_step now j p m = Inr (p', up, m')"
    "w' = (case p' of None \<Rightarrow> W_loop obs bs | Some p' \<Rightarrow> W_notify j p' obs bs)" "srv' = srv"
    by (auto split: prod.splits)
  with 5 ok Notify_step_message [of now j p m _ up m'] show ?thesis by (auto split: option.splits)
qed (use step ok in auto)

text \<open>A step inside the broadcast classes that leaves the links and the calls alone.\<close>

lemma tsys_inv_thread:
  assumes inv: "tsys_inv hs s" and q: "q \<in> ids_of hs" and hs: "hosts_ok hs"
    and step: "threads_step after_pop (thr s q) t'" "reads_front after_pop"
    and links: "perfect_links (t_urb t') = perfect_links (urb_at s q)" "n_processes (t_urb t') = n_processes (urb_at s q)"
      "bc_id (t_urb t') = bc_id (urb_at s q)"
    and heard: "\<And>m. m \<in> hearing (t_recv t') \<Longrightarrow> m \<in> hearing (t_recv (thr s q)) \<or>
       bm_sender m \<in> tknowers hs s (bm_id m) - {q}"
    and sends: "\<And>m. m \<in> broadcasting t' \<Longrightarrow> m \<in> broadcasting (thr s q) \<or> bm_id m \<in> pending_for_delivery (t_urb t')"
    and n: "nd_threads n = t'" "calls n = calls (nodes s q)" "at_ok hs s q (nd_at n)"
      "\<And>a. observers_at (nd_server n) a = observers_at (nd_server (nodes s q)) a"
  shows "tsys_inv hs (set_node q n s)"
proof -
  note f = node_ok_facts [OF inv q]
  note e = threads_step_effect [OF f(2) step(1)]
  note snd = f(8) [unfolded tknowers_def]
  have nxt: "threads_next (thr s q) t'" using step unfolding threads_next_def by blast
  have ok: "t_delivery_ok (thr s q)" using f(2) by (simp add: threads_inv_def)
  show ?thesis
  proof (rule tsys_inv_update [OF inv q], unfold n(1))
    show "wires (t_urb t') = wires (urb_at s q)" by (simp add: wires_def links)
    show "threads_inv t'" by (rule threads_inv_step [OF f(2) step(2,1)])
    show "t_known (thr s q) \<subseteq> t_known t'" by (rule e(1))
    show "\<forall>i \<in> t_known t' - t_known (thr s q). id_author i = q \<or> id_author i \<in> tknowers hs s i"
    proof (intro ballI)
      fix i assume "i \<in> t_known t' - t_known (thr s q)"
      with e(2) f(3) consider "id_author i = q" | m where "m \<in> hearing (t_recv (thr s q))" "i = bm_id m" by auto
      then show "id_author i = q \<or> id_author i \<in> tknowers hs s i"
      proof cases
        case 2
        with f(8) have "bm_sender m \<in> tknowers hs s i" by blast
        then show ?thesis using node_ok_facts(6) [OF inv] by (auto simp: tknowers_def)
      qed simp
    qed
    have "queued (t_urb t') = queued (urb_at s q)" by (rule queued_links_eq [OF links(1)])
    then have "outgoing n \<subseteq> outgoing (nodes s q) \<union> bm_id ` (broadcasting t' - broadcasting (thr s q))"
      by (auto simp: outgoing_def n(1,2))
    moreover have "bm_id ` (broadcasting t' - broadcasting (thr s q)) \<subseteq> t_known t'"
      using sends by (auto simp: t_known_def known_def)
    ultimately show "outgoing n \<subseteq> t_known t'" using f(5) e(1) by blast
    show "\<forall>i. acks_of (t_urb t') i \<subseteq> acks_of (urb_at s q) i \<union> (tknowers hs s i - {q})"
      using threads_step_effect(3) [OF f(2) step(1)] f(8) by blast
    show "\<forall>m \<in> hearing (t_recv t'). m \<in> hearing (t_recv (thr s q)) \<or>
        bm_sender m \<in> tknowers hs s (bm_id m) - {q}" using heard by blast
    show "\<forall>i \<in> marked t'. i \<in> marked (thr s q) \<or> length hs div 2 < card (tknowers hs s i)"
      using delivered_by_mark [OF nxt ok] decided_majority [OF inv q hs] by blast
  qed (use n in simp_all)
qed

text \<open>A step that changes only the links and what is left to be sent.\<close>

lemma tsys_inv_links:
  assumes inv: "tsys_inv hs s" and q: "q \<in> ids_of hs"
    and links: "only_links (urb_at s q) (nd_urb n)" "wires (nd_urb n) = wires (urb_at s q)"
    and thr: "threads_inv (nd_threads n)" "limbo (t_del (nd_threads n)) = limbo (t_del (thr s q))"
      "hearing (t_recv (nd_threads n)) \<subseteq> hearing (t_recv (thr s q))"
    and n: "outgoing n \<subseteq> outgoing (nodes s q)" "at_ok hs s q (nd_at n)"
      "\<And>a. observers_at (nd_server n) a = observers_at (nd_server (nodes s q)) a"
  shows "tsys_inv hs (set_node q n s)"
proof -
  note f = node_ok_facts [OF inv q]
  have u: "nd_urb n = (urb_at s q)\<lparr>perfect_links := perfect_links (nd_urb n)\<rparr>" using links(1) by (simp add: only_links_def)
  have same: "acks_of (nd_urb n) = acks_of (urb_at s q)" "marked (nd_threads n) = marked (thr s q)"
    "known (nd_urb n) = known (urb_at s q)" by (subst u, simp add: acks_of_def known_def fun_eq_iff)+
  then have known: "t_known (nd_threads n) = t_known (thr s q)" by (simp add: t_known_def thr(2))
  show ?thesis
    by (rule tsys_inv_update [OF inv q links(2) n(3) thr(1)]) (use f(5) n thr(3) in \<open>auto simp: known same\<close>)
qed

lemma PL_Send_step_effect:
  assumes "PL_Send_step c m = Inr (cs, m')"
  shows "wires m' = wires m" "queued m' \<subseteq> insert (call_bytes c) (queued m)" "call_bytes ` set cs \<subseteq> {call_bytes c}"
proof -
  have w: "wires (update_link j f m) = wires m"
    if "\<And>pl. pl_target_id (f pl) = pl_target_id pl \<and> pl_target_addr (f pl) = pl_target_addr pl \<and> managers (f pl) = managers pl"
    for j f using that by (auto simp: wires_def update_link_def option.map_comp comp_def fun_eq_iff)
  show "wires m' = wires m" using assms by (cases c) (auto intro!: w)
  show "queued m' \<subseteq> insert (call_bytes c) (queued m)"
    using assms by (cases c; auto simp: queued_def update_link_def split: if_splits; blast)
  show "call_bytes ` set cs \<subseteq> {call_bytes c}" using assms by (cases c) auto
qed

lemma tsys_inv_call:
  assumes inv: "tsys_inv hs s" and q: "q \<in> ids_of hs"
    and thr: "threads_inv (nd_threads n)" "limbo (t_del (nd_threads n)) = limbo (t_del (thr s q))"
      "hearing (t_recv (nd_threads n)) \<subseteq> hearing (t_recv (thr s q))"
      "broadcasting (nd_threads n) \<subseteq> broadcasting (thr s q)"
    and same: "nd_at n = nd_at (nodes s q)" "nd_server n = nd_server (nodes s q)"
    and step: "(\<exists>c cs. c \<in> calls (nodes s q) \<and> PL_Send_step c (urb_at s q) = Inr (cs, nd_urb n) \<and>
        calls n \<subseteq> calls (nodes s q) \<union> set cs) \<or>
      (\<exists>msg \<in> broadcasting (thr s q). nd_urb n = urb_at s q \<and>
        calls n \<subseteq> calls (nodes s q) \<union> {Take_number j (Broadcast_Serialize msg) |j. True})"
  shows "tsys_inv hs (set_node q n s)"
  using step
proof (elim disjE exE bexE conjE)
  fix c cs assume c: "c \<in> calls (nodes s q)" "PL_Send_step c (urb_at s q) = Inr (cs, nd_urb n)"
    "calls n \<subseteq> calls (nodes s q) \<union> set cs"
  note e = PL_Send_step_effect [OF c(2)]
  have "outgoing n \<subseteq> outgoing (nodes s q)"
    using e(2,3) c(1,3) thr(4) unfolding outgoing_def by blast
  with PL_Send_step_only_links [OF c(2)] e(1) node_ok_facts(9) [OF inv q] thr same show ?thesis
    by (intro tsys_inv_links [OF inv q]) simp_all
next
  fix msg assume m: "msg \<in> broadcasting (thr s q)" "nd_urb n = urb_at s q"
    "calls n \<subseteq> calls (nodes s q) \<union> {Take_number j (Broadcast_Serialize msg) |j. True}"
  have "outgoing n \<subseteq> outgoing (nodes s q)"
  proof
    fix i assume "i \<in> outgoing n"
    then consider (queue) p where "p \<in> queued (urb_at s q)" "carries p i" | (call) c where "c \<in> calls n" "carries (call_bytes c) i"
      | (bc) "i \<in> bm_id ` broadcasting (nd_threads n)" by (auto simp: outgoing_def m(2))
    then show "i \<in> outgoing (nodes s q)"
    proof cases
      case call
      with m(3) consider "c \<in> calls (nodes s q)" | "bm_id msg = i" by auto
      then show ?thesis using call(2) m(1) by cases (auto simp: outgoing_def)
    qed (use thr(4) in \<open>auto simp: outgoing_def\<close>)
  qed
  with m node_ok_facts(9) [OF inv q] thr same show ?thesis by (intro tsys_inv_links [OF inv q]) simp_all
qed

lemma node_step_inv:
  assumes inv: "tsys_inv hs s" and q: "q \<in> ids_of hs" and step: "node_step inbox (nodes s q) out n"
  shows "threads_inv (nd_threads n)"
  using thread_runs.steps_inv [OF node_step_threads [OF step handed_up_ok(1) [OF inv q]] node_ok_facts(2) [OF inv q]] .

text \<open>The three threads inside the broadcast classes.\<close>

lemma tsys_inv_receiver:
  assumes inv: "tsys_inv hs s" and q: "q \<in> ids_of hs" and hs: "hosts_ok hs" and thr: "threads_inv (nd_threads n)"
    and same: "nd_at n = nd_at (nodes s q)" "nd_server n = nd_server (nodes s q)"
      "nd_del_calls n = nd_del_calls (nodes s q)" "nd_send_calls n = nd_send_calls (nodes s q)"
    and n: "nd_threads n = (thr s q)\<lparr>t_recv := t_recv (nd_threads n), t_urb := nd_urb n\<rparr>"
    and run: "link_by_link receiver_sends receiver_step links (nd_recv_calls (nodes s q), t_recv (thr s q)) (urb_at s q) =
       Inr ((nd_recv_calls n, t_recv (nd_threads n)), nd_urb n)"
  shows "tsys_inv hs (set_node q n s)"
proof -
  note f = node_ok_facts [OF inv q]
  have del: "t_del (nd_threads n) = t_del (thr s q)" "t_send (nd_threads n) = t_send (thr s q)" by (subst n, simp)+
  have sends: "\<forall>msg r. receiver_sends (t_recv (thr s q)) = Some (msg, r) \<longrightarrow>
      receiver_step (t_recv (thr s q)) (urb_at s q) = bind_result (BEB_SendInternal msg (urb_at s q)) (\<lambda>m. Inr (r, m))"
    using sends_step(1) by blast
  from run sends show ?thesis
  proof (cases rule: link_by_link_cases)
    case (call c cs1 cs2)
    then show ?thesis
      by (intro tsys_inv_call [OF inv q thr _ _ _ same(1,2)]) (auto simp: del broadcasting_def calls_def same)
  next
    case (broadcast msg)
    have "t_recv (nd_threads n) = R_idle" using broadcast(2) by (cases "t_recv (thr s q)") simp_all
    with broadcast show ?thesis
      by (intro tsys_inv_call [OF inv q thr _ _ _ same(1,2)]) (auto simp: del broadcasting_def calls_def same)
  next
    case step
    have quiet: "\<not> deliver_to_upper_layer (urb_at s q)" using f(2) by (simp add: threads_inv_def t_delivery_ok_def)
    note fr = receiver_frame [OF step(4) quiet]
    show ?thesis
      by (rule tsys_inv_thread [OF inv q hs _ reads_front_Inr, of "nd_threads n"])
        (use t_receive [OF step(4), of Inr] n fr receiver_links [OF step(4,2)] receiver_next_sends [OF step(4)] f(9) in
          \<open>auto simp: del same calls_def step(1,3) broadcasting_def\<close>)
  qed
qed

lemma tsys_inv_deliverer:
  assumes inv: "tsys_inv hs s" and q: "q \<in> ids_of hs" and hs: "hosts_ok hs" and thr: "threads_inv (nd_threads n)"
    and same: "nd_at n = nd_at (nodes s q)" "nd_server n = nd_server (nodes s q)"
      "nd_recv_calls n = nd_recv_calls (nodes s q)" "nd_send_calls n = nd_send_calls (nodes s q)"
    and n: "nd_threads n = (thr s q)\<lparr>t_del := t_del (nd_threads n), t_urb := nd_urb n\<rparr>" and pop: "reads_front after_pop"
    and run: "link_by_link deliverer_sends (deliverer_step after_pop) links (nd_del_calls (nodes s q), t_del (thr s q)) (urb_at s q) =
       Inr ((nd_del_calls n, t_del (nd_threads n)), nd_urb n)"
  shows "tsys_inv hs (set_node q n s)"
proof -
  note f = node_ok_facts [OF inv q]
  have del: "t_recv (nd_threads n) = t_recv (thr s q)" "t_send (nd_threads n) = t_send (thr s q)" by (subst n, simp)+
  have sends: "\<forall>msg d. deliverer_sends (t_del (thr s q)) = Some (msg, d) \<longrightarrow>
      deliverer_step after_pop (t_del (thr s q)) (urb_at s q) = bind_result (BEB_SendInternal msg (urb_at s q)) (\<lambda>m. Inr (d, m))"
    using sends_step(2) by blast
  from run sends show ?thesis
  proof (cases rule: link_by_link_cases)
    case (call c cs1 cs2)
    then show ?thesis
      by (intro tsys_inv_call [OF inv q thr _ _ _ same(1,2)]) (auto simp: del broadcasting_def calls_def same)
  next
    case (broadcast msg)
    obtain i ids where "t_del (thr s q) = D_send i msg ids" "t_del (nd_threads n) = D_mark i ids"
      using broadcast(2) by (cases "t_del (thr s q)") simp_all
    with broadcast show ?thesis
      by (intro tsys_inv_call [OF inv q thr _ _ _ same(1,2)]) (auto simp: del broadcasting_def calls_def same)
  next
    case step
    have bc: "bc_id (nd_urb n) = bc_id (urb_at s q)" using deliverer_counter [OF step(4)] by simp
    have "threads_step after_pop (thr s q) (nd_threads n)" by (subst n) (rule t_deliver [OF step(4)])
    then show ?thesis
      by (rule tsys_inv_thread [OF inv q hs _ pop])
        (use deliverer_links [OF step(4,2)] deliverer_next_sends [OF step(4)] bc f(9) in
          \<open>auto simp: del same calls_def step(1,3) broadcasting_def\<close>)
  qed
qed

lemma tsys_inv_sender:
  assumes inv: "tsys_inv hs s" and q: "q \<in> ids_of hs" and hs: "hosts_ok hs" and thr: "threads_inv (nd_threads n)"
    and same: "nd_at n = nd_at (nodes s q)" "nd_server n = nd_server (nodes s q)"
      "nd_recv_calls n = nd_recv_calls (nodes s q)" "nd_del_calls n = nd_del_calls (nodes s q)"
    and n: "nd_threads n = (thr s q)\<lparr>t_send := t_send (nd_threads n), t_urb := nd_urb n\<rparr>"
    and run: "link_by_link sender_sends sender_step links (nd_send_calls (nodes s q), t_send (thr s q)) (urb_at s q) =
       Inr ((nd_send_calls n, t_send (nd_threads n)), nd_urb n)"
  shows "tsys_inv hs (set_node q n s)"
proof -
  note f = node_ok_facts [OF inv q]
  have del: "t_recv (nd_threads n) = t_recv (thr s q)" "t_del (nd_threads n) = t_del (thr s q)" by (subst n, simp)+
  have sends: "\<forall>msg r. sender_sends (t_send (thr s q)) = Some (msg, r) \<longrightarrow>
      sender_step (t_send (thr s q)) (urb_at s q) = bind_result (BEB_SendInternal msg (urb_at s q)) (\<lambda>m. Inr (r, m))"
    using sends_step(3) by blast
  from run sends show ?thesis
  proof (cases rule: link_by_link_cases)
    case (call c cs1 cs2)
    then show ?thesis
      by (intro tsys_inv_call [OF inv q thr _ _ _ same(1,2)]) (auto simp: del broadcasting_def calls_def same)
  next
    case (broadcast msg)
    have "t_send (nd_threads n) = S_idle" using broadcast(2) by (cases "t_send (thr s q)") simp_all
    with broadcast show ?thesis
      by (intro tsys_inv_call [OF inv q thr _ _ _ same(1,2)]) (auto simp: del broadcasting_def calls_def same)
  next
    case step
    show ?thesis
      by (rule tsys_inv_thread [OF inv q hs _ reads_front_Inr, of "nd_threads n"])
        (use t_sender [OF step(4), of Inr] n sender_links [OF step(4,2)] sender_next_sends [OF step(4)]
          sender_frame [OF step(4)] f(9) in \<open>auto simp: del same calls_def step(1,3) broadcasting_def\<close>)
  qed
qed

text \<open>The loop of the server and the acknowledging thread.\<close>

lemma quiet_link:
  assumes "\<And>pl. pl_target_id (f pl) = pl_target_id pl \<and> pl_target_addr (f pl) = pl_target_addr pl \<and>
      managers (f pl) = managers pl \<and> ran (messages_to_send (f pl)) \<subseteq> ran (messages_to_send pl)"
  shows "quiet m (update_link j f m)"
  using assms by (intro quiet_update_link) simp_all

lemma Notify_step_quiet:
  assumes "Notify_step now j p m = Inr (p', up, m')"
  shows "quiet m m'"
  using assms
  by (cases "(now, j, p, m)" rule: Notify_step.cases) (auto intro!: quiet_link simp: ran_def split: if_splits)

lemma server_step_quiet:
  assumes "server_step now w (srv, m) = Inr (w', up, srv', m')"
  shows "quiet m m'"
proof (cases w)
  case (W_notify j p obs bs)
  with assms obtain p' where "Notify_step now j p m = Inr (p', up, m')" by (auto split: prod.splits)
  then show ?thesis by (rule Notify_step_quiet)
next
  case (W_loop obs bs)
  with assms show ?thesis by (cases obs) auto
qed (use assms in \<open>auto simp: Let_def\<close>)

lemma acks_step_quiet:
  assumes "acks_step sendto strong now oa od a m = Inr (out, a', m')"
  shows "quiet m m'"
  using assms
  by (cases "(sendto, strong, now, oa, od, a, m)" rule: acks_step.cases) (auto intro!: quiet_link simp: Let_def split: if_splits)

lemma quiet_only_links:
  assumes "quiet m m'"
  shows "only_links m m'" "wires m' = wires m" "queued m' \<subseteq> queued m"
  using assms unfolding quiet_def only_links_def by blast+

lemma tsys_inv_server:
  assumes inv: "tsys_inv hs s" and q: "q \<in> ids_of hs" and hs: "hosts_ok hs" and thr: "threads_inv (nd_threads n)"
    and idle: "nd_recv_calls (nodes s q) = []" "t_recv (thr s q) = R_idle"
    and step: "server_step now (nd_at (nodes s q)) (nd_server (nodes s q), urb_at s q) = Inr (nd_at n, up, nd_server n, nd_urb n)"
    and n: "nd_threads n = (thr s q)\<lparr>t_recv := (case up of None \<Rightarrow> R_idle | Some msg \<Rightarrow> R_notify msg), t_urb := nd_urb n\<rparr>"
      "calls n = calls (nodes s q)"
  shows "tsys_inv hs (set_node q n s)"
proof -
  note f = node_ok_facts [OF inv q]
  have ok: "at_ok hs s q (nd_at n)" "\<And>a. observers_at (nd_server n) a = observers_at (nd_server (nodes s q)) a"
    using server_step_at_ok [OF _ f(9) step] f(4) by (auto simp: app_of_def)
  have del: "t_recv (nd_threads n) = (case up of None \<Rightarrow> R_idle | Some msg \<Rightarrow> R_notify msg)"
    "t_del (nd_threads n) = t_del (thr s q)" "t_send (nd_threads n) = t_send (thr s q)" by (subst n(1), simp)+
  show ?thesis
  proof (cases up)
    case None
    have "outgoing n \<subseteq> outgoing (nodes s q)"
      using quiet_only_links(3) [OF server_step_quiet [OF step]] n(2) idle None
      by (auto simp: outgoing_def broadcasting_def del)
    then show ?thesis
      by (intro tsys_inv_links [OF inv q _ _ thr])
        (use quiet_only_links [OF server_step_quiet [OF step]] ok None in \<open>simp_all add: del\<close>)
  next
    case (Some msg)
    with server_step_handed [OF step] have u: "nd_urb n = urb_at s q" "handed_up (nd_at (nodes s q)) (urb_at s q) = Some msg"
      by simp_all
    have "nd_threads n = (thr s q)\<lparr>t_recv := R_notify msg\<rparr>" by (subst n(1)) (simp add: Some u)
    with t_arrive [OF idle(2) handed_up_ok(1) [OF inv q u(2)], of Inr]
    have "threads_step Inr (thr s q) (nd_threads n)" by simp
    then show ?thesis
      by (rule tsys_inv_thread [OF inv q hs _ reads_front_Inr])
        (use handed_up_ok(2) [OF inv q u(2)] ok n(2) u in \<open>auto simp: del Some broadcasting_def\<close>)
  qed
qed

text \<open>What is sent is known.\<close>

lemma tsys_inv_emit:
  assumes "tsys_inv hs s" and "h \<in> set hs"
    and "\<And>bs dst i. (bs, dst) \<in> set out \<Longrightarrow> in_packet (take 14 bs) i \<Longrightarrow> i \<in> t_known (thr s (h_id h))"
  shows "tsys_inv hs (temit (host_addr h) out s)"
proof -
  let ?s' = "temit (host_addr h) out s"
  have know: "tknowers hs ?s' = tknowers hs s" by (simp add: tknowers_def fun_eq_iff)
  then have from_eq: "from_ok hs ?s' = from_ok hs s" by (simp add: from_ok_def fun_eq_iff)
  have "at_ok hs ?s' q w = at_ok hs s q w" for q w by (cases w) (simp_all add: from_eq)
  then have "node_ok hs ?s' = node_ok hs s" by (simp add: node_ok_def know fun_eq_iff)
  moreover have "from_ok hs s (h_id h) (take 14 bs)" if "(bs, dst) \<in> set out" for bs dst
    using assms(2,3) that by (auto simp: from_ok_def tknowers_def)
  then have "tnet_ok hs ?s'"
    using assms(1,2) unfolding tnet_ok_def from_eq tsys_inv_def by (auto simp: temit_def)
  ultimately show ?thesis using assms(1) by (simp add: tsys_inv_def)
qed

lemma acks_step_out:
  assumes "acks_step sendto strong now oa od a m = Inr (out, a', m')" and "(bs, dst) \<in> set out"
  shows "\<exists>j links pl t. a = A_links (j # links) \<and> perfect_links m j = Some pl \<and> t \<in> set oa \<and> acks_to_send pl \<noteq> {} \<and>
    bs = PL_ack_packet t \<and> dst = pl_target_addr pl"
  using assms
  by (cases "(sendto, strong, now, oa, od, a, m)" rule: acks_step.cases)
    (auto simp: Let_def try_send_def split: if_splits sum.splits)

lemma messages_step_out:
  assumes "messages_step sendto ord ls m = Inr (out, ls')" and "(bs, dst) \<in> set out"
  shows "\<exists>j pl t p. perfect_links m j = Some pl \<and> messages_to_send pl t = Some p \<and> dst = pl_target_addr pl \<and>
    take 14 bs = PL_Serialize \<lparr>pm_seq = t, pm_payload = p\<rparr>"
proof (cases ls)
  case (Cons j links)
  with assms obtain pl where "perfect_links m j = Some pl" "PL_SendMessages sendto ord pl = Inr out" by auto
  with PL_SendMessages_sound [of sendto ord pl out "(bs, dst)"] assms(2) show ?thesis by fastforce
qed (use assms in simp)

lemma not_in_ack_packet: "\<not> in_packet (take 14 (PL_ack_packet t)) i"
  by (simp add: in_packet_def take_ack_packet)

lemma sent_known:
  assumes inv: "tsys_inv hs s" and q: "q \<in> ids_of hs" and step: "node_step inbox (nodes s q) out n"
    and d: "(bs, dst) \<in> set out" "in_packet (take 14 bs) i"
  shows "i \<in> t_known (thr s q)"
  using step
proof cases
  case (nd_ack sendto strong now oa od a u)
  from acks_step_out [OF nd_ack(2) d(1)] d(2) not_in_ack_packet show ?thesis by blast
next
  case (nd_message sendto ord links)
  from messages_step_out [OF nd_message(2) d(1)] d(2) obtain p where "p \<in> queued (urb_at s q)" "carries p i"
    by (auto simp: in_packet_def queued_def) blast
  then have "i \<in> outgoing (nodes s q)" by (auto simp: outgoing_def)
  with node_ok_facts(5) [OF inv q] show ?thesis by blast
qed (use d in simp_all)

lemma tsys_node_inv:
  assumes inv: "tsys_inv hs s" and hs: "hosts_ok hs" and h: "h \<in> set hs"
    and step: "node_step {(src, bs). (src, host_addr h, bs) \<in> tnet s} (nodes s (h_id h)) out n"
  shows "tsys_inv hs (set_node (h_id h) n s)"
proof -
  let ?q = "h_id h"
  have q: "?q \<in> ids_of hs" using h by simp
  note f = node_ok_facts [OF inv q] and thr = node_step_inv [OF inv q step]
  have thread: "tsys_inv hs (set_node ?q n s)"
    if "threads_step Inr (thr s ?q) (nd_threads n)" "t_recv (nd_threads n) = t_recv (thr s ?q)"
      "perfect_links (nd_urb n) = perfect_links (urb_at s ?q)" "n_processes (nd_urb n) = n_processes (urb_at s ?q)"
      "bc_id (nd_urb n) = bc_id (urb_at s ?q)" "broadcasting (nd_threads n) \<subseteq> broadcasting (thr s ?q)"
      "calls n = calls (nodes s ?q)" "nd_at n = nd_at (nodes s ?q)" "nd_server n = nd_server (nodes s ?q)"
    by (rule tsys_inv_thread [OF inv q hs that(1) reads_front_Inr that(3-5)]) (use that f(9) in auto)
  have still: "tsys_inv hs (set_node ?q n s)"
    if "quiet (urb_at s ?q) (nd_urb n)" "nd_threads n = (thr s ?q)\<lparr>t_urb := nd_urb n\<rparr>" "calls n = calls (nodes s ?q)"
      "at_ok hs s ?q (nd_at n)" "\<And>a. observers_at (nd_server n) a = observers_at (nd_server (nodes s ?q)) a"
  proof -
    have pos: "t_recv (nd_threads n) = t_recv (thr s ?q)" "t_del (nd_threads n) = t_del (thr s ?q)"
      "t_send (nd_threads n) = t_send (thr s ?q)" by (subst that(2), simp)+
    have "outgoing n \<subseteq> outgoing (nodes s ?q)"
      using quiet_only_links(3) [OF that(1)] by (auto simp: outgoing_def broadcasting_def pos that(3))
    then show ?thesis
      by (intro tsys_inv_links [OF inv q quiet_only_links(1,2) [OF that(1)] thr]) (simp_all add: pos that(4,5))
  qed
  from step show ?thesis
  proof cases
    case (nd_recvfrom src bs)
    then obtain h' where "h' \<in> set hs" "src = host_addr h'" "from_ok hs s (h_id h') (take 14 bs)"
      using inv unfolding tsys_inv_def tnet_ok_def by blast
    then show ?thesis using nd_recvfrom by (intro still) (auto simp: calls_def)
  next
    case (nd_receive now links w cs r srv u)
    from nd_receive(3) show ?thesis
    proof (cases rule: receiving_cases)
      case inside
      then show ?thesis
        by (intro tsys_inv_receiver [OF inv q hs thr]) (simp_all add: nd_receive(2))
    next
      case server
      then show ?thesis
        by (intro tsys_inv_server [OF inv q hs thr, of now None]) (auto simp: nd_receive(2) calls_def)
    next
      case (up msg)
      then show ?thesis
        by (intro tsys_inv_server [OF inv q hs thr, of now "Some msg"]) (auto simp: nd_receive(2) calls_def)
    qed
  next
    case (nd_turn ids)
    then show ?thesis by (intro thread) (auto intro: t_turn simp: broadcasting_def calls_def)
  next
    case (nd_deliver after_pop links cs d u)
    then show ?thesis by (intro tsys_inv_deliverer [OF inv q hs thr]) simp_all
  next
    case (nd_call msg sn u)
    then show ?thesis
      by (intro thread) (auto intro: t_call simp: broadcasting_def calls_def sender_begin_def)
  next
    case (nd_send links cs sn u)
    then show ?thesis by (intro tsys_inv_sender [OF inv q hs thr]) simp_all
  next
    case (nd_ack sendto strong now oa od a u)
    then show ?thesis using f(9) acks_step_quiet [OF nd_ack(2)] by (intro still) (simp_all add: calls_def)
  next
    case nd_stop
    then show ?thesis using t_switch [of Inr "thr s ?q" "deliver_thread (urb_at s ?q)" "send_thread (urb_at s ?q)" "ack_thread (urb_at s ?q)" False]
      by (intro thread) (auto simp: broadcasting_def calls_def)
  qed (use f(9) in \<open>(intro still; simp add: calls_def observers_at_def)+\<close>)
qed

lemma tsys_step_inv:
  assumes inv: "tsys_inv hs s" and hs: "hosts_ok hs" and step: "tsys_step hs s s'"
  shows "tsys_inv hs s'"
  using step
proof cases
  case (tsys_node h out n)
  have q: "h_id h \<in> ids_of hs" using tsys_node(2) by simp
  have inv': "tsys_inv hs (set_node (h_id h) n s)" by (rule tsys_node_inv [OF inv hs tsys_node(2,3)])
  show ?thesis
    unfolding tsys_node(1)
  proof (rule tsys_inv_emit [OF inv' tsys_node(2)])
    fix bs dst i assume "(bs, dst) \<in> set out" "in_packet (take 14 bs) i"
    with sent_known [OF inv q tsys_node(3)] have "i \<in> t_known (thr s (h_id h))" by blast
    moreover have "t_known (thr s (h_id h)) \<subseteq> t_known (nd_threads n)"
      using threads_known_steps [OF node_step_threads [OF tsys_node(3) handed_up_ok(1) [OF inv q]] node_ok_facts(2) [OF inv q]] .
    ultimately show "i \<in> t_known (thr (set_node (h_id h) n s) (h_id h))" by auto
  qed
qed

section \<open>Reachable states\<close>

lemma start_node_threads:
  assumes "nodes s q = start_node a" "parsed p" "os_can_open os (p_output_path p)" "FIFO_setup os p = Inr (n, a)"
  shows "reachable threads_started threads_next (thr s q)"
proof -
  let ?t = "\<lparr>t_urb = fifo_manager os p, t_recv = R_idle, t_del = D_idle, t_send = S_idle\<rparr>"
  have "threads_started ?t" using fifo_manager_started [OF assms(3)] by (simp add: threads_started_def)
  moreover have a: "app_manager a = (fifo_manager os p)\<lparr>on := True, ack_thread := True, send_thread := True, deliver_thread := True\<rparr>"
    using assms(2,4) by (auto simp: FIFO_setup_cases split: sum.splits if_splits)
  have "threads_next ?t (thr s q)"
    using t_switch [of Inr ?t True True True True] reads_front_Inr by (auto simp: threads_next_def assms(1) start_node_def a)
  ultimately show ?thesis by (blast intro: reachable.intros)
qed

lemma tsys_init_inv:
  assumes init: "tsys_init hs s"
  shows "tsys_inv hs s"
proof -
  have "node_ok hs s q (nodes s q)" if q: "q \<in> ids_of hs" for q
  proof -
    from init q obtain a os p n where a: "nodes s q = start_node a" and p: "parsed p" "p_hosts p = hs" "p_id p = q"
      "os_can_open os (p_output_path p)" and built: "FIFO_setup os p = Inr (n, a)"
      unfolding tsys_init_def by blast
    have hs: "hosts_ok hs" using init by (simp add: tsys_init_def)
    note w = setup_wired [OF built p(1-3) q hs] and fresh = fifo_manager_running(2) [OF p(4) built p(1)]
    have "threads_inv (thr s q)" by (rule thread_runs.reachable_inv [OF start_node_threads [OF a p(1,4) built]])
    moreover have "t_known (thr s q) = {}" "\<And>i. acks_of (urb_at s q) i = {}" "marked (thr s q) = {}"
      using fresh dset.abs_emp by (auto simp: a start_node_def urb_fresh_def t_known_def known_def acks_of_def)
    moreover have "outgoing (nodes s q) = {}"
      using w(2) by (simp add: a start_node_def outgoing_def calls_def broadcasting_def)
    moreover have "app_of (nodes s q) = a" by (simp add: app_of_def a start_node_def)
    ultimately show ?thesis using w(1) by (simp add: node_ok_def) (simp add: a start_node_def)
  qed
  moreover have "tnet_ok hs s" using init by (simp add: tnet_ok_def tsys_init_def)
  ultimately show ?thesis by (simp add: tsys_inv_def)
qed

text \<open>
  The threads of each process of the system, seen alone, run as in the interleavings of one
  process: all that was assumed there of the messages that arrive is a fact of the system.
\<close>

interpretation thread_system: simulation
  "\<lambda>s. q \<in> ids_of hs \<and> tsys_init hs s" "tsys_step hs" "\<lambda>s. q \<in> ids_of hs \<and> hosts_ok hs \<and> tsys_inv hs s"
  threads_started threads_next "\<lambda>s. thr s q" for hs q
proof unfold_locales
  fix s assume init: "q \<in> ids_of hs \<and> tsys_init hs s"
  then show "q \<in> ids_of hs \<and> hosts_ok hs \<and> tsys_inv hs s" using tsys_init_inv by (simp add: tsys_init_def)
  from init show "reachable threads_started threads_next (thr s q)"
    unfolding tsys_init_def using start_node_threads by meson
next
  fix s t assume inv: "q \<in> ids_of hs \<and> hosts_ok hs \<and> tsys_inv hs s" and step: "tsys_step hs s t"
  then show "q \<in> ids_of hs \<and> hosts_ok hs \<and> tsys_inv hs t" using tsys_step_inv by blast
  from step show "threads_next\<^sup>*\<^sup>* (thr s q) (thr t q)"
  proof cases
    case (tsys_node h out n)
    have "h_id h \<in> ids_of hs" using tsys_node(2) by simp
    with node_step_threads [OF tsys_node(3) handed_up_ok(1)] inv tsys_node(1) show ?thesis by auto
  qed
qed

lemma reachable_from:
  assumes "reachable init step s" and "\<And>s. init s \<Longrightarrow> init' s"
  shows "reachable init' step s"
  using assms by (induction rule: reachable.induct) (auto intro: reachable.intros)

lemma reachable_tsys:
  assumes "reachable (tsys_init hs) (tsys_step hs) s"
  shows "hosts_ok hs" "tsys_inv hs s" "q \<in> ids_of hs \<Longrightarrow> reachable threads_started threads_next (thr s q)"
proof -
  from assms have "hosts_ok hs \<and> tsys_inv hs s"
    by (induction rule: reachable.induct) (auto intro: tsys_init_inv tsys_step_inv simp: tsys_init_def)
  then show "hosts_ok hs" "tsys_inv hs s" by blast+
  assume "q \<in> ids_of hs"
  with assms have "reachable (\<lambda>s. q \<in> ids_of hs \<and> tsys_init hs s) (tsys_step hs) s" by simp
  then show "reachable threads_started threads_next (thr s q)" by (rule thread_system.view_reachable)
qed

section \<open>What Send has logged\<close>

text \<open>A number that has been taken from the counter is logged in the next statement.\<close>

fun logged_below :: "sender_at \<Rightarrow> u32 \<Rightarrow> u32" where
  "logged_below (S_log seq msg) n = seq"
| "logged_below _ n = n"

definition t_logged :: "threads \<Rightarrow> bool" where
  "t_logged t \<longleftrightarrow> lg_is_open (mgr_logger (t_urb t)) \<and>
     own_lines (mgr_logger (t_urb t)) = map broadcast_line (seqs_below (logged_below (t_send t) (bc_n_messages_sent (t_urb t)))) \<and>
     (\<forall>seq msg. t_send t = S_log seq msg \<longrightarrow> bc_n_messages_sent (t_urb t) = seq + 1 \<and> 0 < seq \<and> seq \<noteq> - 1)"

lemma t_logged_frame:
  assumes "t_logged t" and "own_lines (mgr_logger (t_urb t')) = own_lines (mgr_logger (t_urb t))"
    and "lg_is_open (mgr_logger (t_urb t')) = lg_is_open (mgr_logger (t_urb t))"
    and "bc_n_messages_sent (t_urb t') = bc_n_messages_sent (t_urb t)" and "t_send t' = t_send t"
  shows "t_logged t'"
  using assms by (simp add: t_logged_def)

lemma seqs_below_succ:
  assumes "0 < n" and "n \<noteq> - 1"
  shows "seqs_below (n + 1) = seqs_below n @ [n]"
proof -
  have s: "unat (n + 1) = Suc (unat n)" using assms(2) by (metis add.commute add_eq_0_iff2 unatSuc)
  then have "n \<le> n + 1" by (simp add: word_le_nat_alt)
  from seqs_below_append [OF assms(1) this] show ?thesis by (simp add: s)
qed

lemma t_logged_sender:
  assumes log: "t_logged t" and step: "sender_step (t_send t) (t_urb t) = Inr (s, u)"
  shows "t_logged (t\<lparr>t_send := s, t_urb := u\<rparr>)"
proof (cases "t_send t")
  case (S_log seq msg)
  with log have "own_lines (mgr_logger (t_urb t)) = map broadcast_line (seqs_below seq)" "bc_n_messages_sent (t_urb t) = seq + 1"
    "0 < seq" "seq \<noteq> - 1" "lg_is_open (mgr_logger (t_urb t))" by (simp_all add: t_logged_def)
  with S_log step show ?thesis by (auto simp: t_logged_def LogSend_line seqs_below_succ own_lines_broadcast)
next
  case S_idle
  with log step show ?thesis by (auto simp: t_logged_def)
qed (use log step sender_logger [OF step] sender_frame [OF step] in
      \<open>auto simp: t_logged_def split: if_splits\<close>)

lemma deliverer_own_lines:
  assumes "deliverer_step after_pop d u = Inr (d', u')"
  shows "own_lines (mgr_logger u') = own_lines (mgr_logger u) \<and> lg_is_open (mgr_logger u') = lg_is_open (mgr_logger u) \<and>
    bc_n_messages_sent u' = bc_n_messages_sent u"
  by (rule step_rule [OF assms], cases "(after_pop, d, u)" rule: deliverer_step.cases)
    (auto simp: step_simps Let_def UFIFO_DeliverInternal_own split: list.splits sum.split)

lemma t_logged_step:
  assumes inv: "threads_inv t" and log: "t_logged t" and step: "threads_next t t'"
  shows "t_logged t'"
proof -
  have quiet: "\<not> deliver_to_upper_layer (t_urb t)" using inv by (simp add: threads_inv_def t_delivery_ok_def)
  obtain after_pop where "threads_step after_pop t t'" using step by (auto simp: threads_next_def)
  then show ?thesis
  proof cases
    case (t_receive r u)
    from receiver_frame [OF t_receive(2) quiet] t_receive(1) show ?thesis by (intro t_logged_frame [OF log]) simp_all
  next
    case (t_deliver d u)
    from deliverer_own_lines [OF t_deliver(2)] t_deliver(1) show ?thesis by (intro t_logged_frame [OF log]) simp_all
  next
    case (t_call msg s u)
    have "0 < bc_n_messages_sent (t_urb t)" using inv by (simp add: threads_inv_def t_own_ok_def own_places_def)
    with t_call log show ?thesis by (auto simp: t_logged_def sender_begin_def)
  next
    case (t_sender s u)
    with t_logged_sender [OF log] show ?thesis by simp
  qed (use log in \<open>auto intro: t_logged_frame\<close>)
qed

interpretation thread_log: invariant threads_started threads_next "\<lambda>t. threads_inv t \<and> t_logged t"
proof unfold_locales
  fix t assume st: "threads_started t"
  then have "own_logged (t_urb t)" by (intro own_logged_started) (simp add: threads_started_def)
  with st have "t_logged t" by (simp add: t_logged_def own_logged_def threads_started_def)
  with threads_started_inv [OF st] show "threads_inv t \<and> t_logged t" by blast
qed (blast intro: thread_runs.inv_step t_logged_step)

text \<open>A message that is known, wherever, has been logged by its author.\<close>

lemma known_logged:
  assumes run: "reachable threads_started threads_next t" and i: "i \<in> t_known t" "id_author i = bc_id (t_urb t)"
  shows "0 < id_seq i \<and> broadcast_line (id_seq i) \<in> set (lg_lines (mgr_logger (t_urb t)))"
proof -
  let ?n = "bc_n_messages_sent (t_urb t)"
  have inv: "threads_inv t" and log: "t_logged t" using thread_log.reachable_inv [OF run] by simp_all
  then have own: "t_own_ok t" by (simp add: threads_inv_def)
  with i have range: "0 < id_seq i" "id_seq i < ?n" by (auto simp: t_own_ok_def own_places_def)
  have "id_seq i < logged_below (t_send t) ?n"
  proof (cases "t_send t")
    case (S_log seq msg)
    have "Msg_Id seq (bc_id (t_urb t)) \<notin> t_known t"
      using hands_apart(2) [OF own, of "Msg_Id seq (bc_id (t_urb t))"] S_log by simp
    with i have "id_seq i \<noteq> seq" by (metis msg_id.collapse)
    moreover have "?n = seq + 1" "seq \<noteq> - 1" using log S_log by (simp_all add: t_logged_def)
    ultimately show ?thesis using range(2) S_log by (simp add: u32_less_succ)
  qed (use range in simp_all)
  with range(1) log have "broadcast_line (id_seq i) \<in> set (own_lines (mgr_logger (t_urb t)))" by (auto simp: t_logged_def)
  with range(1) show ?thesis by (auto simp: own_lines_def)
qed

end
