(* ===== verification/Driver_Threads.thy ===== *)
theory Driver_Threads
  imports Program_Outcomes Thread_System
begin

text \<open>
  The FIFO driver with all threads of the process: the main thread sends the configured messages while the
  threads that the driver has started run.
\<close>

section \<open>The driver as a run of statements\<close>

text \<open>
  The threads once the links have been added, before the first of them is started; and a state in which
  the main thread has left the last of \<open>n\<close> calls of \<^verbatim>\<open>Send\<close>.
\<close>

definition driver_start :: "os \<Rightarrow> parser \<Rightarrow> threads" where
  "driver_start os p = \<lparr>t_urb = fifo_manager os p, t_recv = R_idle, t_del = D_idle, t_send = S_idle\<rparr>"

definition all_sent :: "nat \<Rightarrow> threads \<Rightarrow> bool" where
  "all_sent n t \<longleftrightarrow> t_send t = S_idle \<and> unat (bc_n_messages_sent (t_urb t)) = n + 1"

lemma driver_reachable:
  assumes "os_can_open os (p_output_path p)" and "threads_next\<^sup>*\<^sup>* (driver_start os p) t"
  shows "reachable threads_started threads_next t"
proof -
  have "threads_started (driver_start os p)"
    using fifo_manager_started [OF assms(1)] by (simp add: threads_started_def driver_start_def)
  then have "reachable threads_started threads_next (driver_start os p)" by (rule reachable_init)
  with assms(2) show ?thesis by (induction rule: rtranclp_induct) (auto intro: reachable_step)
qed

lemma sender_run:
  assumes "run_thread sender_step S_idle k s u = Some (Inr u')"
  shows "threads_next\<^sup>*\<^sup>* (t\<lparr>t_send := s, t_urb := u\<rparr>) (t\<lparr>t_send := S_idle, t_urb := u'\<rparr>)"
  using assms
proof (induction k arbitrary: s u)
  case (Suc k)
  show ?case
  proof (cases "s = S_idle")
    case False
    with Suc.prems obtain s1 u1 where step: "sender_step s u = Inr (s1, u1)"
      "run_thread sender_step S_idle k s1 u1 = Some (Inr u')"
      by (auto split: sum.splits)
    from step(1) have "threads_step Inr (t\<lparr>t_send := s, t_urb := u\<rparr>) (t\<lparr>t_send := s1, t_urb := u1\<rparr>)"
      using t_sender [of "t\<lparr>t_send := s, t_urb := u\<rparr>" s1 u1 Inr] by simp
    then have "threads_next (t\<lparr>t_send := s, t_urb := u\<rparr>) (t\<lparr>t_send := s1, t_urb := u1\<rparr>)"
      using reads_front_Inr by (auto simp: threads_next_def)
    from this Suc.IH [OF step(2)] show ?thesis by (rule converse_rtranclp_into_rtranclp)
  qed (use Suc.prems in simp)
qed (auto split: if_splits)

lemma Send_run:
  assumes "URB_Send ufifo_vt msg (t_urb t) = Inr u'" and "t_send t = S_idle" and "bc_n_messages_sent (t_urb t) \<noteq> - 1"
  shows "threads_next\<^sup>*\<^sup>* t (t\<lparr>t_urb := u'\<rparr>)"
proof -
  obtain s u where b: "sender_begin msg (t_urb t) = (s, u)" by (cases "sender_begin msg (t_urb t)")
  have "threads_next t (t\<lparr>t_send := s, t_urb := u\<rparr>)"
    using t_call [OF assms(2,3) b, of Inr] reads_front_Inr by (auto simp: threads_next_def)
  moreover have "threads_next\<^sup>*\<^sup>* (t\<lparr>t_send := s, t_urb := u\<rparr>) (t\<lparr>t_send := S_idle, t_urb := u'\<rparr>)"
    by (rule sender_run [of 5]) (use sender_alone [of msg "t_urb t"] assms(1) b in simp)
  moreover have "t\<lparr>t_send := S_idle, t_urb := u'\<rparr> = t\<lparr>t_urb := u'\<rparr>" using assms(2) by simp
  ultimately show ?thesis by (metis converse_rtranclp_into_rtranclp)
qed

lemma sends_are_run:
  assumes "fold_result (\<lambda>_. URB_Send ufifo_vt []) [0 ..< k] (t_urb t) = Inr u'" and "t_send t = S_idle"
    and "bc_n_messages_sent (t_urb t) = 1" and "k + 1 < 2 ^ 32"
  shows "threads_next\<^sup>*\<^sup>* t (t\<lparr>t_urb := u'\<rparr>) \<and> unat (bc_n_messages_sent u') = k + 1"
  using assms(1,4)
proof (induction k arbitrary: u')
  case (Suc k)
  from Suc.prems obtain u1 where u1: "fold_result (\<lambda>_. URB_Send ufifo_vt []) [0 ..< k] (t_urb t) = Inr u1"
    "URB_Send ufifo_vt [] u1 = Inr u'" by (auto simp: fold_result_append)
  with Suc have IH: "threads_next\<^sup>*\<^sup>* t (t\<lparr>t_urb := u1\<rparr>)" "unat (bc_n_messages_sent u1) = k + 1" by simp_all
  have n: "bc_n_messages_sent u1 \<noteq> - 1" using IH(2) Suc.prems(2) by (auto simp: unat_u32_max)
  have "threads_next\<^sup>*\<^sup>* (t\<lparr>t_urb := u1\<rparr>) (t\<lparr>t_urb := u'\<rparr>)"
    using Send_run [of "[]" "t\<lparr>t_urb := u1\<rparr>" u'] u1(2) n assms(2) by simp
  moreover have "unat (bc_n_messages_sent u') = Suc k + 1"
    using n IH(2) URB_Send_counts(1) [OF u1(2) ufifo_urb.urb_class_axioms]
    by (metis Suc_eq_plus1 add.commute add_eq_0_iff2 unatSuc)
  ultimately show ?case using IH(1) by auto
qed (use assms in simp)

text \<open>What every run has logged and kept when the last message is sent.\<close>

lemma all_sent_run:
  assumes "os_can_open os (p_output_path p)" and "threads_next\<^sup>*\<^sup>* (driver_start os p) t" and "all_sent n t"
  shows "own_lines (mgr_logger (t_urb t)) = map (\<lambda>j. broadcast_line (of_nat j)) [1 ..< Suc n]"
    "unat (n_own_pending_for_delivery (t_urb t)) \<le> unat (n_own_pending_delivery_ideal (t_urb t)) + 1"
    "0 < s \<Longrightarrow> unat s \<le> n \<Longrightarrow> Msg_Id s (bc_id (t_urb t)) \<in>
       t_known t \<union> bm_id ` set (own_pending_for_broadcast (t_urb t)) \<union> del_hand (t_del t)"
proof -
  note run = driver_reachable [OF assms(1,2)]
  have inv: "threads_inv t" "t_logged t" using thread_log.reachable_inv [OF run] by blast+
  have n: "t_send t = S_idle" "unat (bc_n_messages_sent (t_urb t)) = Suc n" using assms(3) by (simp_all add: all_sent_def)
  from inv(2) n show "own_lines (mgr_logger (t_urb t)) = map (\<lambda>j. broadcast_line (of_nat j)) [1 ..< Suc n]"
    by (simp add: t_logged_def seqs_below_def comp_def del: upt_Suc)
  from inv(1) show "unat (n_own_pending_for_delivery (t_urb t)) \<le> unat (n_own_pending_delivery_ideal (t_urb t)) + 1"
    by (simp add: threads_inv_def t_window_ok_def)
  assume s: "0 < s" "unat s \<le> n"
  then have "s < bc_n_messages_sent (t_urb t)" using n(2) by (simp add: word_less_nat_alt)
  with inv(1) s(1) n(1) show "Msg_Id s (bc_id (t_urb t)) \<in>
      t_known t \<union> bm_id ` set (own_pending_for_broadcast (t_urb t)) \<union> del_hand (t_del t)"
    by (auto simp: threads_inv_def t_own_ok_def own_places_def set_eq_iff)
qed

section \<open>Properties\<close>

text \<open>
  C31: The FIFO driver. With a parsed configuration and an open log it terminates the program exactly when
  the own identifier is not in the hosts table; otherwise it exits with failure exactly when no socket
  could be created or bound; otherwise it runs, with its socket bound to the address of the own
  host and all switches and threads on. If no other thread takes a step before the last \<^verbatim>\<open>Send\<close> returns,
  \<^verbatim>\<open>b 1\<close> to \<^verbatim>\<open>b n\<close> are then logged for the \<open>n\<close> configured messages, as many of them as fit the window are
  in the network, and all others are queued. In whatever way the threads of the process interleave with
  the main thread, when the last \<^verbatim>\<open>Send\<close> has returned the lines of own messages in the log are \<^verbatim>\<open>b 1\<close> to
  \<^verbatim>\<open>b n\<close> in this order, the window is exceeded by at most one, and none of the \<open>n\<close> messages is lost.
\<close>

theorem FIFO_driver_outcome:
  assumes "parsed p" and "os_can_open os (p_output_path p)" and "p_n_messages_to_send p \<noteq> - 1"
  defines "n \<equiv> unat (p_n_messages_to_send p)"
  shows "case local_host p of
      Inl _ \<Rightarrow> drivers_FIFOBroadcast os p = Inl Terminate
    | Inr me \<Rightarrow>
        if os_socket os < 0 \<or> os_bind os < 0 then drivers_FIFOBroadcast os p = Inl Exit_Failure
        else (\<exists>a. drivers_FIFOBroadcast os p = Inr a \<and> listens os me a \<and> deliver_thread (app_manager a) \<and>
          (let m = app_manager a; w = unat (n_own_pending_delivery_ideal m)
           in lg_lines (mgr_logger m) = map (\<lambda>j. broadcast_line (of_nat j)) [1 ..< Suc n] \<and>
              unat (n_own_pending_for_delivery m) = min n w \<and> length (own_pending_for_broadcast m) = n - w) \<and>
          (driver_start os p)\<lparr>t_urb := app_manager a\<rparr> \<in> {t. threads_next\<^sup>*\<^sup>* (driver_start os p) t \<and> all_sent n t} \<and>
          {t. threads_next\<^sup>*\<^sup>* (driver_start os p) t \<and> all_sent n t} \<subseteq>
            {t. own_lines (mgr_logger (t_urb t)) = map (\<lambda>j. broadcast_line (of_nat j)) [1 ..< Suc n] \<and>
                unat (n_own_pending_for_delivery (t_urb t)) \<le> unat (n_own_pending_delivery_ideal (t_urb t)) + 1 \<and>
                (\<forall>s \<in> {s. 0 < s \<and> unat s \<le> n}. Msg_Id s (bc_id (t_urb t)) \<in>
                   t_known t \<union> bm_id ` set (own_pending_for_broadcast (t_urb t)) \<union> del_hand (t_del t))})"
proof (cases "\<exists>me. local_host p = Inr me \<and> \<not> (os_socket os < 0 \<or> os_bind os < 0)")
  case False
  then show ?thesis using FIFO_driver_exact [OF assms(1), of os] by (auto split: sum.splits)
next
  case True
  then obtain me a m where hosts: "local_host p = Inr me" "\<not> (os_socket os < 0 \<or> os_bind os < 0)"
    and built: "FIFO_setup os p = Inr (p_n_messages_to_send p, a)"
      "FIFO_sends (p_n_messages_to_send p) (app_manager a) = Inr m"
    and run: "drivers_FIFOBroadcast os p = Inr (a\<lparr>app_manager := m\<rparr>)" "listens os me (a\<lparr>app_manager := m\<rparr>)"
      "deliver_thread m"
    using FIFO_driver_exact [OF assms(1), of os] by auto
  note sent = FIFO_sends_outcome [OF assms(1-3) built, folded n_def]
  let ?t = "(driver_start os p)\<lparr>t_urb := app_manager a\<rparr>"
  have small: "n + 1 < 2 ^ 32"
  proof -
    have "n \<noteq> unat (- 1 :: u32)" unfolding n_def using assms(3) by (simp flip: word_unat_eq_iff)
    with unat_lt2p_32 [of "p_n_messages_to_send p"] show ?thesis unfolding unat_u32_max n_def by simp
  qed
  have "app_manager a = (fifo_manager os p)\<lparr>on := True, ack_thread := True, send_thread := True, deliver_thread := True\<rparr>"
    using assms(1) built(1) by (auto simp: FIFO_setup_cases split: sum.splits if_splits)
  then have "threads_next (driver_start os p) ?t"
    using t_switch [of Inr "driver_start os p" True True True True] reads_front_Inr
    by (auto simp: threads_next_def driver_start_def)
  moreover have "bc_n_messages_sent (app_manager a) = 1"
    using fifo_manager_running(2) [OF assms(2) built(1) assms(1)] by (simp add: urb_fresh_def)
  then have "threads_next\<^sup>*\<^sup>* ?t (?t\<lparr>t_urb := m\<rparr>) \<and> unat (bc_n_messages_sent m) = n + 1"
    using sends_are_run [of n ?t m] built(2) small by (simp add: FIFO_sends_def n_def driver_start_def)
  ultimately have "(driver_start os p)\<lparr>t_urb := m\<rparr> \<in> {t. threads_next\<^sup>*\<^sup>* (driver_start os p) t \<and> all_sent n t}"
    by (simp add: all_sent_def driver_start_def converse_rtranclp_into_rtranclp)
  moreover have "{t. threads_next\<^sup>*\<^sup>* (driver_start os p) t \<and> all_sent n t} \<subseteq>
      {t. own_lines (mgr_logger (t_urb t)) = map (\<lambda>j. broadcast_line (of_nat j)) [1 ..< Suc n] \<and>
        unat (n_own_pending_for_delivery (t_urb t)) \<le> unat (n_own_pending_delivery_ideal (t_urb t)) + 1 \<and>
        (\<forall>s \<in> {s. 0 < s \<and> unat s \<le> n}. Msg_Id s (bc_id (t_urb t)) \<in>
           t_known t \<union> bm_id ` set (own_pending_for_broadcast (t_urb t)) \<union> del_hand (t_del t))}"
    using all_sent_run [OF assms(2)] by blast
  ultimately show ?thesis
    unfolding hosts(1) sum.case if_not_P [OF hosts(2)]
    by (intro exI [of _ "a\<lparr>app_manager := m\<rparr>"] conjI) (simp_all add: Let_def run sent del: upt_Suc)
qed

theorem FIFO_driver_outcome_witness:
  "\<exists>a. drivers_FIFOBroadcast ex_os ex_config = Inr a \<and> listens ex_os (ex_host 2) a \<and>
     lg_lines (mgr_logger (app_manager a)) = map broadcast_line [1, 2, 3, 4, 5]"
proof -
  have "p_n_messages_to_send ex_config \<noteq> - 1" by simp
  from FIFO_driver_outcome [OF ex_config_fields(1,7) this] show ?thesis
    by (auto simp: Let_def upt_rec)
qed

end
