(* ===== verification/Shared_Data.thy ===== *)
theory Shared_Data
  imports DA_Prelude
begin

text \<open>
  \<^verbatim>\<open>Shared<T>\<close> (\<^verbatim>\<open>shared.hpp\<close>): a value beside a \<^verbatim>\<open>std::shared_mutex\<close>. The threads of the program
  are here what they do to the mutexes: a sequence of locking operations, accesses to the guarded
  values, writes to the log, joins, and what ends the loops of other threads. A discipline on such
  sequences is shown to exclude deadlock, and all data races but those of a named unguarded read.
\<close>

section \<open>Mutexes\<close>

type_synonym tid = nat

record shared_mutex =
  sm_writer :: "tid option"
  sm_readers :: "tid set"

definition mutex_init :: shared_mutex where
  "mutex_init = \<lparr>sm_writer = None, sm_readers = {}\<rparr>"

text \<open>\<open>None\<close>: the thread has to wait, or, for the unlocking operations, does not hold the mutex.\<close>

definition mutex_lock :: "tid \<Rightarrow> shared_mutex \<Rightarrow> shared_mutex option" where
  "mutex_lock i m = (if sm_writer m = None \<and> sm_readers m = {} then Some (m\<lparr>sm_writer := Some i\<rparr>) else None)"

definition mutex_unlock :: "tid \<Rightarrow> shared_mutex \<Rightarrow> shared_mutex option" where
  "mutex_unlock i m = (if sm_writer m = Some i then Some (m\<lparr>sm_writer := None\<rparr>) else None)"

definition mutex_lock_shared :: "tid \<Rightarrow> shared_mutex \<Rightarrow> shared_mutex option" where
  "mutex_lock_shared i m = (if sm_writer m = None then Some (m\<lparr>sm_readers := insert i (sm_readers m)\<rparr>) else None)"

definition mutex_unlock_shared :: "tid \<Rightarrow> shared_mutex \<Rightarrow> shared_mutex option" where
  "mutex_unlock_shared i m = (if i \<in> sm_readers m then Some (m\<lparr>sm_readers := sm_readers m - {i}\<rparr>) else None)"

lemmas mutex_defs = mutex_init_def mutex_lock_def mutex_unlock_def mutex_lock_shared_def mutex_unlock_shared_def

section \<open>Threads\<close>

text \<open>The members of type \<^verbatim>\<open>Shared\<close>; those of a perfect link carry the identifier of the link.\<close>

datatype resource =
    Observers
  | Perfect_Links
  | Acks_To_Send u32
  | Messages_To_Send u32
  | Messages_Delivered u32
  | Delivered
  | Own_Pending_For_Broadcast
  | Pending_For_Delivery
  | Acks

text \<open>The switches \<^verbatim>\<open>on_\<close> of the manager and of the server.\<close>

datatype switch = Manager_Switch | Server_Switch

datatype event =
    Lock resource
  | Unlock resource
  | Lock_Shared resource
  | Unlock_Shared resource
  | Read resource
  | Write resource
  | Log
  | Switch_Off switch
  | Shutdown_Socket
  | Join tid

record sync =
  mutexes :: "resource \<Rightarrow> shared_mutex"
  todo :: "event list list"

definition sync_init :: "event list list \<Rightarrow> sync" where
  "sync_init ts = \<lparr>mutexes = (\<lambda>r. mutex_init), todo = ts\<rparr>"

text \<open>
  A \<^verbatim>\<open>shared_mutex\<close> may make readers wait while a writer waits (\<open>prefer\<close>); the standard leaves this open.
\<close>

definition writer_waits :: "sync \<Rightarrow> resource \<Rightarrow> bool" where
  "writer_waits s r \<longleftrightarrow> list_ex (\<lambda>es. case es of Lock r' # _ \<Rightarrow> r' = r | _ \<Rightarrow> False) (todo s)"

fun do_event :: "bool \<Rightarrow> sync \<Rightarrow> tid \<Rightarrow> event \<Rightarrow> (resource \<Rightarrow> shared_mutex) option" where
  "do_event prefer s i (Lock r) = map_option (\<lambda>m. (mutexes s)(r := m)) (mutex_lock i (mutexes s r))"
| "do_event prefer s i (Unlock r) = map_option (\<lambda>m. (mutexes s)(r := m)) (mutex_unlock i (mutexes s r))"
| "do_event prefer s i (Lock_Shared r) =
     (if prefer \<and> writer_waits s r then None
      else map_option (\<lambda>m. (mutexes s)(r := m)) (mutex_lock_shared i (mutexes s r)))"
| "do_event prefer s i (Unlock_Shared r) = map_option (\<lambda>m. (mutexes s)(r := m)) (mutex_unlock_shared i (mutexes s r))"
| "do_event prefer s i (Read r) = Some (mutexes s)"
| "do_event prefer s i (Write r) = Some (mutexes s)"
| "do_event prefer s i Log = Some (mutexes s)"
| "do_event prefer s i (Switch_Off sw) = Some (mutexes s)"
| "do_event prefer s i Shutdown_Socket = Some (mutexes s)"
| "do_event prefer s i (Join j) = (if j < length (todo s) \<and> todo s ! j = [] then Some (mutexes s) else None)"

definition sync_step :: "bool \<Rightarrow> tid \<Rightarrow> sync \<Rightarrow> sync option" where
  "sync_step prefer i s =
     (if i < length (todo s) then
        (case todo s ! i of
           [] \<Rightarrow> None
         | e # es \<Rightarrow> map_option (\<lambda>M. \<lparr>mutexes = M, todo = (todo s)[i := es]\<rparr>) (do_event prefer s i e))
      else None)"

definition sync_next :: "sync \<Rightarrow> sync \<Rightarrow> bool" where
  "sync_next s t \<longleftrightarrow> (\<exists>prefer i. sync_step prefer i s = Some t)"

fun sync_run :: "tid list \<Rightarrow> sync \<Rightarrow> sync option" where
  "sync_run [] s = Some s"
| "sync_run (i # is) s = Option.bind (sync_step False i s) (sync_run is)"

lemma sync_run_steps: "sync_run is s = Some t \<Longrightarrow> sync_next\<^sup>*\<^sup>* s t"
proof (induction "is" arbitrary: s)
  case (Cons i "is")
  then obtain s1 where s1: "sync_step False i s = Some s1" "sync_run is s1 = Some t" by (auto simp: bind_eq_Some_conv)
  then have "sync_next s s1" by (auto simp: sync_next_def)
  then show ?case using Cons.IH [OF s1(2)] by (rule converse_rtranclp_into_rtranclp)
qed simp

section \<open>The discipline\<close>

datatype mode = Exclusive | Shared_Mode

definition mode_in :: "shared_mutex \<Rightarrow> tid \<Rightarrow> mode option" where
  "mode_in m i = (if sm_writer m = Some i then Some Exclusive else if i \<in> sm_readers m then Some Shared_Mode else None)"

definition held :: "sync \<Rightarrow> tid \<Rightarrow> resource \<Rightarrow> mode option" where
  "held s i = (\<lambda>r. mode_in (mutexes s r) i)"

text \<open>The order in which a thread may lock while it holds other mutexes.\<close>

fun rank :: "resource \<Rightarrow> nat" where
  "rank Perfect_Links = 0"
| "rank _ = 1"

text \<open>
  A thread that holds \<open>H\<close> locks in the order of the ranks, unlocks what it holds, accesses a value under
  its mutex and writes it under the exclusive lock, ends holding nothing and joins only threads of
  \<open>J\<close> and holding nothing. The values of \<open>W\<close> it may write under the shared lock; \<open>R\<close> are the mutexes that it
  ever locks shared; the values of \<open>L\<close> it also reads without their mutex.
\<close>

record thread_rights =
  shared_locks :: "resource set"
  shared_writes :: "resource set"
  loose_reads :: "resource set"
  joins :: "tid set"

fun disciplined :: "thread_rights \<Rightarrow> (resource \<Rightarrow> mode option) \<Rightarrow> event list \<Rightarrow> bool" where
  "disciplined R H [] \<longleftrightarrow> H = Map.empty"
| "disciplined R H (e # es) \<longleftrightarrow>
     (case e of
        Lock r \<Rightarrow> (\<forall>r'. H r' \<noteq> None \<longrightarrow> rank r' < rank r) \<and> disciplined R (H(r \<mapsto> Exclusive)) es
      | Unlock r \<Rightarrow> H r = Some Exclusive \<and> disciplined R (H(r := None)) es
      | Lock_Shared r \<Rightarrow> r \<in> shared_locks R \<and> (\<forall>r'. H r' \<noteq> None \<longrightarrow> rank r' < rank r) \<and>
          disciplined R (H(r \<mapsto> Shared_Mode)) es
      | Unlock_Shared r \<Rightarrow> H r = Some Shared_Mode \<and> disciplined R (H(r := None)) es
      | Read r \<Rightarrow> (H r = Some Exclusive \<or> H r = Some Shared_Mode \<and> r \<in> shared_locks R \<or> r \<in> loose_reads R) \<and>
          disciplined R H es
      | Write r \<Rightarrow> (H r = Some Exclusive \<or> H r = Some Shared_Mode \<and> r \<in> shared_writes R) \<and> disciplined R H es
      | Log \<Rightarrow> disciplined R H es
      | Switch_Off sw \<Rightarrow> disciplined R H es
      | Shutdown_Socket \<Rightarrow> disciplined R H es
      | Join j \<Rightarrow> j \<in> joins R \<and> H = Map.empty \<and> disciplined R H es)"

abbreviation conforms :: "thread_rights \<Rightarrow> event list \<Rightarrow> bool" where
  "conforms R es \<equiv> disciplined R Map.empty es"

lemma disciplined_append:
  assumes "disciplined R H xs" and "conforms R ys"
  shows "disciplined R H (xs @ ys)"
  using assms
proof (induction xs arbitrary: H)
  case Nil
  then show ?case by simp
next
  case (Cons e es)
  then show ?case by (cases e) auto
qed

lemma conforms_concat: "(\<And>es. es \<in> set ess \<Longrightarrow> conforms R es) \<Longrightarrow> conforms R (concat ess)"
  by (induction ess) (simp_all add: disciplined_append)

section \<open>The invariant\<close>

definition mutex_ok :: "nat \<Rightarrow> shared_mutex \<Rightarrow> bool" where
  "mutex_ok n m \<longleftrightarrow> sm_readers m \<subseteq> {..<n} \<and>
     (case sm_writer m of None \<Rightarrow> True | Some i \<Rightarrow> i < n \<and> sm_readers m = {})"

definition sync_inv :: "(tid \<Rightarrow> thread_rights) \<Rightarrow> sync \<Rightarrow> bool" where
  "sync_inv R s \<longleftrightarrow> (\<forall>r. mutex_ok (length (todo s)) (mutexes s r)) \<and>
     (\<forall>i < length (todo s). disciplined (R i) (held s i) (todo s ! i))"

text \<open>Rights that fit together: joins go upwards, and a value written under a shared lock is locked shared by one thread only.\<close>

definition rights_ok :: "nat \<Rightarrow> (tid \<Rightarrow> thread_rights) \<Rightarrow> bool" where
  "rights_ok n R \<longleftrightarrow> (\<forall>i. joins (R i) \<subseteq> {i<..<n} \<and> shared_writes (R i) \<subseteq> shared_locks (R i)) \<and>
     (\<forall>i j. i \<noteq> j \<longrightarrow> shared_writes (R i) \<inter> shared_locks (R j) = {})"

lemma sync_init_inv:
  assumes "\<And>i. i < length ts \<Longrightarrow> conforms (R i) (ts ! i)"
  shows "sync_inv R (sync_init ts)"
proof -
  have "held (sync_init ts) i = Map.empty" for i by (simp add: held_def mode_in_def sync_init_def mutex_init_def)
  with assms show ?thesis by (simp add: sync_inv_def sync_init_def mutex_ok_def mutex_init_def)
qed

text \<open>What a step of thread \<open>i\<close> does to the mutexes that it and the others hold.\<close>

fun after_event :: "event \<Rightarrow> (resource \<Rightarrow> mode option) \<Rightarrow> resource \<Rightarrow> mode option" where
  "after_event (Lock r) H = H(r \<mapsto> Exclusive)"
| "after_event (Unlock r) H = H(r := None)"
| "after_event (Lock_Shared r) H = H(r \<mapsto> Shared_Mode)"
| "after_event (Unlock_Shared r) H = H(r := None)"
| "after_event _ H = H"

lemma disciplined_step: "disciplined R H (e # es) \<Longrightarrow> disciplined R (after_event e H) es"
  by (cases e) auto

text \<open>The operation of one mutex, seen from all threads.\<close>

definition mutex_change :: "nat \<Rightarrow> tid \<Rightarrow> mode option \<Rightarrow> shared_mutex \<Rightarrow> shared_mutex \<Rightarrow> bool" where
  "mutex_change n i x m m' \<longleftrightarrow> mode_in m' = (mode_in m)(i := x) \<and> (i < n \<longrightarrow> mutex_ok n m')"

lemma mutex_changes:
  assumes "mutex_ok n m"
  shows "mutex_lock i m = Some m' \<Longrightarrow> mutex_change n i (Some Exclusive) m m'"
    and "mutex_unlock i m = Some m' \<Longrightarrow> mutex_change n i None m m'"
    and "mutex_lock_shared i m = Some m' \<Longrightarrow> mutex_change n i (Some Shared_Mode) m m'"
    and "mutex_unlock_shared i m = Some m' \<Longrightarrow> mutex_change n i None m m'"
  using assms
  by (auto simp: mutex_change_def mutex_defs mutex_ok_def mode_in_def fun_eq_iff split: if_splits option.splits)

lemma do_event_held:
  assumes ev: "do_event prefer s i e = Some M" and ok: "\<And>r. mutex_ok n (mutexes s r)"
  shows "held \<lparr>mutexes = M, todo = ts\<rparr> i = after_event e (held s i)"
    and "j \<noteq> i \<Longrightarrow> held \<lparr>mutexes = M, todo = ts\<rparr> j = held s j"
    and "i < n \<Longrightarrow> mutex_ok n (M r)"
proof -
  have one: "held \<lparr>mutexes = M, todo = ts\<rparr> i = (held s i)(q := x) \<and>
      (j \<noteq> i \<longrightarrow> held \<lparr>mutexes = M, todo = ts\<rparr> j = held s j) \<and> (i < n \<longrightarrow> mutex_ok n (M r))"
    if "M = (mutexes s)(q := m)" and "mutex_change n i x (mutexes s q) m" for q m x
    using that ok by (auto simp: held_def mutex_change_def fun_eq_iff)
  have "held \<lparr>mutexes = M, todo = ts\<rparr> i = after_event e (held s i) \<and>
      (j \<noteq> i \<longrightarrow> held \<lparr>mutexes = M, todo = ts\<rparr> j = held s j) \<and> (i < n \<longrightarrow> mutex_ok n (M r))"
  proof (cases e)
    case (Lock q)
    then show ?thesis using ev one [OF _ mutex_changes(1) [OF ok]] by auto
  next
    case (Unlock q)
    then show ?thesis using ev one [OF _ mutex_changes(2) [OF ok]] by auto
  next
    case (Lock_Shared q)
    then show ?thesis using ev one [OF _ mutex_changes(3) [OF ok]] by (auto split: if_splits)
  next
    case (Unlock_Shared q)
    then show ?thesis using ev one [OF _ mutex_changes(4) [OF ok]] by auto
  qed (use ev ok in \<open>auto simp: held_def split: if_splits\<close>)
  then show "held \<lparr>mutexes = M, todo = ts\<rparr> i = after_event e (held s i)"
    "j \<noteq> i \<Longrightarrow> held \<lparr>mutexes = M, todo = ts\<rparr> j = held s j" "i < n \<Longrightarrow> mutex_ok n (M r)" by blast+
qed

lemma sync_inv_at:
  assumes "sync_inv R s" and "i < length (todo s)" and "todo s ! i = es"
  shows "disciplined (R i) (held s i) es"
  using assms unfolding sync_inv_def by blast

lemma sync_inv_step:
  assumes inv: "sync_inv R s" and step: "sync_step prefer i s = Some t"
  shows "sync_inv R t" "length (todo t) = length (todo s)"
proof -
  from step obtain e es M where i: "i < length (todo s)" "todo s ! i = e # es" "do_event prefer s i e = Some M"
    and t: "t = \<lparr>mutexes = M, todo = (todo s)[i := es]\<rparr>"
    by (auto simp: sync_step_def split: if_splits list.splits)
  have ok: "\<And>r. mutex_ok (length (todo s)) (mutexes s r)" using inv by (simp add: sync_inv_def)
  note h = do_event_held [OF i(3) ok]
  have "disciplined (R j) (held t j) (todo t ! j)" if "j < length (todo t)" for j
  proof (cases "j = i")
    case True
    from sync_inv_at [OF inv i(1,2)] have "disciplined (R i) (after_event e (held s i)) es" by (rule disciplined_step)
    with True h(1) i(1) show ?thesis by (simp add: t)
  next
    case False
    with inv h(2) [OF False] that show ?thesis by (simp add: t sync_inv_def)
  qed
  with h(3) [OF i(1)] show "sync_inv R t" by (simp add: sync_inv_def t)
  show "length (todo t) = length (todo s)" by (simp add: t)
qed

section \<open>No deadlock\<close>

text \<open>The mutex a thread is waiting for.\<close>

definition waits_for :: "sync \<Rightarrow> tid \<Rightarrow> resource \<Rightarrow> bool" where
  "waits_for s i r \<longleftrightarrow> i < length (todo s) \<and> (\<exists>es. todo s ! i = Lock r # es \<or> todo s ! i = Lock_Shared r # es)"

lemma rank_le: "rank r \<le> 1"
  by (cases r) simp_all

lemma holder_waits:
  assumes inv: "sync_inv R s" and stuck: "\<And>i. sync_step True i s = None" and h: "held s h r \<noteq> None"
  shows "\<exists>r'. waits_for s h r' \<and> rank r < rank r'"
proof -
  have "h < length (todo s)"
  proof -
    have "mutex_ok (length (todo s)) (mutexes s r)" using inv by (simp add: sync_inv_def)
    with h show ?thesis
      by (auto simp: mutex_ok_def held_def mode_in_def split: if_splits option.splits)
  qed
  moreover from this have d: "disciplined (R h) (held s h) (todo s ! h)" using inv by (simp add: sync_inv_def)
  ultimately show ?thesis
  proof (cases "todo s ! h")
    case Nil
    with d h show ?thesis by simp
  next
    case (Cons e es)
    note dd = d [unfolded Cons]
    have blocked: "do_event True s h e = None"
      using stuck [of h] Cons \<open>h < length (todo s)\<close> by (simp add: sync_step_def)
    show ?thesis
    proof (cases e)
      case (Lock q)
      with dd h Cons \<open>h < length (todo s)\<close> show ?thesis by (auto simp: waits_for_def)
    next
      case (Lock_Shared q)
      with dd h Cons \<open>h < length (todo s)\<close> show ?thesis by (auto simp: waits_for_def)
    next
      case (Unlock q)
      with dd blocked show ?thesis by (auto simp: held_def mode_in_def mutex_unlock_def split: if_splits)
    next
      case (Unlock_Shared q)
      with dd blocked show ?thesis by (auto simp: held_def mode_in_def mutex_unlock_shared_def split: if_splits)
    next
      case (Join j)
      with dd h show ?thesis by auto
    qed (use blocked in simp_all)
  qed
qed

lemma writer_waits_thread:
  assumes "writer_waits s r"
  obtains j es where "todo s ! j = Lock r # es" "j < length (todo s)"
proof -
  from assms obtain es where es: "es \<in> set (todo s)" "case es of Lock r' # _ \<Rightarrow> r' = r | _ \<Rightarrow> False"
    unfolding writer_waits_def list_ex_iff by blast
  then obtain es' where "es = Lock r # es'" by (auto split: list.splits event.splits)
  with es(1) that show ?thesis by (auto simp: in_set_conv_nth)
qed

lemma waiter_blocked:
  assumes stuck: "\<And>i. sync_step True i s = None" and w: "waits_for s i r"
  shows "\<exists>h. held s h r \<noteq> None"
proof -
  have locked: "\<exists>h. held s h r \<noteq> None" if "todo s ! j = Lock r # es" "j < length (todo s)" for j es
  proof -
    from stuck [of j] that have "mutex_lock j (mutexes s r) = None" by (simp add: sync_step_def)
    then have "(\<exists>h. sm_writer (mutexes s r) = Some h) \<or> (\<exists>h. h \<in> sm_readers (mutexes s r))"
      by (auto simp: mutex_lock_def split: if_splits)
    then show ?thesis by (auto simp: held_def mode_in_def)
  qed
  from w obtain es where i: "i < length (todo s)" and "todo s ! i = Lock r # es \<or> todo s ! i = Lock_Shared r # es"
    by (auto simp: waits_for_def)
  then show ?thesis
  proof (elim disjE)
    assume "todo s ! i = Lock_Shared r # es"
    with stuck [of i] i have "writer_waits s r \<or> mutex_lock_shared i (mutexes s r) = None"
      by (auto simp: sync_step_def split: if_splits)
    then show ?thesis
    proof
      assume "writer_waits s r"
      then show ?thesis using writer_waits_thread locked by blast
    qed (auto simp: mutex_lock_shared_def held_def mode_in_def split: if_splits)
  qed (use locked i in blast)
qed

lemma no_waiter:
  assumes inv: "sync_inv R s" and stuck: "\<And>i. sync_step True i s = None"
  shows "\<not> waits_for s i r"
proof (induction "2 - rank r" arbitrary: i r rule: less_induct)
  case less
  show ?case
  proof
    assume "waits_for s i r"
    then obtain h where "held s h r \<noteq> None" using waiter_blocked [OF stuck] by blast
    then obtain r' where "waits_for s h r'" "rank r < rank r'" using holder_waits [OF inv stuck] by blast
    moreover have "2 - rank r' < 2 - rank r" using \<open>rank r < rank r'\<close> rank_le [of r'] by linarith
    ultimately show False using less.hyps by blast
  qed
qed

text \<open>As long as some thread is not at its end, some thread can take a step, also when writers are preferred.\<close>

lemma not_stuck:
  assumes inv: "sync_inv R s" and rights: "rights_ok (length (todo s)) R" and i: "i < length (todo s)" "todo s ! i \<noteq> []"
  shows "\<exists>j t. sync_step True j s = Some t"
proof (rule ccontr)
  assume "\<nexists>j t. sync_step True j s = Some t"
  then have stuck: "\<And>j. sync_step True j s = None" by (meson not_None_eq)
  have "todo s ! i = []" if "i < length (todo s)" for i
    using that
  proof (induction "length (todo s) - i" arbitrary: i rule: less_induct)
    case less
    show ?case
    proof (rule ccontr)
      assume "todo s ! i \<noteq> []"
      then obtain e es where e: "todo s ! i = e # es" by (meson neq_Nil_conv)
      note d = sync_inv_at [OF inv less.prems e]
      have blocked: "do_event True s i e = None" using stuck [of i] e less.prems by (simp add: sync_step_def)
      show False
      proof (cases e)
        case (Join j)
        with d have "j \<in> joins (R i)" by simp
        with rights have "j \<in> {i<..<length (todo s)}" unfolding rights_ok_def by blast
        then have "i < j" "j < length (todo s)" by simp_all
        with less.hyps [of j] blocked Join show False by simp
      qed (use blocked d e less.prems no_waiter [OF inv stuck] in
          \<open>auto simp: waits_for_def held_def mode_in_def mutex_defs split: if_splits\<close>)
    qed
  qed
  with i show False by blast
qed

section \<open>Data races\<close>

definition accesses :: "event list \<Rightarrow> resource \<Rightarrow> bool" where
  "accesses es r \<longleftrightarrow> (case es of Read q # _ \<Rightarrow> q = r | Write q # _ \<Rightarrow> q = r | _ \<Rightarrow> False)"

definition writes :: "event list \<Rightarrow> resource \<Rightarrow> bool" where
  "writes es r \<longleftrightarrow> (case es of Write q # _ \<Rightarrow> q = r | _ \<Rightarrow> False)"

lemma exclusive_alone:
  "mutex_ok n m \<Longrightarrow> mode_in m i = Some Exclusive \<Longrightarrow> mode_in m j \<noteq> None \<Longrightarrow> i = j"
  by (auto simp: mutex_ok_def mode_in_def split: if_splits option.splits)

text \<open>Two threads about to access a value, one of them writing: then the other one reads it loosely.\<close>

lemma race_is_loose:
  assumes inv: "sync_inv R s" and rights: "rights_ok (length (todo s)) R"
    and ij: "i < length (todo s)" "j < length (todo s)" "i \<noteq> j"
    and acc: "writes (todo s ! i) r" "accesses (todo s ! j) r"
  shows "r \<in> loose_reads (R j) \<and> (\<exists>es. todo s ! j = Read r # es)"
proof (rule ccontr)
  assume not: "\<not> (r \<in> loose_reads (R j) \<and> (\<exists>es. todo s ! j = Read r # es))"
  from acc obtain es where i: "todo s ! i = Write r # es" by (auto simp: writes_def split: list.splits event.splits)
  from acc obtain es' where "todo s ! j = Read r # es' \<or> todo s ! j = Write r # es'"
    by (auto simp: accesses_def split: list.splits event.splits)
  moreover have "shared_writes (R j) \<subseteq> shared_locks (R j)" using rights unfolding rights_ok_def by blast
  ultimately have j: "held s j r = Some Exclusive \<or> held s j r = Some Shared_Mode \<and> r \<in> shared_locks (R j)"
    using sync_inv_at [OF inv ij(2) refl] not by auto
  have ok: "mutex_ok (length (todo s)) (mutexes s r)" using inv by (simp add: sync_inv_def)
  from sync_inv_at [OF inv ij(1) i]
  have "held s i r = Some Exclusive \<or> held s i r = Some Shared_Mode \<and> r \<in> shared_writes (R i)" by simp
  then show False
  proof
    assume "held s i r = Some Exclusive"
    with j ij(3) exclusive_alone [OF ok] show False by (auto simp: held_def)
  next
    assume sh: "held s i r = Some Shared_Mode \<and> r \<in> shared_writes (R i)"
    with j ij(3) exclusive_alone [OF ok, of j i] have "r \<in> shared_locks (R j)" by (auto simp: held_def)
    moreover have "shared_writes (R i) \<inter> shared_locks (R j) = {}" using rights ij(3) unfolding rights_ok_def by blast
    ultimately show False using sh by blast
  qed
qed

text \<open>A thread only ever does what it has to do from the start.\<close>

lemma sync_step_events: "sync_step prefer i s = Some t \<Longrightarrow> set (todo t ! j) \<subseteq> set (todo s ! j)"
  by (cases "j = i") (auto simp: sync_step_def split: if_splits list.splits)

section \<open>Every run ends\<close>

definition events_left :: "sync \<Rightarrow> nat" where
  "events_left s = sum_list (map length (todo s))"

lemma sync_step_left: "sync_step prefer i s = Some t \<Longrightarrow> events_left s = Suc (events_left t)"
  using elem_le_sum_list [of i "map length (todo s)"]
  by (auto simp: sync_step_def events_left_def map_update sum_list_update split: if_splits list.splits)

end
