(* ===== verification/Lock_Traces.thy ===== *)
theory Lock_Traces
  imports Shared_Data
begin

text \<open>
  What the functions of the program do to the mutexes and the values they guard, in the order of
  their statements. The arguments are the outcomes of the tests in the functions and the links that a
  loop runs over. Atomic variables need no mutex and do not appear.
\<close>

section \<open>Perfect links and their managers\<close>

definition Manager_Add_events :: "event list" where
  "Manager_Add_events = [Lock Perfect_Links, Write Perfect_Links, Unlock Perfect_Links]"

definition copy_links_events :: "event list" where
  "copy_links_events = [Lock_Shared Perfect_Links, Read Perfect_Links, Unlock_Shared Perfect_Links]"

definition PL_Send_events :: "u32 \<Rightarrow> event list" where
  "PL_Send_events pl = [Lock (Messages_To_Send pl), Write (Messages_To_Send pl), Unlock (Messages_To_Send pl)]"

definition PL_CleanAcks_events :: "bool \<Rightarrow> u32 \<Rightarrow> event list" where
  "PL_CleanAcks_events strong pl =
     [Lock_Shared (Messages_Delivered pl), Read (Messages_Delivered pl)] @
     (if strong then [] else [Write (Messages_Delivered pl)]) @
     [Unlock_Shared (Messages_Delivered pl),
      Lock (Acks_To_Send pl), Write (Acks_To_Send pl), Unlock (Acks_To_Send pl)]"

definition PL_SendAcks_events :: "bool \<Rightarrow> bool \<Rightarrow> u32 \<Rightarrow> event list" where
  "PL_SendAcks_events strong no_acks pl =
     [Lock_Shared (Acks_To_Send pl), Read (Acks_To_Send pl), Unlock_Shared (Acks_To_Send pl)] @
     (if no_acks then [] else PL_CleanAcks_events strong pl)"

definition PL_SendMessages_events :: "u32 \<Rightarrow> event list" where
  "PL_SendMessages_events pl =
     [Lock_Shared (Messages_To_Send pl), Read (Messages_To_Send pl), Unlock_Shared (Messages_To_Send pl)]"

text \<open>One turn of the loops of the two sending threads; \<open>pls\<close> are the links, each with whether its set of acks is empty.\<close>

definition Manager_SendAcks_events :: "bool \<Rightarrow> (u32 \<times> bool) list \<Rightarrow> event list" where
  "Manager_SendAcks_events strong pls = copy_links_events @ concat (map (\<lambda>(pl, no_acks). PL_SendAcks_events strong no_acks pl) pls)"

definition Manager_SendMessages_events :: "u32 list \<Rightarrow> event list" where
  "Manager_SendMessages_events pls = copy_links_events @ concat (map PL_SendMessages_events pls)"

text \<open>
  The link is looked up with \<^verbatim>\<open>operator[]\<close> under a shared lock, for a key that \<^verbatim>\<open>count\<close> has just found: nothing is
  inserted, so this is a read.
\<close>

definition BasicManager_Send_events :: "bool \<Rightarrow> u32 \<Rightarrow> event list" where
  "BasicManager_Send_events known receiver =
     [Lock_Shared Perfect_Links, Read Perfect_Links] @ (if known then PL_Send_events receiver @ [Log] else []) @
     [Unlock_Shared Perfect_Links]"

text \<open>The packet that \<^verbatim>\<open>Notify\<close> gets; \<open>up\<close> is what the manager does with a new message.\<close>

datatype notice =
    Bad_Packet
  | Old_Message
  | New_Message "event list"
  | Ack_Packet bool

fun PL_Notify_events :: "notice \<Rightarrow> u32 \<Rightarrow> event list" where
  "PL_Notify_events Bad_Packet pl = []"
| "PL_Notify_events Old_Message pl =
     [Lock (Acks_To_Send pl), Write (Acks_To_Send pl), Unlock (Acks_To_Send pl),
      Lock (Messages_Delivered pl), Read (Messages_Delivered pl), Unlock (Messages_Delivered pl),
      Lock (Messages_Delivered pl), Write (Messages_Delivered pl), Unlock (Messages_Delivered pl)]"
| "PL_Notify_events (New_Message up) pl =
     [Lock (Acks_To_Send pl), Write (Acks_To_Send pl), Unlock (Acks_To_Send pl),
      Lock (Messages_Delivered pl), Read (Messages_Delivered pl), Unlock (Messages_Delivered pl)] @ up @
     [Lock (Messages_Delivered pl), Write (Messages_Delivered pl), Unlock (Messages_Delivered pl)]"
| "PL_Notify_events (Ack_Packet found) pl =
     [Lock (Messages_To_Send pl), Read (Messages_To_Send pl)] @ (if found then [Write (Messages_To_Send pl)] else []) @
     [Unlock (Messages_To_Send pl)]"

definition BasicManager_Notify_events :: "event list" where
  "BasicManager_Notify_events = [Log]"

section \<open>The server\<close>

definition UDPServer_Attach_events :: "event list" where
  "UDPServer_Attach_events = [Lock Observers, Write Observers, Unlock Observers]"

text \<open>\<^verbatim>\<open>observers_.data[...]\<close> inserts a missing entry.\<close>

definition UDPServer_NotifyAll_events :: "bool \<Rightarrow> (notice \<times> u32) list \<Rightarrow> event list" where
  "UDPServer_NotifyAll_events missing obs =
     [Lock_Shared Observers, Read Observers] @ (if missing then [Write Observers] else []) @ [Unlock_Shared Observers] @
     concat (map (\<lambda>(n, pl). PL_Notify_events n pl) obs)"

section \<open>Broadcast\<close>

text \<open>
  The message is passed by reference; \<open>msg\<close> is what each access to it does to guarded values: nothing when
  it is a local variable of the thread.
\<close>

definition BEB_SendInternal_events :: "event list \<Rightarrow> u32 list \<Rightarrow> event list" where
  "BEB_SendInternal_events msg pls = copy_links_events @ msg @ concat (map PL_Send_events pls)"

definition URB_SendInternal_events :: "event list \<Rightarrow> u32 list \<Rightarrow> event list" where
  "URB_SendInternal_events msg pls =
     [Lock Pending_For_Delivery] @ msg @ [Write Pending_For_Delivery, Unlock Pending_For_Delivery] @
     BEB_SendInternal_events msg pls"

definition URB_Send_events :: "bool \<Rightarrow> u32 list \<Rightarrow> event list" where
  "URB_Send_events full pls = Log #
     (if full
      then [Lock_Shared Own_Pending_For_Broadcast, Write Own_Pending_For_Broadcast, Unlock_Shared Own_Pending_For_Broadcast]
      else URB_SendInternal_events [] pls)"

definition URB_NotifyInternal_events :: "bool \<Rightarrow> bool \<Rightarrow> u32 list \<Rightarrow> event list" where
  "URB_NotifyInternal_events not_delivered not_pending pls =
     [Lock_Shared Pending_For_Delivery, Read Pending_For_Delivery, Unlock_Shared Pending_For_Delivery,
      Lock_Shared Delivered, Read Delivered, Unlock_Shared Delivered] @
     (if not_delivered then
        [Lock Acks, Write Acks, Unlock Acks] @
        (if not_pending
         then [Lock Pending_For_Delivery, Write Pending_For_Delivery, Unlock Pending_For_Delivery] @
           BEB_SendInternal_events [] pls
         else [])
      else [])"

text \<open>
  One message of a turn of \<^verbatim>\<open>DeliverPending\<close>: whether it is delivered, whether the window moves and
  finds a queued message, and how many lines \<^verbatim>\<open>DeliverInternal\<close> writes.
\<close>

datatype window_move = No_Move | Empty_Queue | Popped "u32 list"

text \<open>
  The popped message is read through a reference to the element of the queue, after the mutex of the
  queue is released.
\<close>

fun move_window_events :: "window_move \<Rightarrow> event list" where
  "move_window_events No_Move = []"
| "move_window_events Empty_Queue =
     [Lock Own_Pending_For_Broadcast, Read Own_Pending_For_Broadcast, Unlock Own_Pending_For_Broadcast]"
| "move_window_events (Popped pls) =
     [Lock Own_Pending_For_Broadcast, Read Own_Pending_For_Broadcast, Write Own_Pending_For_Broadcast,
      Unlock Own_Pending_For_Broadcast] @ URB_SendInternal_events [Read Own_Pending_For_Broadcast] pls"

definition URB_deliver_one_events :: "(window_move \<times> nat) option \<Rightarrow> event list" where
  "URB_deliver_one_events outcome =
     [Lock Acks, Write Acks, Unlock Acks, Lock_Shared Delivered, Read Delivered, Unlock_Shared Delivered] @
     (case outcome of
        None \<Rightarrow> []
      | Some (move, lines) \<Rightarrow>
          [Lock Pending_For_Delivery, Write Pending_For_Delivery, Unlock Pending_For_Delivery] @
          move_window_events move @
          [Lock Delivered, Write Delivered, Unlock Delivered, Lock Acks, Write Acks, Unlock Acks] @
          replicate lines Log)"

definition URB_DeliverPending_events :: "(window_move \<times> nat) option list \<Rightarrow> event list" where
  "URB_DeliverPending_events outcomes =
     [Lock Pending_For_Delivery, Read Pending_For_Delivery, Unlock Pending_For_Delivery] @
     concat (map URB_deliver_one_events outcomes)"

section \<open>The signal handler\<close>

text \<open>Threads of the process: the main thread 0, the receiver 1, the acknowledging thread 2, the sender 3, the deliverer 4.\<close>

text \<open>
  \<^verbatim>\<open>StopExecution\<close> clears the switch of the manager and joins its threads, clears the switch of the server,
  shuts its socket down and joins its thread, and flushes the log.
\<close>

definition StopExecution_events :: "event list" where
  "StopExecution_events = [Switch_Off Manager_Switch, Join 2, Join 3, Join 4, Switch_Off Server_Switch,
     Shutdown_Socket, Join 1, Log]"

text \<open>The handler runs in the main thread, at any point, and does not return.\<close>

definition interrupt :: "sync \<Rightarrow> sync" where
  "interrupt s = s\<lparr>todo := (todo s)[0 := StopExecution_events]\<rparr>"

lemmas trace_defs = Manager_Add_events_def copy_links_events_def PL_Send_events_def PL_CleanAcks_events_def
  PL_SendAcks_events_def PL_SendMessages_events_def Manager_SendAcks_events_def Manager_SendMessages_events_def
  BasicManager_Send_events_def BasicManager_Notify_events_def UDPServer_Attach_events_def UDPServer_NotifyAll_events_def
  BEB_SendInternal_events_def URB_SendInternal_events_def URB_Send_events_def URB_NotifyInternal_events_def
  URB_deliver_one_events_def URB_DeliverPending_events_def StopExecution_events_def

section \<open>The threads of the program\<close>

definition program_rights :: "tid \<Rightarrow> thread_rights" where
  "program_rights i =
     (if i = 0 then \<lparr>shared_locks = {Perfect_Links, Own_Pending_For_Broadcast},
        shared_writes = {Own_Pending_For_Broadcast}, loose_reads = {}, joins = {1, 2, 3, 4}\<rparr>
      else if i = 1 then \<lparr>shared_locks = {Observers, Pending_For_Delivery, Delivered, Perfect_Links},
        shared_writes = {Observers}, loose_reads = {}, joins = {}\<rparr>
      else if i = 2 then \<lparr>shared_locks = {Perfect_Links} \<union> range Acks_To_Send \<union> range Messages_Delivered,
        shared_writes = range Messages_Delivered, loose_reads = {}, joins = {}\<rparr>
      else if i = 3 then \<lparr>shared_locks = {Perfect_Links} \<union> range Messages_To_Send, shared_writes = {},
        loose_reads = {}, joins = {}\<rparr>
      else if i = 4 then \<lparr>shared_locks = {Delivered, Perfect_Links}, shared_writes = {},
        loose_reads = {Own_Pending_For_Broadcast}, joins = {}\<rparr>
      else \<lparr>shared_locks = {}, shared_writes = {}, loose_reads = {}, joins = {}\<rparr>)"

lemma program_rights_ok: "rights_ok 5 program_rights"
  by (auto simp: rights_ok_def program_rights_def)

text \<open>What the manager does with a message that a link hands up.\<close>

definition up_events :: "event list set" where
  "up_events = {[], BasicManager_Notify_events} \<union> {URB_NotifyInternal_events d p pls |d p pls. True}"

definition notices :: "notice set" where
  "notices = {Bad_Packet, Old_Message, Ack_Packet True, Ack_Packet False} \<union> New_Message ` up_events"

definition program_ops :: "tid \<Rightarrow> event list set" where
  "program_ops i =
     (if i = 0 then {UDPServer_Attach_events, Manager_Add_events} \<union>
        {BasicManager_Send_events known receiver |known receiver. True} \<union> {URB_Send_events full pls |full pls. True}
      else if i = 1 then {UDPServer_NotifyAll_events missing obs |missing obs. fst ` set obs \<subseteq> notices}
      else if i = 2 then {Manager_SendAcks_events strong pls |strong pls. True}
      else if i = 3 then {Manager_SendMessages_events pls |pls. True}
      else if i = 4 then {URB_DeliverPending_events outcomes |outcomes. True}
      else {})"

definition program_start :: "sync \<Rightarrow> bool" where
  "program_start s \<longleftrightarrow> (\<exists>ts. s = sync_init ts \<and> length ts = 5 \<and>
     (\<forall>i < 5. \<exists>ops. set ops \<subseteq> program_ops i \<and> ts ! i = concat ops))"

section \<open>Every function keeps the discipline\<close>

lemma conforms_map:
  "(\<And>x. x \<in> set xs \<Longrightarrow> conforms R (f x)) \<Longrightarrow> conforms R (concat (map f xs))"
  by (rule conforms_concat) auto

lemma conforms_copy: "Perfect_Links \<in> shared_locks R \<Longrightarrow> conforms R copy_links_events"
  by (simp add: copy_links_events_def)

lemma conforms_PL_Send: "conforms R (PL_Send_events pl)"
  by (simp add: PL_Send_events_def)

text \<open>The accesses to the message are none, or the loose read of the queue.\<close>

definition msg_reads :: "thread_rights \<Rightarrow> event list \<Rightarrow> bool" where
  "msg_reads R msg \<longleftrightarrow> msg = [] \<or> msg = [Read Own_Pending_For_Broadcast] \<and> Own_Pending_For_Broadcast \<in> loose_reads R"

lemma msg_reads_Nil [simp]: "msg_reads R []"
  by (simp add: msg_reads_def)

lemma conforms_BEB_SendInternal:
  assumes "Perfect_Links \<in> shared_locks R" and "msg_reads R msg"
  shows "conforms R (BEB_SendInternal_events msg pls)"
proof -
  have "conforms R msg" using assms(2) by (auto simp: msg_reads_def)
  with assms(1) show ?thesis
    unfolding BEB_SendInternal_events_def by (intro disciplined_append conforms_copy conforms_map conforms_PL_Send)
qed

lemma conforms_URB_SendInternal:
  assumes "Perfect_Links \<in> shared_locks R" and "msg_reads R msg"
  shows "conforms R (URB_SendInternal_events msg pls)"
proof -
  have "conforms R ([Lock Pending_For_Delivery] @ msg @ [Write Pending_For_Delivery, Unlock Pending_For_Delivery])"
    using assms(2) by (auto simp: msg_reads_def)
  from disciplined_append [OF this conforms_BEB_SendInternal [OF assms]] show ?thesis
    by (simp add: URB_SendInternal_events_def)
qed

lemma conforms_main:
  assumes "es \<in> program_ops 0"
  shows "conforms (program_rights 0) es"
proof -
  let ?R = "program_rights 0"
  have r: "Perfect_Links \<in> shared_locks ?R" "Own_Pending_For_Broadcast \<in> shared_locks ?R"
    "Own_Pending_For_Broadcast \<in> shared_writes ?R"
    by (simp_all add: program_rights_def)
  have "conforms ?R (URB_Send_events full pls)" for full pls
    using r conforms_URB_SendInternal [OF r(1) msg_reads_Nil] by (simp add: URB_Send_events_def)
  moreover have "conforms ?R (BasicManager_Send_events known receiver)" for known receiver
    using r by (auto simp: BasicManager_Send_events_def PL_Send_events_def fun_upd_twist)
  moreover have "conforms ?R UDPServer_Attach_events" "conforms ?R Manager_Add_events"
    by (simp_all add: UDPServer_Attach_events_def Manager_Add_events_def)
  ultimately show ?thesis using assms by (auto simp: program_ops_def)
qed

lemma conforms_NotifyInternal: "conforms (program_rights 1) (URB_NotifyInternal_events d p pls)"
proof -
  have r: "Perfect_Links \<in> shared_locks (program_rights 1)" "Pending_For_Delivery \<in> shared_locks (program_rights 1)"
    "Delivered \<in> shared_locks (program_rights 1)"
    by (simp_all add: program_rights_def)
  show ?thesis using r(2,3) conforms_BEB_SendInternal [OF r(1) msg_reads_Nil, of pls] by (auto simp: URB_NotifyInternal_events_def)
qed

lemma conforms_PL_Notify:
  assumes "n \<in> notices"
  shows "conforms (program_rights 1) (PL_Notify_events n pl)"
proof -
  have "conforms (program_rights 1) up" if "up \<in> up_events" for up
    using that conforms_NotifyInternal by (auto simp: up_events_def BasicManager_Notify_events_def)
  moreover have "conforms (program_rights 1)
      [Lock (Messages_Delivered pl), Write (Messages_Delivered pl), Unlock (Messages_Delivered pl)]" by simp
  ultimately show ?thesis using assms by (auto simp: notices_def disciplined_append)
qed

lemma conforms_receiver:
  assumes "es \<in> program_ops 1"
  shows "conforms (program_rights 1) es"
proof -
  from assms obtain missing obs where es: "es = UDPServer_NotifyAll_events missing obs" and obs: "fst ` set obs \<subseteq> notices"
    by (auto simp: program_ops_def)
  have "conforms (program_rights 1) (concat (map (\<lambda>(n, pl). PL_Notify_events n pl) obs))"
    by (rule conforms_map) (use obs conforms_PL_Notify in auto)
  moreover have "Observers \<in> shared_locks (program_rights 1)" "Observers \<in> shared_writes (program_rights 1)"
    by (simp_all add: program_rights_def)
  ultimately show ?thesis by (simp add: es UDPServer_NotifyAll_events_def)
qed

lemma conforms_senders:
  "es \<in> program_ops 2 \<Longrightarrow> conforms (program_rights 2) es" "es \<in> program_ops 3 \<Longrightarrow> conforms (program_rights 3) es"
proof -
  have "conforms (program_rights 2) (PL_SendAcks_events strong no_acks pl)" for strong no_acks pl
    by (simp add: PL_SendAcks_events_def PL_CleanAcks_events_def program_rights_def)
  then have "conforms (program_rights 2) (concat (map (\<lambda>(pl, no_acks). PL_SendAcks_events strong no_acks pl) pls))"
    for strong pls by (intro conforms_map) auto
  then show "es \<in> program_ops 2 \<Longrightarrow> conforms (program_rights 2) es"
    by (auto simp: program_ops_def Manager_SendAcks_events_def program_rights_def intro!: disciplined_append conforms_copy)
  have "conforms (program_rights 3) (PL_SendMessages_events pl)" for pl
    by (simp add: PL_SendMessages_events_def program_rights_def)
  then have "conforms (program_rights 3) (concat (map PL_SendMessages_events pls))" for pls by (intro conforms_map)
  then show "es \<in> program_ops 3 \<Longrightarrow> conforms (program_rights 3) es"
    by (auto simp: program_ops_def Manager_SendMessages_events_def program_rights_def intro!: disciplined_append conforms_copy)
qed

lemma conforms_deliver_one: "conforms (program_rights 4) (URB_deliver_one_events outcome)"
proof -
  have r: "Perfect_Links \<in> shared_locks (program_rights 4)" "Delivered \<in> shared_locks (program_rights 4)"
    by (simp_all add: program_rights_def)
  have "msg_reads (program_rights 4) [Read Own_Pending_For_Broadcast]" by (simp add: msg_reads_def program_rights_def)
  then have "conforms (program_rights 4) (move_window_events move)" for move
    using conforms_URB_SendInternal [OF r(1)] by (cases move) simp_all
  moreover have "conforms (program_rights 4) (replicate n Log)" for n by (induction n) simp_all
  ultimately show ?thesis
    using r(2) by (cases outcome) (auto simp: URB_deliver_one_events_def intro!: disciplined_append)
qed

lemma conforms_deliverer:
  assumes "es \<in> program_ops 4"
  shows "conforms (program_rights 4) es"
  using assms conforms_map [of _ _ URB_deliver_one_events, OF conforms_deliver_one]
  by (auto simp: program_ops_def URB_DeliverPending_events_def intro!: disciplined_append)

lemma conforms_ops:
  assumes "es \<in> program_ops i"
  shows "conforms (program_rights i) es"
proof -
  from assms have "i \<in> {0, 1, 2, 3, 4}" by (auto simp: program_ops_def split: if_splits)
  with assms conforms_main conforms_receiver conforms_senders conforms_deliverer show ?thesis by blast
qed

end
