(* ===== verification/Lock_Properties.thy ===== *)
theory Lock_Properties
  imports Lock_Traces
begin

text \<open>
  The synchronisation of the whole program: its threads run any number of their operations in any
  interleaving.
\<close>

section \<open>Runs\<close>

lemma program_start_inv:
  assumes "program_start s"
  shows "sync_inv program_rights s \<and> length (todo s) = 5"
proof -
  from assms obtain ts where s: "s = sync_init ts" "length ts = 5"
    and ops: "\<And>i. i < 5 \<Longrightarrow> \<exists>ops. set ops \<subseteq> program_ops i \<and> ts ! i = concat ops"
    by (auto simp: program_start_def)
  have "conforms (program_rights i) (ts ! i)" if i: "i < length ts" for i
  proof -
    obtain ops where "set ops \<subseteq> program_ops i" "ts ! i = concat ops" using ops [of i] i s(2) by auto
    then show ?thesis using conforms_ops by (auto intro!: conforms_concat)
  qed
  then show ?thesis using sync_init_inv [of ts program_rights] s by (simp add: sync_init_def)
qed

interpretation lock_runs: invariant program_start sync_next "\<lambda>s. sync_inv program_rights s \<and> length (todo s) = 5"
proof unfold_locales
  fix s t assume "sync_inv program_rights s \<and> length (todo s) = 5" and "sync_next s t"
  then show "sync_inv program_rights t \<and> length (todo t) = 5"
    unfolding sync_next_def using sync_inv_step by metis
qed (rule program_start_inv)

text \<open>The queue is written by the main thread and by the deliverer only.\<close>

definition queue_left_alone :: "sync \<Rightarrow> bool" where
  "queue_left_alone s \<longleftrightarrow> (\<forall>i \<in> {1, 2, 3}. Write Own_Pending_For_Broadcast \<notin> set (todo s ! i))"

lemma ops_leave_queue:
  assumes "es \<in> program_ops i" and "i \<in> {1, 2, 3}"
  shows "Write Own_Pending_For_Broadcast \<notin> set es"
proof -
  have n: "Write Own_Pending_For_Broadcast \<notin> set (PL_Notify_events n pl)" if "n \<in> notices" for n pl
    using that by (auto simp: notices_def up_events_def trace_defs)
  have a: "Write Own_Pending_For_Broadcast \<notin> set (PL_SendAcks_events strong x pl)" for strong x pl
    by (simp add: trace_defs)
  have m: "Write Own_Pending_For_Broadcast \<notin> set (PL_SendMessages_events pl)" for pl by (simp add: trace_defs)
  consider "i = 1" | "i = 2" | "i = 3" using assms(2) by auto
  then show ?thesis
  proof cases
    case 1
    with assms(1) obtain missing obs where "es = UDPServer_NotifyAll_events missing obs" "fst ` set obs \<subseteq> notices"
      by (auto simp: program_ops_def)
    then show ?thesis using n by (fastforce simp: UDPServer_NotifyAll_events_def)
  next
    case 2
    then show ?thesis using assms(1) a by (auto simp: program_ops_def Manager_SendAcks_events_def copy_links_events_def)
  next
    case 3
    then show ?thesis using assms(1) m by (auto simp: program_ops_def Manager_SendMessages_events_def copy_links_events_def)
  qed
qed

interpretation queue_runs: invariant program_start sync_next queue_left_alone
proof unfold_locales
  fix s assume "program_start s"
  then obtain ts where s: "s = sync_init ts" and ops: "\<And>i. i < 5 \<Longrightarrow> \<exists>ops. set ops \<subseteq> program_ops i \<and> ts ! i = concat ops"
    by (auto simp: program_start_def)
  have "Write Own_Pending_For_Broadcast \<notin> set (ts ! i)" if i: "i \<in> {1, 2, 3}" for i
  proof -
    have "i < 5" using i by auto
    then obtain ops where "set ops \<subseteq> program_ops i" "ts ! i = concat ops" using ops by blast
    then show ?thesis using ops_leave_queue [OF _ i] by auto
  qed
  then show "queue_left_alone s" by (simp add: queue_left_alone_def s sync_init_def)
next
  fix s t assume "queue_left_alone s" and "sync_next s t"
  then show "queue_left_alone t"
    using sync_step_events unfolding queue_left_alone_def sync_next_def by (meson subsetD)
qed

section \<open>Executions\<close>

text \<open>The main thread broadcasts a message to process 2 while the sending thread makes a turn.\<close>

definition ex_sending :: sync where
  "ex_sending = sync_init [URB_Send_events False [2], [], [], Manager_SendMessages_events [2], []]"

text \<open>The main thread holds the mutex of the messages of the link, and the signal arrives.\<close>

definition ex_signalled :: sync where
  "ex_signalled = the (sync_run (replicate 3 3 @ replicate 8 0) ex_sending)"

definition ex_hanging :: sync where
  "ex_hanging = the (sync_run [0, 0] (interrupt ex_signalled))"

text \<open>The main thread broadcasts while the deliverer delivers a message.\<close>

definition ex_logging :: sync where
  "ex_logging = sync_init [URB_Send_events True [], [], [], [], URB_DeliverPending_events [Some (No_Move, 1)]]"

definition ex_both_log :: sync where
  "ex_both_log = the (sync_run (replicate 18 4) ex_logging)"

text \<open>The main thread pushes a message while the deliverer sends the one it has popped.\<close>

definition ex_popping :: sync where
  "ex_popping = sync_init [URB_Send_events True [], [], [], [], URB_DeliverPending_events [Some (Popped [], 1)]]"

definition ex_racing :: sync where
  "ex_racing = the (sync_run (replicate 17 4 @ replicate 2 0) ex_popping)"

lemmas ex_sync_defs = sync_step_def sync_init_def trace_defs mutex_defs numeral_eq_Suc

lemma program_startI:
  assumes "length ts = 5" and "\<And>i. i < 5 \<Longrightarrow> ts ! i \<in> program_ops i \<or> ts ! i = []"
  shows "program_start (sync_init ts)"
proof -
  have "\<exists>ops. set ops \<subseteq> program_ops i \<and> ts ! i = concat ops" if "i < 5" for i
    using assms(2) [OF that]
    by (cases "ts ! i = []") (auto intro: exI [of _ "[]"] exI [of _ "[ts ! i]"])
  with assms(1) show ?thesis by (auto simp: program_start_def)
qed

lemma less_five: "(i :: nat) < 5 \<Longrightarrow> i = 0 \<or> i = 1 \<or> i = 2 \<or> i = 3 \<or> i = 4"
  by linarith

lemma ex_sync_start: "program_start ex_sending" "program_start ex_logging" "program_start ex_popping"
  unfolding ex_sending_def ex_logging_def ex_popping_def
  by (rule program_startI; auto simp: program_ops_def dest!: less_five)+

lemma ex_sync_runs:
  "sync_run (replicate 3 3 @ replicate 8 0) ex_sending = Some ex_signalled"
  "sync_run [0, 0] (interrupt ex_signalled) = Some ex_hanging"
  "sync_run (replicate 18 4) ex_logging = Some ex_both_log"
  "sync_run (replicate 17 4 @ replicate 2 0) ex_popping = Some ex_racing"
  by (simp_all add: ex_signalled_def ex_hanging_def ex_both_log_def ex_racing_def ex_sending_def ex_logging_def ex_popping_def
      interrupt_def ex_sync_defs)


lemma ex_sync_reachable:
  "reachable program_start sync_next ex_signalled" "reachable program_start sync_next ex_both_log"
  "reachable program_start sync_next ex_racing"
  using reachable_steps [OF reachable_init [of program_start, OF ex_sync_start(1)] sync_run_steps [OF ex_sync_runs(1)]]
    reachable_steps [OF reachable_init [of program_start, OF ex_sync_start(2)] sync_run_steps [OF ex_sync_runs(3)]]
    reachable_steps [OF reachable_init [of program_start, OF ex_sync_start(3)] sync_run_steps [OF ex_sync_runs(4)]]
  by simp_all

section \<open>Properties\<close>

text \<open>
  C19: The locking discipline of the program. Whatever its branches and loops do, each operation of each of
  the five threads locks and unlocks in pairs, ends holding no mutex, locks a second mutex only
  above the first in a fixed order (which happens only in \<^verbatim>\<open>BasicManager::Send\<close>), reads and writes the
  guarded values under their mutex, and writes under a shared lock at most the values that no other
  thread ever locks shared. There is one exception, which the rights of the deliverer name: it reads
  the message that it has popped from the queue after it has released the mutex of the queue.
\<close>

theorem program_disciplined:
  assumes "es \<in> program_ops i"
  shows "conforms (program_rights i) es \<and> rights_ok 5 program_rights \<and>
    loose_reads (program_rights i) \<subseteq> (if i = 4 then {Own_Pending_For_Broadcast} else {})"
  using conforms_ops [OF assms] program_rights_ok by (simp add: program_rights_def)

theorem program_disciplined_witness:
  "conforms (program_rights 0) (BasicManager_Send_events True 2) \<and> rights_ok 5 program_rights"
proof -
  have "BasicManager_Send_events True 2 \<in> program_ops 0" by (auto simp: program_ops_def)
  from program_disciplined [OF this] show ?thesis by blast
qed

text \<open>
  C14: No deadlock. In every reachable state in which some thread has not completed its operations some
  thread can take its next step, also if a mutex makes readers wait as soon as a writer waits.
\<close>

theorem program_no_deadlock:
  assumes "reachable program_start sync_next s" and "i < 5" and "todo s ! i \<noteq> []"
  shows "\<exists>j t. sync_step True j s = Some t"
  by (rule not_stuck [of program_rights s i]) (use lock_runs.reachable_inv [OF assms(1)] program_rights_ok assms(2,3) in auto)

theorem program_no_deadlock_witness: "\<exists>j t. sync_step True j ex_signalled = Some t"
  by (rule program_no_deadlock [OF ex_sync_reachable(1), of 0])
    (simp_all add: ex_signalled_def ex_sending_def ex_sync_defs)

text \<open>
  C15: The only data race on a guarded value. If in some reachable state two threads are about to access
  the same value of a \<^verbatim>\<open>Shared\<close>, one of them writing, then the value is the queue of own messages, the
  main thread is about to push in \<^verbatim>\<open>Send\<close>, and the deliverer is about to read the message it has
  popped. In particular the three places that write under a shared lock - the push in \<^verbatim>\<open>Send\<close>, the
  erasure in \<^verbatim>\<open>CleanAcks\<close> and the insertion in \<^verbatim>\<open>NotifyAll\<close> - do no harm among themselves, because all other
  threads lock these values exclusively. (The lookup with \<^verbatim>\<open>operator[]\<close> in \<^verbatim>\<open>BasicManager::Send\<close>, also
  under a shared lock, inserts nothing and counts as a read.)
\<close>

theorem program_data_races:
  assumes "reachable program_start sync_next s" and "i < 5" and "j < 5" and "i \<noteq> j"
    and "writes (todo s ! i) r" and "accesses (todo s ! j) r"
  shows "r = Own_Pending_For_Broadcast \<and> i = 0 \<and> j = 4 \<and> hd (todo s ! 4) = Read Own_Pending_For_Broadcast"
proof -
  have inv: "sync_inv program_rights s" "length (todo s) = 5" using lock_runs.reachable_inv [OF assms(1)] by auto
  from race_is_loose [OF inv(1) _ _ _ assms(4-6)] inv(2) program_rights_ok assms(2,3)
  have loose: "r \<in> loose_reads (program_rights j)" "\<exists>es. todo s ! j = Read r # es" by auto
  from loose(1) have j: "r = Own_Pending_For_Broadcast" "j = 4" by (auto simp: program_rights_def split: if_splits)
  have "Write r \<in> set (todo s ! i)" using assms(5) by (auto simp: writes_def split: list.splits event.splits)
  then have "i \<notin> {1, 2, 3}" using queue_runs.reachable_inv [OF assms(1)] j(1) unfolding queue_left_alone_def by blast
  with assms(2,4) j loose(2) show ?thesis by auto
qed

theorem program_data_races_witness:
  "writes (todo ex_racing ! 0) Own_Pending_For_Broadcast \<and> hd (todo ex_racing ! 4) = Read Own_Pending_For_Broadcast"
proof -
  have "writes (todo ex_racing ! 0) Own_Pending_For_Broadcast" "accesses (todo ex_racing ! 4) Own_Pending_For_Broadcast"
    by (simp_all add: writes_def accesses_def ex_racing_def ex_popping_def ex_sync_defs)
  with program_data_races [OF ex_sync_reachable(3) _ _ _ this] show ?thesis by simp
qed



text \<open>
  The log is written without synchronisation. In a reachable state the main thread in \<^verbatim>\<open>Send\<close> and the
  deliverer in \<^verbatim>\<open>DeliverInternal\<close> are both about to write to the same \<^verbatim>\<open>std::ofstream\<close>, and no mutex is held:
  nothing orders the two writes.
\<close>

lemma Logger_unsynchronised:
  "reachable program_start sync_next ex_both_log \<and> hd (todo ex_both_log ! 0) = Log \<and> hd (todo ex_both_log ! 4) = Log \<and>
   (\<forall>i r. held ex_both_log i r = None)"
proof -
  have "held ex_both_log i r = None" for i r
    by (simp add: held_def mode_in_def ex_both_log_def ex_logging_def ex_sync_defs)
  moreover have "hd (todo ex_both_log ! 0) = Log \<and> hd (todo ex_both_log ! 4) = Log"
    by (simp add: ex_both_log_def ex_logging_def ex_sync_defs)
  ultimately show ?thesis using ex_sync_reachable(2) by blast
qed

end
