(* ===== verification/Lock_Shutdown.thy ===== *)
theory Lock_Shutdown
  imports Lock_Properties
begin

text \<open>
  How the signal handler ends the threads: their loops run while a switch is on, the handler clears the
  switches, shuts the socket down and joins. A thread makes any number of turns of its loop, each one
  of the operations of \<open>program_ops\<close>; the receiver waits in \<^verbatim>\<open>recvfrom\<close> in between.
\<close>

section \<open>Loops and switches\<close>

record live =
  lv_sync :: sync
  lv_off :: "switch set"
  lv_shut :: bool
  lv_recv :: bool
  lv_ended :: "tid set"

fun loop_switch :: "tid \<Rightarrow> switch" where
  "loop_switch i = (if i = 1 then Server_Switch else Manager_Switch)"

definition begin_turn :: "tid \<Rightarrow> event list \<Rightarrow> sync \<Rightarrow> sync" where
  "begin_turn i es s = s\<lparr>todo := (todo s)[i := es]\<rparr>"

text \<open>What an event does to the switches and the socket.\<close>

fun switch_event :: "event \<Rightarrow> live \<Rightarrow> live" where
  "switch_event (Switch_Off sw) s = s\<lparr>lv_off := insert sw (lv_off s)\<rparr>"
| "switch_event Shutdown_Socket s = s\<lparr>lv_shut := True\<rparr>"
| "switch_event _ s = s"

text \<open>
  The steps: an event of a thread, where \<^verbatim>\<open>join\<close> waits for the end of the thread; a turn of the loop
  \<^verbatim>\<open>while (on_.load())\<close> of the manager's threads; the receiver enters \<^verbatim>\<open>recvfrom\<close>; it gets a datagram, or
  returns with nothing once the socket is shut down; a thread finds its switch off and ends. The
  argument tells whether the step is the arrival of a datagram.
\<close>

inductive live_step :: "bool \<Rightarrow> live \<Rightarrow> live \<Rightarrow> bool" where
  lv_event: "todo (lv_sync s) ! i = e # es \<Longrightarrow> sync_step prefer i (lv_sync s) = Some y \<Longrightarrow>
     (\<And>j. e = Join j \<Longrightarrow> j \<in> lv_ended s) \<Longrightarrow> live_step False s (switch_event e (s\<lparr>lv_sync := y\<rparr>))"
| lv_turn: "i \<in> {2, 3, 4} \<Longrightarrow> i \<notin> lv_ended s \<Longrightarrow> todo (lv_sync s) ! i = [] \<Longrightarrow> loop_switch i \<notin> lv_off s \<Longrightarrow>
     es \<in> program_ops i \<Longrightarrow> live_step False s (s\<lparr>lv_sync := begin_turn i es (lv_sync s)\<rparr>)"
| lv_enter: "1 \<notin> lv_ended s \<Longrightarrow> todo (lv_sync s) ! 1 = [] \<Longrightarrow> \<not> lv_recv s \<Longrightarrow> loop_switch 1 \<notin> lv_off s \<Longrightarrow>
     live_step False s (s\<lparr>lv_recv := True\<rparr>)"
| lv_datagram: "lv_recv s \<Longrightarrow> es \<in> program_ops 1 \<Longrightarrow>
     live_step True s (s\<lparr>lv_recv := False, lv_sync := begin_turn 1 es (lv_sync s)\<rparr>)"
| lv_nothing: "lv_recv s \<Longrightarrow> lv_shut s \<Longrightarrow> live_step False s (s\<lparr>lv_recv := False\<rparr>)"
| lv_leave: "i \<in> {1, 2, 3, 4} \<Longrightarrow> i \<notin> lv_ended s \<Longrightarrow> todo (lv_sync s) ! i = [] \<Longrightarrow> (i = 1 \<longrightarrow> \<not> lv_recv s) \<Longrightarrow>
     loop_switch i \<in> lv_off s \<Longrightarrow> live_step False s (s\<lparr>lv_ended := insert i (lv_ended s)\<rparr>)"

inductive_cases live_stepE: "live_step b s t"

definition live_next :: "live \<Rightarrow> live \<Rightarrow> bool" where
  "live_next s t \<longleftrightarrow> (\<exists>b. live_step b s t)"

text \<open>The threads have been started; the main thread has any of its operations before it.\<close>

definition live_start :: "live \<Rightarrow> bool" where
  "live_start s \<longleftrightarrow> (\<exists>ops. set ops \<subseteq> program_ops 0 \<and>
     s = \<lparr>lv_sync = sync_init [concat ops, [], [], [], []], lv_off = {}, lv_shut = False, lv_recv = False, lv_ended = {}\<rparr>)"

text \<open>The signal arrives: the main thread is in the handler from now on.\<close>

definition signal :: "live \<Rightarrow> live" where
  "signal s = s\<lparr>lv_sync := interrupt (lv_sync s)\<rparr>"

section \<open>The invariant\<close>

definition live_inv :: "live \<Rightarrow> bool" where
  "live_inv s \<longleftrightarrow> sync_inv program_rights (lv_sync s) \<and> length (todo (lv_sync s)) = 5 \<and>
     (\<forall>i \<in> lv_ended s. todo (lv_sync s) ! i = []) \<and> lv_ended s \<subseteq> {1, 2, 3, 4} \<and>
     (lv_recv s \<longrightarrow> todo (lv_sync s) ! 1 = [] \<and> 1 \<notin> lv_ended s)"

lemma begin_turn_inv:
  assumes inv: "sync_inv program_rights s" and i: "i < length (todo s)" "todo s ! i = []" and es: "es \<in> program_ops i"
  shows "sync_inv program_rights (begin_turn i es s)" "length (todo (begin_turn i es s)) = length (todo s)"
proof -
  have held: "held (begin_turn i es s) j = held s j" for j by (simp add: held_def begin_turn_def)
  have "held s i = Map.empty" using sync_inv_at [OF inv i] by simp
  then have mine: "disciplined (program_rights i) (held s i) es" using conforms_ops [OF es] by simp
  have "disciplined (program_rights j) (held s j) (todo (begin_turn i es s) ! j)" if "j < length (todo s)" for j
    using mine sync_inv_at [OF inv that refl] i(1) by (cases "j = i") (simp_all add: begin_turn_def)
  with inv show "sync_inv program_rights (begin_turn i es s)"
    unfolding sync_inv_def held by (simp add: begin_turn_def)
  show "length (todo (begin_turn i es s)) = length (todo s)" by (simp add: begin_turn_def)
qed

lemma switch_event_sel [simp]:
  "lv_sync (switch_event e s) = lv_sync s" "lv_ended (switch_event e s) = lv_ended s" "lv_recv (switch_event e s) = lv_recv s"
  by (induction e) simp_all

lemma sync_step_todo:
  assumes "sync_step prefer i s = Some t"
  shows "i < length (todo s) \<and> (\<exists>e es. todo s ! i = e # es \<and> todo t = (todo s)[i := es])"
  using assms by (auto simp: sync_step_def split: if_splits list.splits)

lemma live_inv_step:
  assumes inv: "live_inv s" and step: "live_step b s t"
  shows "live_inv t"
  using step
proof cases
  case (lv_event i e es pf y)
  have sync: "sync_inv program_rights (lv_sync s)" using inv by (simp add: live_inv_def)
  note y = sync_inv_step [OF sync lv_event(4)]
  from sync_step_todo [OF lv_event(4)] obtain e' es' where td: "i < length (todo (lv_sync s))"
    "todo (lv_sync s) ! i = e' # es'" "todo y = (todo (lv_sync s))[i := es']" by blast
  have keep: "todo y ! k = []" if "todo (lv_sync s) ! k = []" for k
    using td that by (cases "k = i") auto
  with inv y show ?thesis unfolding lv_event(2) live_inv_def by simp
next
  case (lv_turn i es)
  then have "i < length (todo (lv_sync s))" "i \<noteq> 1" using inv by (auto simp: live_inv_def)
  with begin_turn_inv [of "lv_sync s" i es] lv_turn inv show ?thesis
    by (auto simp: live_inv_def) (auto simp: begin_turn_def nth_list_update)
next
  case (lv_datagram es)
  then have "1 < length (todo (lv_sync s))" "todo (lv_sync s) ! 1 = []" "1 \<notin> lv_ended s" using inv by (auto simp: live_inv_def)
  with begin_turn_inv [of "lv_sync s" 1 es] lv_datagram inv show ?thesis
    by (auto simp: live_inv_def) (auto simp: begin_turn_def nth_list_update)
qed (use inv in \<open>auto simp: live_inv_def\<close>)

interpretation live_runs: invariant live_start live_next live_inv
proof unfold_locales
  fix s assume "live_start s"
  then obtain ops where ops: "set ops \<subseteq> program_ops 0" and
    s: "s = \<lparr>lv_sync = sync_init [concat ops, [], [], [], []], lv_off = {}, lv_shut = False, lv_recv = False, lv_ended = {}\<rparr>"
    by (auto simp: live_start_def)
  have "conforms (program_rights 0) (concat ops)" using ops conforms_ops by (auto intro!: conforms_concat)
  then have "sync_inv program_rights (sync_init [concat ops, [], [], [], []])"
    by (intro sync_init_inv) (auto simp: less_Suc_eq numeral_eq_Suc)
  then show "live_inv s" by (simp add: s live_inv_def sync_init_def)
next
  fix s t assume "live_inv s" and "live_next s t"
  then show "live_inv t" using live_inv_step by (auto simp: live_next_def)
qed

section \<open>The handler\<close>

text \<open>The events with which one thread acts on the loops of others; only the handler has them.\<close>

fun stops :: "event \<Rightarrow> bool" where
  "stops (Switch_Off sw) = True"
| "stops Shutdown_Socket = True"
| "stops (Join j) = True"
| "stops _ = False"

definition plain :: "tid set \<Rightarrow> live \<Rightarrow> bool" where
  "plain K s \<longleftrightarrow> (\<forall>i \<in> K. \<forall>e \<in> set (todo (lv_sync s) ! i). \<not> stops e)"

lemma ops_plain:
  assumes "es \<in> program_ops i" and "e \<in> set es"
  shows "\<not> stops e"
proof -
  have n: "\<not> stops e" if "n \<in> notices" "e \<in> set (PL_Notify_events n pl)" for n pl e
    using that by (auto simp: notices_def up_events_def trace_defs split: if_splits)
  have a: "\<not> stops e" if "e \<in> set (PL_SendAcks_events strong x pl)" for strong x pl e
    using that by (auto simp: trace_defs split: if_splits)
  have d: "\<not> stops e" if "e \<in> set (URB_deliver_one_events x)" for x e
  proof -
    have "\<not> stops e" if "e \<in> set (move_window_events w)" for w e
      using that by (cases w) (auto simp: trace_defs)
    with that show ?thesis by (auto simp: URB_deliver_one_events_def split: option.splits)
  qed
  from assms(1) have "i \<in> {0, 1, 2, 3, 4}" by (auto simp: program_ops_def split: if_splits)
  then consider "i = 0" | "i = 1" | "i = 2" | "i = 3" | "i = 4" by auto
  then show ?thesis
  proof cases
    case 1
    with assms show ?thesis by (auto simp: program_ops_def trace_defs split: if_splits)
  next
    case 2
    with assms(1) obtain missing obs where "es = UDPServer_NotifyAll_events missing obs" "fst ` set obs \<subseteq> notices"
      by (auto simp: program_ops_def)
    with assms(2) n show ?thesis by (fastforce simp: UDPServer_NotifyAll_events_def split: if_splits)
  next
    case 3
    with assms a show ?thesis by (auto simp: program_ops_def Manager_SendAcks_events_def copy_links_events_def)
  next
    case 4
    with assms show ?thesis
      by (auto simp: program_ops_def Manager_SendMessages_events_def PL_SendMessages_events_def copy_links_events_def)
  next
    case 5
    with assms d show ?thesis by (auto simp: program_ops_def URB_DeliverPending_events_def)
  qed
qed

lemma begin_turn_todo: "todo (begin_turn i es s) ! j = (if j = i \<and> i < length (todo s) then es else todo s ! j)"
  by (cases "i < length (todo s)") (auto simp: begin_turn_def nth_list_update list_update_beyond)

lemma plain_step:
  assumes "plain K s" and "live_step b s t"
  shows "plain K t"
  using assms(2)
proof cases
  case (lv_event i e es pf y)
  have "set (todo y ! k) \<subseteq> set (todo (lv_sync s) ! k)" for k by (rule sync_step_events [OF lv_event(4)])
  with assms(1) show ?thesis unfolding lv_event(2) plain_def by (simp add: subset_iff)
next
  case (lv_turn i es)
  with assms(1) ops_plain [OF lv_turn(7)] show ?thesis by (auto simp: plain_def begin_turn_todo)
next
  case (lv_datagram es)
  with assms(1) ops_plain [OF lv_datagram(4)] show ?thesis by (auto simp: plain_def begin_turn_todo)
qed (use assms(1) in \<open>simp_all add: plain_def\<close>)

text \<open>The handler has done the first \<open>n\<close> of its events.\<close>

definition handler_at :: "nat \<Rightarrow> live \<Rightarrow> bool" where
  "handler_at n s \<longleftrightarrow> (let past = set (take n StopExecution_events) in
     todo (lv_sync s) ! 0 = drop n StopExecution_events \<and>
     lv_off s = {sw. Switch_Off sw \<in> past} \<and> (lv_shut s \<longleftrightarrow> Shutdown_Socket \<in> past) \<and>
     {j. Join j \<in> past} \<subseteq> lv_ended s)"

definition stop_inv :: "live \<Rightarrow> bool" where
  "stop_inv s \<longleftrightarrow> live_inv s \<and> plain {1, 2, 3, 4} s \<and> (\<exists>n. handler_at n s)"

lemma handler_event:
  assumes "handler_at n s" and "todo (lv_sync s) ! 0 = e # es" and "todo y ! 0 = es"
    and "\<And>j. e = Join j \<Longrightarrow> j \<in> lv_ended s"
  shows "handler_at (Suc n) (switch_event e (s\<lparr>lv_sync := y\<rparr>))"
proof -
  let ?S = StopExecution_events
  have d: "drop n ?S = e # es" using assms(1,2) by (simp add: handler_at_def Let_def)
  then have n: "n < length ?S" by (metis drop_all linorder_not_le list.distinct(1))
  with d have e: "e = ?S ! n" "es = drop (Suc n) ?S" using Cons_nth_drop_Suc [OF n] by simp_all
  then have past: "set (take (Suc n) ?S) = insert e (set (take n ?S))" using n by (simp add: take_Suc_conv_app_nth)
  show ?thesis
    unfolding handler_at_def Let_def past
    using assms(1,3,4) e(2) unfolding handler_at_def Let_def by (cases e) auto
qed

lemma handler_other:
  assumes "handler_at n s" and "todo (lv_sync t) ! 0 = todo (lv_sync s) ! 0" and "lv_off t = lv_off s"
    and "lv_shut t = lv_shut s" and "lv_ended s \<subseteq> lv_ended t"
  shows "handler_at n t"
  using assms by (auto simp: handler_at_def Let_def)

lemma stop_inv_step:
  assumes inv: "stop_inv s" and step: "live_step b s t"
  shows "stop_inv t"
proof -
  from inv obtain n where live: "live_inv s" and pl: "plain {1, 2, 3, 4} s" and n: "handler_at n s"
    by (auto simp: stop_inv_def)
  have "\<exists>m. handler_at m t"
    using step
  proof cases
    case (lv_event i e es pf y)
    from sync_step_todo [OF lv_event(4)] lv_event(3) have td: "i < length (todo (lv_sync s))" "todo y = (todo (lv_sync s))[i := es]"
      by auto
    show ?thesis
    proof (cases "i = 0")
      case True
      with handler_event [OF n, of e es y] lv_event(2,3,5) td show ?thesis by auto
    next
      case False
      then have "i \<in> {1, 2, 3, 4}" using td(1) live by (auto simp: live_inv_def)
      then have "\<not> stops e" using pl lv_event(3) unfolding plain_def by (metis list.set_intros(1))
      then have "t = s\<lparr>lv_sync := y\<rparr>" using lv_event(2) by (cases e) simp_all
      with handler_other [OF n, of t] td False show ?thesis by auto
    qed
  next
    case (lv_turn i es)
    then show ?thesis using handler_other [OF n, of t] by (auto simp: begin_turn_todo)
  next
    case (lv_datagram es)
    then show ?thesis using handler_other [OF n, of t] by (auto simp: begin_turn_todo)
  qed (use handler_other [OF n, of t] in auto)
  with live_inv_step [OF live step] plain_step [OF pl step] show ?thesis by (auto simp: stop_inv_def)
qed

text \<open>Before the signal all switches are on.\<close>

definition all_on :: "live \<Rightarrow> bool" where
  "all_on s \<longleftrightarrow> live_inv s \<and> plain {0, 1, 2, 3, 4} s \<and> lv_off s = {} \<and> \<not> lv_shut s"

interpretation on_runs: invariant live_start live_next all_on
proof unfold_locales
  fix s assume st: "live_start s"
  then obtain ops where ops: "set ops \<subseteq> program_ops 0" and
    s: "s = \<lparr>lv_sync = sync_init [concat ops, [], [], [], []], lv_off = {}, lv_shut = False, lv_recv = False, lv_ended = {}\<rparr>"
    by (auto simp: live_start_def)
  have "\<not> stops e" if "e \<in> set (concat ops)" for e using ops ops_plain that by auto
  then show "all_on s" using live_runs.inv_init [OF st] by (auto simp: all_on_def plain_def s sync_init_def)
next
  fix s t assume inv: "all_on s" and "live_next s t"
  then obtain b where step: "live_step b s t" by (auto simp: live_next_def)
  have live: "live_inv s" and pl: "plain {0, 1, 2, 3, 4} s" using inv by (simp_all add: all_on_def)
  have "lv_off t = {} \<and> \<not> lv_shut t"
    using step
  proof cases
    case (lv_event i e es pf y)
    have "i < length (todo (lv_sync s))" using sync_step_todo [OF lv_event(4)] by blast
    then have "i \<in> {0, 1, 2, 3, 4}" using live by (auto simp: live_inv_def)
    then have "\<not> stops e" using pl lv_event(3) unfolding plain_def by (metis list.set_intros(1))
    then show ?thesis using lv_event(2) inv by (cases e) (simp_all add: all_on_def)
  qed (use inv in \<open>auto simp: all_on_def\<close>)
  with live_inv_step [OF live step] plain_step [OF pl step] show "all_on t" by (simp add: all_on_def)
qed

lemma signal_inv:
  assumes on: "all_on s" and free: "held (lv_sync s) 0 = Map.empty"
  shows "stop_inv (signal s)"
proof -
  let ?y = "lv_sync s"
  have live: "live_inv s" using on by (simp add: all_on_def)
  have held: "held (interrupt ?y) j = held ?y j" for j by (simp add: held_def interrupt_def)
  have "conforms (program_rights 0) StopExecution_events" by (simp add: StopExecution_events_def program_rights_def)
  then have "disciplined (program_rights j) (held ?y j) (todo (interrupt ?y) ! j)" if "j < length (todo ?y)" for j
    using free sync_inv_at [OF _ that refl, of program_rights] live that
    by (cases "j = 0") (simp_all add: interrupt_def live_inv_def)
  then have "sync_inv program_rights (interrupt ?y)"
    using live unfolding sync_inv_def held by (auto simp: interrupt_def live_inv_def sync_inv_def)
  moreover have td: "todo (interrupt ?y) ! j = todo ?y ! j" if "j \<noteq> 0" for j using that by (simp add: interrupt_def)
  moreover have "todo (interrupt ?y) ! 0 = StopExecution_events" "length (todo (interrupt ?y)) = length (todo ?y)"
    using live by (auto simp: interrupt_def live_inv_def)
  ultimately have "live_inv (signal s)" using live unfolding live_inv_def signal_def by auto
  moreover have "plain {1, 2, 3, 4} (signal s)" using on td by (simp add: all_on_def plain_def signal_def)
  moreover have "handler_at 0 (signal s)"
    using on \<open>todo (interrupt ?y) ! 0 = StopExecution_events\<close> by (simp add: handler_at_def signal_def all_on_def)
  ultimately show ?thesis by (auto simp: stop_inv_def)
qed

section \<open>The handler ends\<close>

text \<open>Without a new datagram, each step after the first one of the handler uses up something.\<close>

definition work_left :: "live \<Rightarrow> nat" where
  "work_left s = events_left (lv_sync s) + card ({1, 2, 3, 4} - lv_ended s) +
     (if lv_recv s then 1 else if Server_Switch \<in> lv_off s then 0 else 2)"

lemma handler_order:
  assumes "handler_at n s"
  shows "lv_shut s \<Longrightarrow> Server_Switch \<in> lv_off s"
    and "Manager_Switch \<notin> lv_off s \<Longrightarrow> todo (lv_sync s) ! 0 = StopExecution_events"
proof -
  have "n = 0 \<or> n = 1 \<or> n = 2 \<or> n = 3 \<or> n = 4 \<or> n = 5 \<or> 6 \<le> n" by arith
  moreover have "set (take n StopExecution_events) \<supseteq> set (take 6 StopExecution_events)" if "6 \<le> n"
    using that by (rule set_take_subset_set_take)
  ultimately have "(Shutdown_Socket \<in> set (take n StopExecution_events) \<longrightarrow>
       Switch_Off Server_Switch \<in> set (take n StopExecution_events)) \<and>
     (Switch_Off Manager_Switch \<notin> set (take n StopExecution_events) \<longrightarrow> n = 0)"
    by (auto simp: StopExecution_events_def take_Cons' split: if_splits)
  with assms show "lv_shut s \<Longrightarrow> Server_Switch \<in> lv_off s"
    "Manager_Switch \<notin> lv_off s \<Longrightarrow> todo (lv_sync s) ! 0 = StopExecution_events"
    by (auto simp: handler_at_def Let_def)
qed

lemma work_decreases:
  assumes inv: "stop_inv s" and off: "Manager_Switch \<in> lv_off s" and step: "live_step False s t"
  shows "work_left t < work_left s \<and> Manager_Switch \<in> lv_off t"
proof -
  obtain n where n: "handler_at n s" using inv by (auto simp: stop_inv_def)
  from step show ?thesis
  proof cases
    case (lv_event i e es pf y)
    from sync_step_left [OF lv_event(3)] off show ?thesis
      unfolding lv_event(1) by (cases e) (auto simp: work_left_def)
  next
    case (lv_leave i)
    have "card ({1, 2, 3, 4} - insert i (lv_ended s)) < card ({1, 2, 3, 4} - lv_ended s)"
      using lv_leave by (intro psubset_card_mono) auto
    with off show ?thesis by (simp add: lv_leave(1) work_left_def)
  qed (use off handler_order(1) [OF n] in \<open>auto simp: work_left_def\<close>)
qed

lemma no_endless_shutdown:
  assumes inv: "stop_inv (f 0)" and run: "\<And>k. live_next (f k) (f (Suc k))"
    and off: "Manager_Switch \<in> lv_off (f m)" and quiet: "\<And>k. N \<le> k \<Longrightarrow> live_step False (f k) (f (Suc k))"
  shows False
proof -
  have invs: "stop_inv (f k)" for k
    using run stop_inv_step by (induction k) (auto simp: inv live_next_def)
  have offs: "Manager_Switch \<in> lv_off (f (m + k))" for k
  proof (induction k)
    case (Suc k)
    from run [of "m + k"] obtain b where "live_step b (f (m + k)) (f (Suc (m + k)))" by (auto simp: live_next_def)
    then show ?case
    proof cases
      case (lv_event i e es pf y)
      with Suc show ?thesis by (cases e) auto
    qed (use Suc in auto)
  qed (use off in simp)
  let ?g = "\<lambda>k. f (m + N + k)"
  have "work_left (?g (Suc k)) < work_left (?g k)" for k
    using work_decreases [OF invs, of "m + N + k"] offs [of "N + k"] quiet [of "m + N + k"] by (simp add: add.assoc)
  then have "work_left (?g k) + k \<le> work_left (?g 0)" for k
  proof (induction k)
    case (Suc k)
    then have "work_left (?g (Suc k)) < work_left (?g k)" "work_left (?g k) + k \<le> work_left (?g 0)" by blast+
    then show ?case by linarith
  qed simp
  from this [of "Suc (work_left (?g 0))"] show False by simp
qed

lemma stuck_is_ended:
  assumes inv: "stop_inv s" and stuck: "\<nexists>t. live_step False s t"
  shows "lv_ended s = {1, 2, 3, 4} \<and> concat (todo (lv_sync s)) = []"
proof -
  from inv obtain n where live: "live_inv s" and pl: "plain {1, 2, 3, 4} s" and n: "handler_at n s"
    by (auto simp: stop_inv_def)
  let ?y = "lv_sync s"
  have sync: "sync_inv program_rights ?y" and five: "length (todo ?y) = 5" using live by (simp_all add: live_inv_def)
  have ev: "sync_step pf i ?y = None \<or> (\<exists>j es. todo ?y ! i = Join j # es \<and> j \<notin> lv_ended s)" for pf i
  proof (cases "sync_step pf i ?y")
    case (Some y)
    with sync_step_todo obtain e es where "todo ?y ! i = e # es" by blast
    with live_step.lv_event [of s i e es pf y] Some stuck show ?thesis by (cases e) auto
  qed simp
  have handler: "todo ?y ! 0 = [] \<or> (\<exists>j es. todo ?y ! 0 = Join j # es)"
  proof (cases "todo ?y ! 0")
    case (Cons e es)
    have "set (todo ?y ! 0) \<subseteq> set StopExecution_events" using n by (simp add: handler_at_def Let_def set_drop_subset)
    with Cons have "e \<in> set StopExecution_events" by auto
    with Cons ev [of False 0] five show ?thesis by (auto simp: StopExecution_events_def sync_step_def)
  qed simp
  have free: "held ?y 0 = Map.empty" using handler sync_inv_at [OF sync _ refl, of 0] five by auto
  let ?z = "?y\<lparr>todo := (todo ?y)[0 := []]\<rparr>"
  have z: "sync_inv program_rights ?z" "length (todo ?z) = 5"
  proof -
    have "held ?z j = held ?y j" for j by (simp add: held_def)
    with sync free five show "sync_inv program_rights ?z" by (auto simp: sync_inv_def nth_list_update)
  qed (use five in simp)
  have idle: "todo ?y ! i = []" if i: "i \<in> {1, 2, 3, 4}" for i
  proof (rule ccontr)
    assume "todo ?y ! i \<noteq> []"
    with i not_stuck [OF z(1), of i] z(2) program_rights_ok obtain j t where t: "sync_step True j ?z = Some t" by auto
    then have "j < 5" using z(2) by (auto simp: sync_step_def split: if_splits)
    moreover have "j \<noteq> 0" using t five by (cases "j = 0") (simp_all add: sync_step_def)
    ultimately have j: "j < 5" "j \<noteq> 0" by blast+
    with t obtain e es where e: "todo ?y ! j = e # es" "do_event True ?z j e \<noteq> None"
      using five by (cases "todo ?y ! j") (auto simp: sync_step_def)
    have "\<not> stops e" using pl j e(1) unfolding plain_def by (metis insertCI less_five list.set_intros(1))
    moreover have "writer_waits ?y r \<Longrightarrow> writer_waits ?z r" for r
      using handler by (cases "todo ?y") (auto simp: writer_waits_def)
    ultimately have "do_event True ?y j e \<noteq> None" using e(2) by (cases e) (auto split: if_splits)
    with e(1) j five have "sync_step True j ?y \<noteq> None" by (simp add: sync_step_def)
    with ev [of True j] e(1) \<open>\<not> stops e\<close> show False by auto
  qed
  have others: "i \<in> lv_ended s" if i: "i \<in> {2, 3, 4}" for i
  proof (rule ccontr)
    assume not: "i \<notin> lv_ended s"
    have "\<exists>es. es \<in> program_ops i" using i by (auto simp: program_ops_def)
    with i not idle live_step.lv_turn [of i s] live_step.lv_leave [of i s] stuck show False by fastforce
  qed
  have join: "j \<in> {1, 2, 3, 4}" if "Join j \<in> set StopExecution_events" for j
    using that by (auto simp: StopExecution_events_def)
  have waits: "todo ?y ! 0 = [] \<or> (\<exists>es. todo ?y ! 0 = Join 1 # es \<and> 1 \<notin> lv_ended s)"
  proof (rule disjCI)
    assume not: "\<not> (\<exists>es. todo ?y ! 0 = Join 1 # es \<and> 1 \<notin> lv_ended s)"
    show "todo ?y ! 0 = []"
    proof (rule ccontr)
      assume "todo ?y ! 0 \<noteq> []"
      with handler obtain j es where j: "todo ?y ! 0 = Join j # es" by blast
      with n have "drop n StopExecution_events = Join j # es" by (simp add: handler_at_def Let_def)
      then have "Join j \<in> set (drop n StopExecution_events)" by simp
      then have J: "j \<in> {1, 2, 3, 4}" by (intro join) (rule in_set_dropD)
      then have "j \<in> lv_ended s" using not j others by auto
      moreover have "todo ?y ! j = []" "j < 5" using idle [OF J] J by auto
      ultimately show False using ev [of False 0] j five by (auto simp: sync_step_def)
    qed
  qed
  have past: "Shutdown_Socket \<in> set (take n StopExecution_events)"
  proof -
    from waits n have "drop n StopExecution_events = [] \<or> (\<exists>es. drop n StopExecution_events = Join 1 # es)"
      by (auto simp: handler_at_def Let_def)
    moreover have "n = 0 \<or> n = 1 \<or> n = 2 \<or> n = 3 \<or> n = 4 \<or> n = 5 \<or> 6 \<le> n" by arith
    ultimately have "6 \<le> n" by (auto simp: StopExecution_events_def)
    from set_take_subset_set_take [OF this, of StopExecution_events] show ?thesis by (auto simp: StopExecution_events_def)
  qed
  then have "lv_shut s" using n by (simp add: handler_at_def Let_def)
  moreover from this have "loop_switch 1 \<in> lv_off s" using handler_order(1) [OF n] by simp
  ultimately have "1 \<in> lv_ended s"
    using idle [of 1] live_step.lv_nothing [of s] live_step.lv_leave [of 1 s] stuck by fastforce
  with waits have "todo ?y ! 0 = []" by blast
  then have "todo ?y ! i = []" if "i < 5" for i using less_five [OF that] idle by auto
  with five have "concat (todo ?y) = []" by (auto simp: in_set_conv_nth)
  with others \<open>1 \<in> lv_ended s\<close> live show ?thesis by (auto simp: live_inv_def)
qed

section \<open>Property\<close>

text \<open>
  C18: The signal handler completes when it does not interrupt a critical section. The threads make any
  number of turns of their loops, and the signal arrives while the main thread holds no mutex, as in
  \<^verbatim>\<open>WaitForever\<close>. First, as long as the handler has not cleared the switch of the manager, it can do so.
  Second, once it has, there is no endless run in which only finitely many further datagrams arrive.
  Third, a run that cannot be continued without a new datagram has ended all four threads and the
  handler, which flushes the log last. So the handler always completes, unless the network keeps the
  receiver busy for ever; this rests on the cleared switches and on the shutdown of the socket.
\<close>

theorem signal_handler_ends:
  assumes "reachable live_start live_next s" and "held (lv_sync s) 0 = Map.empty"
  shows "{t. live_next\<^sup>*\<^sup>* (signal s) t \<and> Manager_Switch \<notin> lv_off t} \<subseteq>
      {t. \<exists>t'. live_step False t t' \<and> Manager_Switch \<in> lv_off t'} \<and>
    (\<nexists>f. f 0 = signal s \<and> (\<forall>k. live_next (f k) (f (Suc k))) \<and> (\<exists>m. Manager_Switch \<in> lv_off (f m)) \<and>
       (\<exists>N. \<forall>k \<ge> N. live_step False (f k) (f (Suc k)))) \<and>
    {t. live_next\<^sup>*\<^sup>* (signal s) t \<and> (\<nexists>t'. live_step False t t')} \<subseteq>
      {t. lv_ended t = {1, 2, 3, 4} \<and> concat (todo (lv_sync t)) = []}"
proof -
  have start: "stop_inv (signal s)" by (rule signal_inv [OF on_runs.reachable_inv [OF assms(1)] assms(2)])
  have inv: "stop_inv t" if "live_next\<^sup>*\<^sup>* (signal s) t" for t
    using that by (induction rule: rtranclp_induct) (use start stop_inv_step in \<open>auto simp: live_next_def\<close>)
  have "\<exists>t'. live_step False t t' \<and> Manager_Switch \<in> lv_off t'"
    if t: "live_next\<^sup>*\<^sup>* (signal s) t" "Manager_Switch \<notin> lv_off t" for t
  proof -
    from inv [OF t(1)] obtain n where "handler_at n t" and five: "length (todo (lv_sync t)) = 5"
      by (auto simp: stop_inv_def live_inv_def)
    from handler_order(2) [OF this(1) t(2)] obtain es where
      es: "todo (lv_sync t) ! 0 = Switch_Off Manager_Switch # es" by (simp add: StopExecution_events_def)
    then obtain y where "sync_step False 0 (lv_sync t) = Some y" using five by (simp add: sync_step_def)
    from live_step.lv_event [OF es this] show ?thesis by fastforce
  qed
  moreover have False
    if "f 0 = signal s" "\<forall>k. live_next (f k) (f (Suc k))" "Manager_Switch \<in> lv_off (f m)"
      "\<forall>k \<ge> N. live_step False (f k) (f (Suc k))" for f m N
    by (rule no_endless_shutdown [of f m N]) (use start that in auto)
  moreover have "lv_ended t = {1, 2, 3, 4} \<and> concat (todo (lv_sync t)) = []"
    if "live_next\<^sup>*\<^sup>* (signal s) t" "\<nexists>t'. live_step False t t'" for t
    by (rule stuck_is_ended [OF inv [OF that(1)] that(2)])
  ultimately show ?thesis by blast
qed

text \<open>All threads have been started, and none has done anything yet.\<close>

definition ex_live :: live where
  "ex_live = \<lparr>lv_sync = sync_init [[], [], [], [], []], lv_off = {}, lv_shut = False, lv_recv = False, lv_ended = {}\<rparr>"

theorem signal_handler_ends_witness:
  "{t. live_next\<^sup>*\<^sup>* (signal ex_live) t \<and> (\<nexists>t'. live_step False t t')} \<subseteq>
     {t. lv_ended t = {1, 2, 3, 4} \<and> concat (todo (lv_sync t)) = []} \<and> lv_ended (signal ex_live) = {}"
proof -
  have "live_start ex_live" unfolding live_start_def ex_live_def by (intro exI [of _ "[]"]) simp
  then have "reachable live_start live_next ex_live" by (rule reachable.reachable_init)
  moreover have "held (lv_sync ex_live) 0 = Map.empty"
    by (simp add: ex_live_def held_def mode_in_def sync_init_def mutex_init_def)
  ultimately show ?thesis using signal_handler_ends [of ex_live] by (simp add: signal_def) (simp add: ex_live_def)
qed

end
