(* ===== verification/Signal_Handling.thy ===== *)
theory Signal_Handling
  imports Process_Drivers
begin

text \<open>
  A signal at any time (\<^verbatim>\<open>main.cpp\<close>, \<^verbatim>\<open>drivers.cpp\<close>): the FIFO driver as the sequence of its statements,
  the global objects as far as they exist after each of them, and what \<^verbatim>\<open>StopExecution\<close> does to
  them. Starting the threads is several statements here, so that the handler can come in between.
\<close>

section \<open>The statements of the driver\<close>

text \<open>The global objects; once the manager exists, it carries the log.\<close>

datatype 'm stage =
    Nothing_Yet
  | With_Logger logger
  | With_Server logger "u32 udp_server"
  | With_Client logger "u32 udp_server" udp_client
  | With_Manager "'m app"

datatype statement =
    Open_Logger string
  | Open_Server host
  | Open_Client
  | Make_Manager u32
  | Add_Peer u32 host
  | Server_On
  | Create_Receive_Thread
  | Manager_On
  | Create_Ack_Thread
  | Create_Send_Thread
  | Create_Deliver_Thread
  | Send_Empty

text \<open>The statements run in the order of the driver; on other objects they are not reached.\<close>

definition on_app :: "('m app \<Rightarrow> 'm app result) \<Rightarrow> 'm stage \<Rightarrow> 'm stage result" where
  "on_app f st = (case st of With_Manager a \<Rightarrow> bind_result (f a) (\<lambda>a. Inr (With_Manager a)) | _ \<Rightarrow> Inl Terminate)"

text \<open>Assigning to a \<^verbatim>\<open>std::thread\<close> that is joinable ends the program.\<close>

definition create_thread :: "bool \<Rightarrow> 's \<Rightarrow> 's result" where
  "create_thread joinable s = (if joinable then Inl Terminate else Inr s)"

fun exec :: "os \<Rightarrow> statement \<Rightarrow> ufifo stage \<Rightarrow> ufifo stage result" where
  "exec os (Open_Logger path) st =
     (case st of Nothing_Yet \<Rightarrow> Inr (With_Logger (Logger_ctor (os_can_open os) (os_disk os) path)) | _ \<Rightarrow> Inl Terminate)"
| "exec os (Open_Server me) st =
     (case st of
        With_Logger l \<Rightarrow>
          or_exit (bind_result (UDPServer_ctor (os_socket os) (os_bind os) (h_ip me) (h_port me)) (\<lambda>srv. Inr (With_Server l srv)))
      | _ \<Rightarrow> Inl Terminate)"
| "exec os Open_Client st =
     (case st of
        With_Server l srv \<Rightarrow> or_exit (bind_result (UDPClient_ctor_fd (srv_sockfd srv) False) (\<lambda>cl. Inr (With_Client l srv cl)))
      | _ \<Rightarrow> Inl Terminate)"
| "exec os (Make_Manager i) st =
     (case st of
        With_Client l srv cl \<Rightarrow> Inr (With_Manager \<lparr>app_server = srv, app_client = cl, app_manager = UFIFO_init l i\<rparr>)
      | _ \<Rightarrow> Inl Terminate)"
| "exec os (Add_Peer i peer) st =
     on_app (\<lambda>a. let r = add_link URB_Add i peer (app_server a, app_manager a)
                 in Inr (a\<lparr>app_server := fst r, app_manager := snd r\<rparr>)) st"
| "exec os Server_On st = on_app (\<lambda>a. Inr (a\<lparr>app_server := (app_server a)\<lparr>srv_on := True\<rparr>\<rparr>)) st"
| "exec os Create_Receive_Thread st =
     on_app (\<lambda>a. create_thread (receive_thread (app_server a))
        (a\<lparr>app_server := (app_server a)\<lparr>receive_thread := True\<rparr>\<rparr>)) st"
| "exec os Manager_On st = on_app (\<lambda>a. Inr (a\<lparr>app_manager := (app_manager a)\<lparr>on := True\<rparr>\<rparr>)) st"
| "exec os Create_Ack_Thread st =
     on_app (\<lambda>a. create_thread (ack_thread (app_manager a)) (a\<lparr>app_manager := (app_manager a)\<lparr>ack_thread := True\<rparr>\<rparr>)) st"
| "exec os Create_Send_Thread st =
     on_app (\<lambda>a. create_thread (send_thread (app_manager a)) (a\<lparr>app_manager := (app_manager a)\<lparr>send_thread := True\<rparr>\<rparr>)) st"
| "exec os Create_Deliver_Thread st =
     on_app (\<lambda>a. create_thread (deliver_thread (app_manager a))
        (a\<lparr>app_manager := (app_manager a)\<lparr>deliver_thread := True\<rparr>\<rparr>)) st"
| "exec os Send_Empty st =
     on_app (\<lambda>a. bind_result (URB_Send ufifo_vt [] (app_manager a)) (\<lambda>m. Inr (a\<lparr>app_manager := m\<rparr>))) st"

lemma on_app_simps [simp]:
  "on_app f (With_Manager a) = bind_result (f a) (\<lambda>a. Inr (With_Manager a))" "on_app f Nothing_Yet = Inl Terminate"
  by (simp_all add: on_app_def)

definition open_statements :: "string \<Rightarrow> u32 \<Rightarrow> host \<Rightarrow> host list \<Rightarrow> statement list" where
  "open_statements path i me hosts =
     [Open_Logger path, Open_Server me, Open_Client, Make_Manager i] @
     map (Add_Peer i) (filter (\<lambda>peer. i \<noteq> h_id peer) hosts)"

definition start_statements :: "statement list" where
  "start_statements =
     [Server_On, Create_Receive_Thread, Manager_On, Create_Ack_Thread, Create_Send_Thread, Create_Deliver_Thread]"

definition FIFO_statements :: "string \<Rightarrow> u32 \<Rightarrow> host \<Rightarrow> host list \<Rightarrow> u32 \<Rightarrow> statement list" where
  "FIFO_statements path i me hosts n =
     open_statements path i me hosts @ start_statements @ replicate (unat n) Send_Empty"

section \<open>The handler\<close>

text \<open>Joining a thread that has not been created throws in a \<^verbatim>\<open>noexcept\<close> function.\<close>

definition join_thread :: "bool \<Rightarrow> 's \<Rightarrow> 's result" where
  "join_thread joinable s = (if joinable then Inr s else Inl Terminate)"

definition Manager_Stop_join :: "'a manager_scheme \<Rightarrow> 'a manager_scheme result" where
  "Manager_Stop_join m =
     (if on m then
        (let m = m\<lparr>on := False\<rparr>
         in bind_result (join_thread (ack_thread m) (m\<lparr>ack_thread := False\<rparr>)) (\<lambda>m.
              join_thread (send_thread m) (m\<lparr>send_thread := False\<rparr>)))
      else Inr m)"

definition URB_Stop_join :: "'a urb_scheme \<Rightarrow> 'a urb_scheme result" where
  "URB_Stop_join u =
     (if on u then
        bind_result (Manager_Stop_join u) (\<lambda>u. join_thread (deliver_thread u) (u\<lparr>deliver_thread := False\<rparr>))
      else Inr u)"

definition UDPServer_Stop_join :: "'o udp_server \<Rightarrow> 'o udp_server result" where
  "UDPServer_Stop_join srv =
     (if srv_on srv then
        (let srv = srv\<lparr>srv_on := False\<rparr> in join_thread (receive_thread srv) (srv\<lparr>receive_thread := False\<rparr>))
      else Inr srv)"

fun StopExecution_at :: "ufifo stage \<Rightarrow> ufifo stage result" where
  "StopExecution_at Nothing_Yet = Inr Nothing_Yet"
| "StopExecution_at (With_Logger l) = Inr (With_Logger (Logger_Flush l))"
| "StopExecution_at (With_Server l srv) =
     bind_result (UDPServer_Stop_join srv) (\<lambda>srv. Inr (With_Server (Logger_Flush l) srv))"
| "StopExecution_at (With_Client l srv cl) =
     bind_result (UDPServer_Stop_join srv) (\<lambda>srv. Inr (With_Client (Logger_Flush l) srv cl))"
| "StopExecution_at (With_Manager a) =
     bind_result (URB_Stop_join (app_manager a)) (\<lambda>m.
     bind_result (UDPServer_Stop_join (app_server a)) (\<lambda>srv.
       Inr (With_Manager (a\<lparr>app_manager := m\<lparr>mgr_logger := Logger_Flush (mgr_logger m)\<rparr>, app_server := srv\<rparr>))))"

lemmas Stop_join_defs = join_thread_def Manager_Stop_join_def URB_Stop_join_def UDPServer_Stop_join_def Let_def

text \<open>On a process with all its threads this is \<^verbatim>\<open>StopExecution\<close> of the drivers.\<close>

lemma StopExecution_at_running:
  assumes "on (app_manager a)" "ack_thread (app_manager a)" "send_thread (app_manager a)"
    "deliver_thread (app_manager a)" "srv_on (app_server a)" "receive_thread (app_server a)"
  shows "StopExecution_at (With_Manager a) = Inr (With_Manager (StopExecution URB_Stop a))"
  using assms by (simp add: Stop_join_defs StopExecution_def URB_Stop_def Manager_Stop_def UDPServer_Stop_def)

section \<open>Objects and threads at each statement\<close>

text \<open>The objects are consistent: a thread runs only with its switch on.\<close>

fun stage_log :: "ufifo stage \<Rightarrow> logger option" where
  "stage_log Nothing_Yet = None"
| "stage_log (With_Logger l) = Some l"
| "stage_log (With_Server l srv) = Some l"
| "stage_log (With_Client l srv cl) = Some l"
| "stage_log (With_Manager a) = Some (mgr_logger (app_manager a))"

fun stage_threads :: "ufifo stage \<Rightarrow> bool list" where
  "stage_threads (With_Server l srv) = [srv_on srv, receive_thread srv]"
| "stage_threads (With_Client l srv cl) = [srv_on srv, receive_thread srv]"
| "stage_threads (With_Manager a) =
     [srv_on (app_server a), receive_thread (app_server a), on (app_manager a), ack_thread (app_manager a),
      send_thread (app_manager a), deliver_thread (app_manager a)]"
| "stage_threads _ = []"

text \<open>Between the statement that sets a switch and those that create its threads.\<close>

fun half_started :: "ufifo stage \<Rightarrow> bool" where
  "half_started (With_Manager a) \<longleftrightarrow> srv_on (app_server a) \<and> \<not> receive_thread (app_server a) \<or>
     on (app_manager a) \<and> \<not> (ack_thread (app_manager a) \<and> send_thread (app_manager a) \<and> deliver_thread (app_manager a))"
| "half_started _ \<longleftrightarrow> False"

lemma StopExecution_at_cases:
  assumes "case st of With_Manager a \<Rightarrow> (receive_thread (app_server a) \<longrightarrow> srv_on (app_server a)) \<and>
      (ack_thread (app_manager a) \<or> send_thread (app_manager a) \<or> deliver_thread (app_manager a) \<longrightarrow> on (app_manager a))
    | _ \<Rightarrow> set (stage_threads st) \<subseteq> {False}"
  shows "case StopExecution_at st of Inl e \<Rightarrow> e = Terminate \<and> half_started st
    | Inr st' \<Rightarrow> \<not> half_started st \<and> set (stage_threads st') \<subseteq> {False} \<and> stage_log st' = map_option Logger_Flush (stage_log st)"
  using assms by (cases st) (auto simp: Stop_join_defs split: if_splits)

section \<open>The stages of a run\<close>

lemma quiet_open:
  assumes "exec os c st = Inr st'" and "c \<in> set (open_statements path i me hosts)" and "set (stage_threads st) \<subseteq> {False}"
  shows "set (stage_threads st') \<subseteq> {False}"
  using assms
  by (cases st)
    (auto simp: open_statements_def on_app_def UDPServer_ctor_def UDPClient_ctor_fd_def add_link_def Let_def
      PerfectLink_ctor_def UDPServer_Attach_def URB_Add_def UFIFO_init_def URB_init_def Manager_init_def manager.defs urb.defs
      split: if_splits)

lemma opened_manager:
  assumes "fold_result (exec os) (open_statements path i me hosts) Nothing_Yet = Inr st"
  shows "\<exists>a. st = With_Manager a"
proof -
  have adds: "\<exists>a. st' = With_Manager a" if "fold_result (exec os) (map (Add_Peer i) ps) (With_Manager a) = Inr st'" for ps a st'
    using that by (induction ps arbitrary: a) (auto simp: Let_def)
  show ?thesis using assms
    by (auto simp: open_statements_def UDPServer_ctor_def UDPClient_ctor_fd_def Let_def split: if_splits dest: adds)
qed

text \<open>The switches and threads are set one by one, in the order of \<open>stage_threads\<close>.\<close>

definition started_threads :: "nat \<Rightarrow> bool list" where
  "started_threads j = map (\<lambda>x. x < j) [0 ..< 6]"

lemma started_threads_eq: "started_threads j = [0 < j, 1 < j, 2 < j, 3 < j, 4 < j, 5 < j]"
  by (simp add: started_threads_def upt_rec numeral_eq_Suc)

lemma start_threads_step:
  assumes "stage_threads st = started_threads j" and "j < 6" and "exec os (start_statements ! j) st = Inr st'"
  shows "stage_threads st' = started_threads (Suc j)"
proof -
  obtain a where st: "st = With_Manager a" using assms(1) by (cases st) (simp_all add: started_threads_eq)
  from assms(2) have "j \<in> {0, 1, 2, 3, 4, 5}" by auto
  with assms(1,3) show ?thesis
    by (auto simp: st started_threads_eq start_statements_def create_thread_def numeral_eq_Suc)
qed

lemma send_threads_step:
  assumes "stage_threads st = started_threads j" and "exec os Send_Empty st = Inr st'"
  shows "stage_threads st' = started_threads j"
proof -
  obtain a where "st = With_Manager a" using assms(1) by (cases st) (simp_all add: started_threads_eq)
  with assms show ?thesis
    by (cases "URB_Send ufifo_vt [] (app_manager a)") (auto dest: URB_Send_threads)
qed

lemma stage_threads_at:
  assumes "fold_result (exec os) (take k (FIFO_statements path i me hosts n)) Nothing_Yet = Inr st"
    and "k \<le> length (FIFO_statements path i me hosts n)"
  defines "opened \<equiv> length (open_statements path i me hosts)"
  shows "(k \<le> opened \<longrightarrow> set (stage_threads st) \<subseteq> {False}) \<and> (opened \<le> k \<longrightarrow> stage_threads st = started_threads (k - opened))"
  using assms(1,2)
proof (induction k arbitrary: st)
  case 0
  then show ?case by (simp add: opened_def open_statements_def)
next
  case (Suc k)
  let ?A = "open_statements path i me hosts" and ?S = "FIFO_statements path i me hosts n"
  from Suc.prems obtain st1 where st1: "fold_result (exec os) (take k ?S) Nothing_Yet = Inr st1"
    and step: "exec os (?S ! k) st1 = Inr st"
    by (auto simp: take_Suc_conv_app_nth fold_result_append)
  have IH: "k \<le> opened \<Longrightarrow> set (stage_threads st1) \<subseteq> {False}"
      "opened \<le> k \<Longrightarrow> stage_threads st1 = started_threads (k - opened)"
    using Suc.IH [OF st1] Suc.prems(2) by simp_all
  consider (before) "Suc k \<le> opened" | (starting) "opened \<le> k" "k < opened + 6" | (sending) "opened + 6 \<le> k" by linarith
  then show ?case
  proof cases
    case before
    then have "?S ! k \<in> set ?A" by (simp add: FIFO_statements_def nth_append opened_def)
    with quiet_open [OF step] IH(1) before have quiet: "set (stage_threads st) \<subseteq> {False}" by simp
    have "stage_threads st = started_threads 0" if "Suc k = opened"
    proof -
      have "take (Suc k) ?S = ?A" by (simp add: FIFO_statements_def that opened_def)
      with Suc.prems(1) obtain a where "st = With_Manager a" using opened_manager by metis
      with quiet show ?thesis by (auto simp: started_threads_eq)
    qed
    with quiet before show ?thesis by auto
  next
    case starting
    moreover have "length start_statements = 6" by (simp add: start_statements_def)
    ultimately have "?S ! k = start_statements ! (k - opened)"
      by (auto simp: FIFO_statements_def nth_append opened_def)
    with start_threads_step [OF IH(2) [OF starting(1)]] step starting show ?thesis by (simp add: Suc_diff_le)
  next
    case sending
    moreover have "length start_statements = 6" by (simp add: start_statements_def)
    ultimately have "?S ! k = Send_Empty"
      using Suc.prems(2) by (auto simp: FIFO_statements_def nth_append opened_def)
    with step have "exec os Send_Empty st1 = Inr st" by metis
    from send_threads_step [OF IH(2) this] sending have "stage_threads st = started_threads (k - opened)" by linarith
    moreover have "started_threads j = [True, True, True, True, True, True]" if "6 \<le> j" for j
      using that by (simp add: started_threads_eq)
    ultimately show ?thesis using sending by simp
  qed
qed

lemma half_started_at:
  assumes "stage_threads st = started_threads j"
  shows "half_started st \<longleftrightarrow> j = 1 \<or> j = 3 \<or> j = 4 \<or> j = 5"
proof -
  obtain a where "st = With_Manager a" using assms by (cases st) (simp_all add: started_threads_eq)
  with assms show ?thesis by (auto simp: started_threads_eq)
qed

lemma half_started_quiet: "set (stage_threads st) \<subseteq> {False} \<Longrightarrow> \<not> half_started st"
  by (cases st) simp_all

section \<open>The statements are the driver\<close>

lemma add_peers_run:
  "fold_result (exec os) (map (Add_Peer i) (filter (\<lambda>peer. i \<noteq> h_id peer) hosts)) (With_Manager a) =
     (let st = add_links URB_Add i hosts (app_server a, app_manager a)
      in Inr (With_Manager (a\<lparr>app_server := fst st, app_manager := snd st\<rparr>)))"
  by (induction hosts arbitrary: a) (auto simp: add_links_def Let_def)

lemma open_run:
  assumes "parsed p"
  shows "fold_result (exec os) (open_statements (p_output_path p) i me hosts) Nothing_Yet =
    bind_result (open_endpoints os p me) (\<lambda>(l, srv, cl).
      let st = add_links URB_Add i hosts (srv, UFIFO_init l i)
      in Inr (With_Manager \<lparr>app_server = fst st, app_client = cl, app_manager = snd st\<rparr>))"
  using assms
  by (auto simp: open_statements_def fold_result_append add_peers_run open_endpoints_cases UDPServer_ctor_def UDPClient_ctor_fd_def
      UDPClient_Address_def host_addr_def Let_def)

lemma start_run:
  assumes "\<not> srv_on (app_server a)" "\<not> on (app_manager a)"
  shows "fold_result (exec os) start_statements (With_Manager a) =
    bind_result (UDPServer_Start (app_server a)) (\<lambda>srv. bind_result (URB_Start (app_manager a)) (\<lambda>m.
      Inr (With_Manager (a\<lparr>app_server := srv, app_manager := m\<rparr>))))"
  by (auto simp: start_statements_def create_thread_def UDPServer_Start_def URB_Start_def Manager_Start_def)

lemma sends_run:
  "fold_result (exec os) (replicate (unat n) Send_Empty) (With_Manager a) =
     bind_result (FIFO_sends n (app_manager a)) (\<lambda>m. Inr (With_Manager (a\<lparr>app_manager := m\<rparr>)))"
proof -
  have "fold_result (exec os) (replicate (length xs) Send_Empty) (With_Manager a) =
      bind_result (fold_result (\<lambda>_. URB_Send ufifo_vt []) xs (app_manager a)) (\<lambda>m. Inr (With_Manager (a\<lparr>app_manager := m\<rparr>)))"
    for xs :: "nat list"
  proof (induction xs arbitrary: a)
    case (Cons x xs)
    then show ?case by (cases "URB_Send ufifo_vt [] (app_manager a)") simp_all
  qed simp
  from this [of "[0 ..< unat n]"] show ?thesis by (simp add: FIFO_sends_def)
qed

lemma bind_result_assoc: "bind_result (bind_result r f) g = bind_result r (\<lambda>x. bind_result (f x) g)"
  by (cases r) simp_all

lemma added_quiet:
  "srv_on (fst (add_links URB_Add i hosts (srv, m))) = srv_on srv" "on (snd (add_links URB_Add i hosts (srv, m))) = on m"
  for m :: ufifo
  by (induction hosts arbitrary: srv m)
    (auto simp: add_links_def add_link_def PerfectLink_ctor_def UDPServer_Attach_def URB_Add_def Let_def)

text \<open>
  For a parsed configuration with the own host in the table, the statements executed one by one are the
  driver: \<open>exec\<close> is the driver cut into its statements.
\<close>

lemma FIFO_statements_run:
  assumes "parsed p" and "local_host p = Inr me"
  shows "fold_result (exec os) (FIFO_statements (p_output_path p) (p_id p) me (p_hosts p) (p_n_messages_to_send p)) Nothing_Yet =
    bind_result (drivers_FIFOBroadcast os p) (\<lambda>a. Inr (With_Manager a))"
proof -
  have quiet: "\<not> on (UFIFO_init l i)" for l i
    by (simp add: UFIFO_init_def URB_init_def Manager_init_def manager.defs urb.defs)
  show ?thesis
    using assms
    by (simp add: FIFO_statements_def fold_result_append open_run drivers_FIFOBroadcast_def FIFO_setup_def
        Parser_id_def Parser_hosts_def Parser_n_messages_to_send_def CheckParsed_def open_endpoints_cases)
      (simp add: start_run added_quiet quiet sends_run Let_def bind_result_assoc fold_result_append)
qed

section \<open>Properties\<close>

text \<open>
  C17: A signal after any statement of the FIFO driver. The handler ends the program abnormally, without writing the
  log, exactly when it arrives between the statement that sets a switch and the one that creates
  the last of its threads: it joins a thread that does not exist. At all other times, from
  the first statement to the last message, it stops all threads there are and flushes the log if
  there is one.
\<close>

theorem signal_any_time:
  assumes "fold_result (exec os) (take k (FIFO_statements path i me hosts n)) Nothing_Yet = Inr st"
    and "k \<le> length (FIFO_statements path i me hosts n)"
  defines "opened \<equiv> length (open_statements path i me hosts)"
  shows "case StopExecution_at st of
      Inl e \<Rightarrow> e = Terminate \<and> k \<in> {opened + 1, opened + 3, opened + 4, opened + 5}
    | Inr st' \<Rightarrow> k \<notin> {opened + 1, opened + 3, opened + 4, opened + 5} \<and> set (stage_threads st') \<subseteq> {False} \<and>
        stage_log st' = map_option Logger_Flush (stage_log st)"
proof -
  note at = stage_threads_at [OF assms(1,2), folded opened_def]
  have half: "half_started st \<longleftrightarrow> k \<in> {opened + 1, opened + 3, opened + 4, opened + 5}"
  proof (cases "k \<le> opened")
    case True
    with at half_started_quiet show ?thesis by auto
  next
    case False
    with at half_started_at [of st "k - opened"] show ?thesis by auto
  qed
  have "case st of With_Manager a \<Rightarrow> (receive_thread (app_server a) \<longrightarrow> srv_on (app_server a)) \<and>
      (ack_thread (app_manager a) \<or> send_thread (app_manager a) \<or> deliver_thread (app_manager a) \<longrightarrow> on (app_manager a))
    | _ \<Rightarrow> set (stage_threads st) \<subseteq> {False}"
    using at by (cases "k \<le> opened"; cases st) (auto simp: started_threads_eq)
  from StopExecution_at_cases [OF this] half show ?thesis by (auto split: sum.splits)
qed

theorem signal_any_time_witness:
  "StopExecution_at (projr (fold_result (exec ex_os) (take 9 (FIFO_statements ''out'' 2 (ex_host 2) [ex_host 1, ex_host 2, ex_host 3] 5))
     Nothing_Yet)) = Inl Terminate"
proof -
  let ?S = "FIFO_statements ''out'' 2 (ex_host 2) [ex_host 1, ex_host 2, ex_host 3] 5"
  obtain st where st: "fold_result (exec ex_os) (take 9 ?S) Nothing_Yet = Inr st"
    by (simp add: FIFO_statements_def open_statements_def start_statements_def UDPServer_ctor_def UDPClient_ctor_fd_def
        create_thread_def add_link_def URB_Add_def Let_def PerfectLink_ctor_def UDPServer_Attach_def UDPClient_Address_def
        numeral_eq_Suc ex_os_def UFIFO_init_def URB_init_def Manager_init_def manager.defs urb.defs ex_host_def)
  have "9 \<le> length ?S" by (simp add: FIFO_statements_def open_statements_def start_statements_def)
  from signal_any_time [OF st this] show ?thesis
    by (auto simp: st open_statements_def split: sum.splits)
qed

end
