(* ===== verification/Thread_Alone.thy ===== *)
theory Thread_Alone
  imports Thread_System
begin

text \<open>
  Threads that are not interrupted: every whole operation of a process is a run of its statements,
  and every run of the system of whole steps is a run of the system of statements.
\<close>

section \<open>Runs of a process\<close>

inductive node_runs :: "(ufifo \<Rightarrow> bool) \<Rightarrow> (machine \<times> bytes) set \<Rightarrow> node \<Rightarrow> dgram list \<Rightarrow> node \<Rightarrow> bool"
  for guard inbox where
  nr_refl: "node_runs guard inbox n [] n"
| nr_step: "node_runs guard inbox n out n1 \<Longrightarrow> guard (nd_urb n1) \<Longrightarrow> node_step inbox n1 out' n2 \<Longrightarrow>
     node_runs guard inbox n (out @ out') n2"

lemma nr_one: "guard (nd_urb n) \<Longrightarrow> node_step inbox n out n' \<Longrightarrow> node_runs guard inbox n out n'"
  using nr_step [OF nr_refl] by force

lemma nr_trans:
  assumes "node_runs guard inbox n out n1" and "node_runs guard inbox n1 out' n2"
  shows "node_runs guard inbox n (out @ out') n2"
  using assms(2,1)
proof (induction rule: node_runs.induct)
  case (nr_step n out1 n1 out' n2)
  then show ?case using node_runs.nr_step [of guard inbox _ "out @ out1"] by simp
qed simp

lemma nr_silent: "node_runs guard inbox n [] n1 \<Longrightarrow> node_runs guard inbox n1 out n2 \<Longrightarrow> node_runs guard inbox n out n2"
  using nr_trans by force

section \<open>A budget of numbers\<close>

text \<open>
  A run is guarded by what is left of a budget: \<open>budget n\<close> allows \<open>n\<close> broadcasts, each of which adds at
  most one to the counter of each link, and nothing else touches the counters.
\<close>

definition counter_at :: "'a manager_scheme \<Rightarrow> u32 \<Rightarrow> u32 option" where
  "counter_at u j = map_option pl_n_messages_sent (perfect_links u j)"

lemma counter_update_link [simp]:
  "(\<And>pl. pl_n_messages_sent (f pl) = pl_n_messages_sent pl) \<Longrightarrow> counter_at (update_link j f u) = counter_at u"
  by (simp add: counter_at_def update_link_def option.map_comp comp_def fun_eq_iff)

lemma counter_links: "perfect_links u' = perfect_links u \<Longrightarrow> counter_at u' = counter_at u"
  by (simp add: counter_at_def fun_eq_iff)

locale send_budget =
  fixes budget :: "nat \<Rightarrow> ufifo \<Rightarrow> bool"
  assumes spend: "budget (Suc n) u \<Longrightarrow>
      (\<And>j. counter_at u' j = counter_at u j \<or> counter_at u' j = map_option (\<lambda>c. c + 1) (counter_at u j)) \<Longrightarrow> budget n u'"
    and keep: "budget n u \<Longrightarrow> counter_at u' = counter_at u \<Longrightarrow> budget n u'"
begin

lemma spare: "budget (Suc n) u \<Longrightarrow> budget n u"
  by (erule spend) simp

lemma spare_all: "budget (k + n) u \<Longrightarrow> budget n u"
  by (induction k) (auto dest: spare)

lemma spare_0: "budget n u \<Longrightarrow> budget 0 u"
  using spare_all [of n 0] by simp

end

text \<open>With no budget at all nothing is guarded; with numbers as the budget no counter wraps around.\<close>

interpretation no_budget: send_budget "\<lambda>n u. True"
  by unfold_locales simp_all

definition numbers_for :: "nat \<Rightarrow> ufifo \<Rightarrow> bool" where
  "numbers_for n u \<longleftrightarrow> (\<forall>j c. counter_at u j = Some c \<longrightarrow> unat c + n + 1 < 2 ^ 32)"

interpretation number_budget: send_budget numbers_for
proof unfold_locales
  fix n and u u' :: ufifo
  assume left: "numbers_for (Suc n) u"
    and step: "\<And>j. counter_at u' j = counter_at u j \<or> counter_at u' j = map_option (\<lambda>c. c + 1) (counter_at u j)"
  show "numbers_for n u'"
    unfolding numbers_for_def
  proof (intro allI impI)
    fix j c assume c: "counter_at u' j = Some c"
    with step [of j] have "counter_at u j = Some c \<or> (\<exists>d. counter_at u j = Some d \<and> c = d + 1)"
      by (cases "counter_at u j") auto
    then consider "counter_at u j = Some c" | d where "counter_at u j = Some d" "c = d + 1" by blast
    then show "unat c + n + 1 < 2 ^ 32"
    proof cases
      case 1
      with left show ?thesis by (fastforce simp: numbers_for_def)
    next
      case 2
      with left have "unat d + Suc n + 1 < 2 ^ 32" by (auto simp: numbers_for_def)
      moreover have "unat c \<le> unat d + 1" unfolding 2(2) unat_plus_if' by (simp, arith)
      ultimately show ?thesis by linarith
    qed
  qed
qed (simp add: numbers_for_def)

section \<open>A thread inside the broadcast classes\<close>

definition caller_next ::
  "('p \<Rightarrow> (bcast_message \<times> 'p) option) \<Rightarrow> ('p \<Rightarrow> ufifo \<Rightarrow> ('p \<times> ufifo) result)
     \<Rightarrow> (ufifo \<Rightarrow> bool) \<Rightarrow> 'p caller \<times> ufifo \<Rightarrow> 'p caller \<times> ufifo \<Rightarrow> bool" where
  "caller_next sends step guard a b \<longleftrightarrow> guard (snd a) \<and> (\<exists>links. links_of (snd a) links \<and> link_by_link sends step links (fst a) (snd a) = Inr b)"

lemma links_of_exists: "finite (dom (perfect_links u)) \<Longrightarrow> \<exists>links. links_of u links"
  using finite_distinct_list [of "dom (perfect_links u)"] by (auto simp: links_of_def)

lemma caller_nextI:
  assumes "finite (dom (perfect_links u))" and "guard u"
    and "\<And>links. links_of u links \<Longrightarrow> link_by_link sends step links p u = Inr b"
  shows "caller_next sends step guard (p, u) b"
  using links_of_exists [OF assms(1)] assms(2,3) by (auto simp: caller_next_def)

lemma update_link_twice: "update_link j f (update_link j g u) = update_link j (\<lambda>pl. f (g pl)) u"
  by (simp add: update_link_def option.map_comp comp_def)

lemma update_link_cong: "perfect_links u j = Some pl \<Longrightarrow> f pl = g pl \<Longrightarrow> update_link j f u = update_link j g u"
  by (simp add: update_link_def)

lemma dom_update_link [simp]: "dom (perfect_links (update_link j f u)) = dom (perfect_links u)"
  by (auto simp: update_link_def split: if_splits)

context send_budget
begin

abbreviation calls_next ::
  "('p \<Rightarrow> (bcast_message \<times> 'p) option) \<Rightarrow> ('p \<Rightarrow> ufifo \<Rightarrow> ('p \<times> ufifo) result)
     \<Rightarrow> 'p caller \<times> ufifo \<Rightarrow> 'p caller \<times> ufifo \<Rightarrow> bool" where
  "calls_next sends step \<equiv> caller_next sends step (budget 0)"

abbreviation runs :: "(machine \<times> bytes) set \<Rightarrow> node \<Rightarrow> dgram list \<Rightarrow> node \<Rightarrow> bool" where
  "runs \<equiv> node_runs (budget 0)"

lemma caller_sends_one:
  assumes fin: "finite (dom (perfect_links u))" and pl: "perfect_links u j = Some pl"
    and b: "budget (Suc n) u0" "\<And>i. counter_at u i = counter_at u0 i \<or> counter_at u i = map_option (\<lambda>c. c + 1) (counter_at u0 i)"
      "counter_at u j = counter_at u0 j"
  shows "(calls_next sends step)\<^sup>*\<^sup>* ((Take_number j bs # cs, pc), u) ((cs, pc), update_link j (\<lambda>pl. snd (PL_Send bs pl)) u)"
proof -
  let ?i = "pl_n_messages_sent pl" and ?u = "update_link j (\<lambda>pl. pl\<lparr>pl_n_messages_sent := pl_n_messages_sent pl + 1\<rparr>) u"
  have c: "counter_at ?u i = (if i = j then Some (pl_n_messages_sent pl + 1) else counter_at u i)" for i
    using pl by (simp add: counter_at_def update_link_def)
  have c0: "counter_at u0 j = Some (pl_n_messages_sent pl)" using b(3) pl by (simp add: counter_at_def)
  have "budget n ?u" by (rule spend [OF b(1)]) (use b(2) c0 in \<open>simp add: c\<close>)
  with spend [OF b(1,2)] have left: "budget 0 u" "budget 0 ?u" using spare_0 by blast+
  have "calls_next sends step ((Take_number j bs # cs, pc), u) ((Insert_message j ?i bs # cs, pc), ?u)"
    by (rule caller_nextI [where guard = "budget 0", OF fin left(1)]) (simp add: pl)
  moreover have "calls_next sends step ((Insert_message j ?i bs # cs, pc), ?u) ((cs, pc), update_link j (\<lambda>pl. snd (PL_Send bs pl)) u)"
  proof (rule caller_nextI)
    have "perfect_links ?u j = Some (pl\<lparr>pl_n_messages_sent := ?i + 1\<rparr>)" using pl by (simp add: update_link_def)
    moreover have "update_link j (\<lambda>pl. pl\<lparr>messages_to_send := (if messages_to_send pl ?i = None
        then (messages_to_send pl)(?i \<mapsto> bs) else messages_to_send pl)\<rparr>) ?u = update_link j (\<lambda>pl. snd (PL_Send bs pl)) u"
      unfolding update_link_twice by (rule update_link_cong [OF pl]) (simp add: PL_Send_def Let_def)
    ultimately show "link_by_link sends step links (Insert_message j ?i bs # cs, pc) ?u =
        Inr ((cs, pc), update_link j (\<lambda>pl. snd (PL_Send bs pl)) u)" for links by (simp add: pl)
  qed (use fin left(2) in simp_all)
  ultimately show ?thesis by (meson converse_rtranclp_into_rtranclp r_into_rtranclp)
qed

lemma caller_sends_all:
  assumes "finite (dom (perfect_links u))" and "set links \<subseteq> dom (perfect_links u)" and "distinct links"
    and "budget (Suc n) u0" "\<And>i. counter_at u i = counter_at u0 i \<or> counter_at u i = map_option (\<lambda>c. c + 1) (counter_at u0 i)"
      "\<And>j. j \<in> set links \<Longrightarrow> counter_at u j = counter_at u0 j"
  shows "(calls_next sends step)\<^sup>*\<^sup>* ((map (\<lambda>j. Take_number j bs) links @ cs, pc), u)
    ((cs, pc), fold (\<lambda>j. update_link j (\<lambda>pl. snd (PL_Send bs pl))) links u)"
  using assms
proof (induction links arbitrary: u)
  case (Cons j links)
  let ?u = "update_link j (\<lambda>pl. snd (PL_Send bs pl)) u"
  from Cons.prems obtain pl where pl: "perfect_links u j = Some pl" by auto
  have c: "counter_at ?u i = (if i = j then map_option (\<lambda>c. c + 1) (counter_at u j) else counter_at u i)" for i
    by (simp add: counter_at_def option.map_comp comp_def PL_Send_def Let_def)
  have "(calls_next sends step)\<^sup>*\<^sup>* ((map (\<lambda>j. Take_number j bs) links @ cs, pc), ?u)
      ((cs, pc), fold (\<lambda>j. update_link j (\<lambda>pl. snd (PL_Send bs pl))) links ?u)"
  proof (rule Cons.IH)
    show "counter_at ?u i = counter_at u0 i \<or> counter_at ?u i = map_option (\<lambda>c. c + 1) (counter_at u0 i)" for i
      using Cons.prems(5) [of i] Cons.prems(6) [of j] by (simp add: c)
    show "counter_at ?u i = counter_at u0 i" if "i \<in> set links" for i
      using Cons.prems(3,6) that by (auto simp: c)
  qed (use Cons.prems in \<open>simp_all only: dom_update_link set_simps distinct.simps insert_subset\<close>)
  with caller_sends_one [OF Cons.prems(1) pl Cons.prems(4,5), of sends step bs "map (\<lambda>j. Take_number j bs) links @ cs" pc]
    Cons.prems(6)
  show ?case by auto
qed simp

lemma caller_broadcast:
  assumes fin: "finite (dom (perfect_links u))" and "sends pc = Some (msg, pc')" and "BEB_SendInternal msg u = Inr u'"
    and b: "budget (Suc n) u"
  shows "(calls_next sends step)\<^sup>*\<^sup>* (([], pc), u) (([], pc'), u') \<and> budget n u'"
proof -
  obtain links where links: "links_of u links" using links_of_exists [OF fin] by blast
  let ?bs = "Broadcast_Serialize msg" and ?cs = "map (\<lambda>j. Take_number j (Broadcast_Serialize msg)) links"
  have u': "u' = send_on_all ?bs u" and len: "length (bm_payload msg) \<le> 1"
    using assms(3) by (auto simp: BEB_SendInternal_eq split: if_splits)
  have "link_by_link sends step links ([], pc) u = Inr ((?cs, pc'), u)"
    using assms(2) len by (simp add: BEB_calls_def write_buffer_def)
  with links spare_0 [OF b] have "calls_next sends step (([], pc), u) ((?cs, pc'), u)" by (auto simp: caller_next_def)
  also have "(calls_next sends step)\<^sup>*\<^sup>* ((?cs, pc'), u) (([], pc'), u')"
    using caller_sends_all [OF fin _ _ b, of links sends step ?bs "[]" pc'] links send_on_all_fold [of links u ?bs]
    by (simp add: links_of_def u')
  finally have "(calls_next sends step)\<^sup>*\<^sup>* (([], pc), u) (([], pc'), u')" by simp
  moreover have "budget n u'"
    by (rule spend [OF b]) (simp add: u' counter_at_def option.map_comp comp_def PL_Send_def Let_def)
  ultimately show ?thesis by blast
qed

text \<open>A thread that runs alone: its position and the links are all that the calls add.\<close>

lemma caller_alone:
  assumes "run_thread step idle fuel pc u = Some (Inr u')" and "finite (dom (perfect_links u))"
    and broadcast: "\<And>pc msg pc' u. sends pc = Some (msg, pc') \<Longrightarrow> step pc u = bind_result (BEB_SendInternal msg u) (\<lambda>u. Inr (pc', u))"
    and links: "\<And>pc u pc' u'. sends pc = None \<Longrightarrow> step pc u = Inr (pc', u') \<Longrightarrow> perfect_links u' = perfect_links u"
    and "budget (fuel + n) u"
  shows "(calls_next sends step)\<^sup>*\<^sup>* (([], pc), u) (([], idle), u') \<and> dom (perfect_links u') = dom (perfect_links u) \<and> budget n u'"
  using assms(1,2,5)
proof (induction fuel arbitrary: pc u)
  case 0
  then show ?case by (simp split: if_splits)
next
  case (Suc fuel)
  show ?case
  proof (cases "pc = idle")
    case False
    with Suc.prems(1) obtain pc1 u1 where st: "step pc u = Inr (pc1, u1)"
      and run: "run_thread step idle fuel pc1 u1 = Some (Inr u')"
      by (auto split: sum.splits)
    have b: "budget (Suc (fuel + n)) u" using Suc.prems(3) by simp
    have "(calls_next sends step)\<^sup>*\<^sup>* (([], pc), u) (([], pc1), u1) \<and> dom (perfect_links u1) = dom (perfect_links u) \<and>
        budget (fuel + n) u1"
    proof (cases "sends pc")
      case None
      have "calls_next sends step (([], pc), u) (([], pc1), u1)"
        by (rule caller_nextI [where guard = "budget 0", OF Suc.prems(2) spare_0 [OF b]]) (simp add: None st)
      moreover have "budget (fuel + n) u1" by (rule keep [OF spare [OF b] counter_links [OF links [OF None st]]])
      ultimately show ?thesis using links [OF None st] by auto
    next
      case (Some a)
      obtain msg q where a: "a = (msg, q)" by (cases a)
      from Some a have "bind_result (BEB_SendInternal msg u) (\<lambda>u. Inr (q, u)) = Inr (pc1, u1)"
        using broadcast [of pc msg q u] st by simp
      then have sent: "BEB_SendInternal msg u = Inr u1" "q = pc1" by simp_all
      then have "dom (perfect_links u1) = dom (perfect_links u)" by (auto simp: BEB_SendInternal_eq split: if_splits)
      with caller_broadcast [OF Suc.prems(2) _ sent(1) b, of sends pc pc1 step] Some a sent(2) show ?thesis by simp
    qed
    with Suc.IH [OF run] Suc.prems(2) show ?thesis by auto
  qed (use Suc.prems spare_all [of "Suc fuel" n] in simp)
qed

end


section \<open>Whole operations of a process at rest\<close>

abbreviation with_manager :: "ufifo app \<Rightarrow> ufifo \<Rightarrow> ufifo app" where
  "with_manager a m \<equiv> a\<lparr>app_manager := m\<rparr>"

lemma start_node_sel [simp]:
  "nd_threads (start_node a) = \<lparr>t_urb = app_manager a, t_recv = R_idle, t_del = D_idle, t_send = S_idle\<rparr>"
  "nd_server (start_node a) = app_server a" "nd_at (start_node a) = W_wait" "nd_recv_calls (start_node a) = []"
  "nd_del_calls (start_node a) = []" "nd_send_calls (start_node a) = []" "nd_acks (start_node a) = A_links []"
  "nd_msgs (start_node a) = []"
  by (simp_all add: start_node_def)

context send_budget
begin

lemmas run_refl = nr_refl [where guard = "budget 0"]
  and run_one = nr_one [where guard = "budget 0"]
  and run_step = nr_step [where guard = "budget 0"]
  and run_trans = nr_trans [where guard = "budget 0"]
  and run_silent = nr_silent [where guard = "budget 0"]

lemma caller_node:
  assumes "(calls_next sends step)\<^sup>*\<^sup>* (p, u) (p', u')"
    and one: "\<And>links p u p' u'. links_of u links \<Longrightarrow> budget 0 u \<Longrightarrow> link_by_link sends step links p u = Inr (p', u') \<Longrightarrow>
      runs inbox (N p u) [] (N p' u')"
  shows "runs inbox (N p u) [] (N p' u')"
  using assms(1)
proof (induction "(p', u')" arbitrary: p' u' rule: rtranclp_induct)
  case base
  then show ?case by (simp add: run_refl)
next
  case (step b)
  obtain p1 u1 where b: "b = (p1, u1)" by (cases b)
  with step.hyps(2) obtain links where "links_of u1 links" "budget 0 u1" "link_by_link sends step links p1 u1 = Inr (p', u')"
    by (auto simp: caller_next_def)
  then have "runs inbox (N p1 u1) [] (N p' u')" by (rule one)
  with step.hyps(3) [OF b] run_silent show ?case by blast
qed

lemma Send_alone:
  assumes "URB_Send ufifo_vt msg (app_manager a) = Inr m" and "bc_n_messages_sent (app_manager a) \<noteq> - 1"
    and fin: "finite (dom (perfect_links (app_manager a)))" and b: "budget 5 (app_manager a)"
  shows "runs inbox (start_node a) [] (start_node (with_manager a m))"
proof -
  let ?N = "\<lambda>p u. (start_node a)\<lparr>nd_send_calls := fst p, nd_threads := (nd_threads (start_node a))\<lparr>t_send := snd p, t_urb := u\<rparr>\<rparr>"
  obtain s u where s: "sender_begin msg (app_manager a) = (s, u)" by (cases "sender_begin msg (app_manager a)")
  have "run_thread sender_step S_idle 5 s u = Some (Inr m)" using sender_alone [of msg "app_manager a"] assms(1) s by simp
  moreover have same: "perfect_links u = perfect_links (app_manager a)" using s by (auto simp: sender_begin_def)
  moreover have "budget (5 + 0) u" using keep [OF b counter_links [OF same]] by simp
  ultimately have run: "(calls_next sender_sends sender_step)\<^sup>*\<^sup>* (([], s), u) (([], S_idle), m)"
    using caller_alone [of sender_step S_idle 5 s u m sender_sends 0] sends_step(3) sender_links fin by auto
  have "node_step inbox (start_node a) [] (?N ([], s) u)"
    using nd_call [of "start_node a" msg s u inbox] assms(2) s by (simp add: start_node_def)
  moreover have "runs inbox (?N ([], s) u) [] (?N ([], S_idle) m)"
  proof (rule caller_node [OF run])
    fix links p u p' u' assume "links_of u links" "budget 0 u" "link_by_link sender_sends sender_step links p u = Inr (p', u')"
    then show "runs inbox (?N p u) [] (?N p' u')"
      using nd_send [of links "?N p u" "fst p'" "snd p'" u' inbox] by (intro run_one) simp_all
  qed
  moreover have "?N ([], S_idle) m = start_node (with_manager a m)" by (simp add: start_node_def)
  moreover have "budget 0 (nd_urb (start_node a))" using spare_0 [OF b] by simp
  ultimately show ?thesis using run_one run_silent by metis
qed

lemma DeliverPending_alone:
  assumes "URB_DeliverPending ufifo_vt after_pop ids (app_manager a) = Inr m" and pop: "reads_front after_pop"
    and "distinct ids" "set ids = pending_for_delivery (app_manager a)"
    and fin: "finite (dom (perfect_links (app_manager a)))" and b: "budget (Suc (11 * length ids)) (app_manager a)"
  shows "runs inbox (start_node a) [] (start_node (with_manager a m))"
proof (cases "on (app_manager a)")
  case False
  with assms(1) have "with_manager a m = a" by (simp add: URB_DeliverPending_def)
  then show ?thesis by (simp add: run_refl)
next
  case True
  let ?N = "\<lambda>p u. (start_node a)\<lparr>nd_del_calls := fst p, nd_threads := (nd_threads (start_node a))\<lparr>t_del := snd p, t_urb := u\<rparr>\<rparr>"
  have "run_thread (deliverer_step after_pop) D_idle (Suc (11 * length ids)) (D_next ids) (app_manager a) = Some (Inr m)"
    using deliverer_alone [OF True, of ids "Suc (11 * length ids)" after_pop] assms(1) by simp
  then have run: "(calls_next deliverer_sends (deliverer_step after_pop))\<^sup>*\<^sup>* (([], D_next ids), app_manager a) (([], D_idle), m)"
    using caller_alone [OF _ fin, of "deliverer_step after_pop" D_idle "Suc (11 * length ids)" "D_next ids" m deliverer_sends 0]
      sends_step(2) deliverer_links b by simp
  have "node_step inbox (start_node a) [] (?N ([], D_next ids) (app_manager a))"
    using nd_turn [of "start_node a" ids inbox] assms(3,4) True by (simp add: start_node_def)
  moreover have "runs inbox (?N ([], D_next ids) (app_manager a)) [] (?N ([], D_idle) m)"
  proof (rule caller_node [OF run])
    fix links p u p' u' assume "links_of u links" "budget 0 u" "link_by_link deliverer_sends (deliverer_step after_pop) links p u = Inr (p', u')"
    then show "runs inbox (?N p u) [] (?N p' u')"
      using nd_deliver [of after_pop links "?N p u" "fst p'" "snd p'" u' inbox] pop by (intro run_one) simp_all
  qed
  moreover have "?N ([], D_idle) m = start_node (with_manager a m)" by (simp add: start_node_def)
  moreover have "budget 0 (nd_urb (start_node a))" using spare_0 [OF b] by simp
  ultimately show ?thesis using run_one run_silent by metis
qed

text \<open>The thread that sends messages can pass over a link without sending anything.\<close>

lemma messages_alone:
  assumes "Manager_SendMessages sendto links ord (app_manager a) = Inr out"
    and fin: "finite (dom (perfect_links (app_manager a)))" and b: "budget 0 (app_manager a)"
  shows "runs inbox (start_node a) out (start_node a)"
proof (cases "on (app_manager a)")
  case False
  with assms(1) show ?thesis by (simp add: Manager_SendMessages_def run_refl)
next
  case True
  let ?m = "app_manager a"
  let ?N = "\<lambda>l. (start_node a)\<lparr>nd_msgs := l\<rparr>"
  obtain all where all: "links_of ?m all" using links_of_exists [OF fin] by blast
  have "node_step inbox (start_node a) [] (?N all)"
    using nd_messages_turn [of "start_node a" all inbox] True all by simp
  then have turn: "runs inbox (start_node a) [] (?N all)" using b by (intro run_one) simp_all
  have pass: "runs inbox (?N (A @ B)) [] (?N B)" if "set A \<subseteq> dom (perfect_links ?m)" for A B
    using that
  proof (induction A)
    case (Cons j A)
    then obtain pl where "perfect_links ?m j = Some pl" by auto
    then have "node_step inbox (?N (j # A @ B)) [] (?N (A @ B))"
      using nd_message [of sendto "[]" "?N (j # A @ B)" "[]" "A @ B" inbox] by (simp add: PL_SendMessages_def)
    then have "runs inbox (?N (j # A @ B)) [] (?N (A @ B))" using b by (intro run_one) simp_all
    with Cons show ?case using run_silent by fastforce
  qed (simp add: run_refl)
  have one: "runs inbox (start_node a) out (start_node a)"
    if pl: "perfect_links ?m j = Some pl" and out: "PL_SendMessages sendto os pl = Inr out" for j pl os out
  proof -
    have "j \<in> set all" using pl all by (auto simp: links_of_def)
    then obtain A B where AB: "all = A @ j # B" by (meson split_list)
    then have sub: "set A \<subseteq> dom (perfect_links ?m)" "set B \<subseteq> dom (perfect_links ?m)" using all by (auto simp: links_of_def)
    have "node_step inbox (?N (j # B)) out (?N B)"
      using nd_message [of sendto os "?N (j # B)" out B inbox] pl out by simp
    then have "runs inbox (?N (j # B)) out (?N B)" using b by (intro run_one) simp_all
    from run_trans [OF this pass [OF sub(2), of "[]", unfolded append_Nil2]]
    have "runs inbox (?N (j # B)) out (start_node a)" by (simp add: start_node_def)
    then show ?thesis using turn pass [OF sub(1), of "j # B"] run_silent unfolding AB by metis
  qed
  have "Manager_send_loop sendto links ord ?m = Inr out" using assms(1) True by (simp add: Manager_SendMessages_def)
  then show ?thesis
  proof (induction links arbitrary: out)
    case (Cons i links)
    show ?case
    proof (cases "perfect_links ?m i")
      case (Some pl)
      with Cons.prems obtain o1 rest where "PL_SendMessages sendto (ord i) pl = Inr o1"
        "Manager_send_loop sendto links ord ?m = Inr rest" "out = o1 @ rest" by auto
      with one [OF Some] Cons.IH run_trans show ?thesis by blast
    qed (use Cons in simp)
  qed (simp add: run_refl)
qed


text \<open>
  The acknowledging thread can pass over a link as well: when nothing can be sent, and no
  acknowledgement is old.
\<close>

lemma update_link_id [simp]: "update_link j (\<lambda>pl. pl) u = u"
  by (simp add: update_link_def option.map_ident)

lemma ack_at:
  assumes "acks_step sendto strong now oa od l u = Inr (out, l', u')"
    and "\<And>j links pl. l = A_links (j # links) \<Longrightarrow> perfect_links u j = Some pl \<Longrightarrow> set oa = acks_to_send pl"
  shows "node_step inbox ((start_node (with_manager a u))\<lparr>nd_acks := l\<rparr>) out ((start_node (with_manager a u'))\<lparr>nd_acks := l'\<rparr>)"
proof -
  let ?n = "(start_node (with_manager a u))\<lparr>nd_acks := l\<rparr>"
  have "node_step inbox ?n out ((set_urb u' ?n)\<lparr>nd_acks := l'\<rparr>)"
    by (rule nd_ack) (use assms in auto)
  then show ?thesis by (simp add: start_node_def)
qed

lemma acks_pass:
  fixes a :: "ufifo app"
  defines "N \<equiv> \<lambda>l u. (start_node (with_manager a u))\<lparr>nd_acks := l\<rparr>"
  assumes "set A \<subseteq> dom (perfect_links u)" and b: "budget 0 u"
  shows "runs inbox (N (A_links (A @ B)) u) [] (N (A_links B) u)"
  using assms(2)
proof (induction A)
  case (Cons j A)
  then obtain pl where pl: "perfect_links u j = Some pl" by auto
  let ?s = "\<lambda>_ _. Inl Terminate"
  obtain oa where oa: "set oa = acks_to_send pl" using finite_list [of "acks_to_send pl"] by auto
  have here: "budget 0 (nd_urb (N l u))" for l using b by (simp add: N_def)
  have "runs inbox (N (A_links (j # A @ B)) u) [] (N (A_links (A @ B)) u)"
  proof (cases "acks_to_send pl = {}")
    case True
    then have "node_step inbox (N (A_links (j # A @ B)) u) [] (N (A_links (A @ B)) u)"
      unfolding N_def by (intro ack_at [of ?s True now oa "[]"]) (use pl oa in auto)
    then show ?thesis by (rule run_one [OF here])
  next
    case False
    have "node_step inbox (N (A_links (j # A @ B)) u) [] (N (A_clean j (A @ B)) u)"
      unfolding N_def by (intro ack_at [of ?s True now oa "[]"]) (use pl oa False in \<open>auto simp: try_send_def map_replicate_const\<close>)
    moreover have "node_step inbox (N (A_clean j (A @ B)) u) [] (N (A_erase j [] (A @ B)) u)"
      unfolding N_def by (intro ack_at [of ?s True now oa "[]"]) (use pl in \<open>auto simp: acks_to_remove_def\<close>)
    moreover have "node_step inbox (N (A_erase j [] (A @ B)) u) [] (N (A_links (A @ B)) u)"
      unfolding N_def by (intro ack_at [of ?s True now oa "[]"]) (use pl in auto)
    ultimately show ?thesis using run_one [OF here] run_silent by metis
  qed
  with Cons show ?case using run_silent by fastforce
qed (simp add: run_refl)

lemma acks_one:
  fixes sendto :: "bytes \<Rightarrow> machine \<Rightarrow> int result" and strong :: bool and now :: time and od :: "u32 list"
  assumes "on u" and pl: "perfect_links u j = Some pl" and oa: "set oa = acks_to_send pl"
    and fin: "finite (dom (perfect_links u))" and b: "budget 0 u"
  defines "r \<equiv> PL_SendAcks sendto strong now oa od pl"
  shows "runs inbox (start_node (with_manager a u)) (fst r) (start_node (with_manager a (update_link j (\<lambda>_. snd r) u)))"
proof (cases "acks_to_send pl = {}")
  case True
  then have "r = ([], pl)" by (simp add: r_def PL_SendAcks_def)
  moreover have "update_link j (\<lambda>_. pl) u = u" using update_link_cong [OF pl, of "\<lambda>_. pl" "\<lambda>pl. pl"] by simp
  ultimately show ?thesis by (simp add: run_refl)
next
  case False
  let ?N = "\<lambda>l u. (start_node (with_manager a u))\<lparr>nd_acks := l\<rparr>"
  let ?rm = "acks_to_remove now od (messages_delivered pl)"
  let ?d = "\<lambda>d. if strong then d else fold (\<lambda>(s, remove_from_delivered) d. if remove_from_delivered then d(s := None) else d) ?rm d"
  let ?u1 = "update_link j (\<lambda>pl. pl\<lparr>messages_delivered := ?d (messages_delivered pl)\<rparr>) u"
  let ?u2 = "update_link j (\<lambda>pl. pl\<lparr>acks_to_send := fold (\<lambda>(s, _) A. A - {s}) ?rm (acks_to_send pl)\<rparr>) ?u1"
  obtain all where all: "links_of u all" using links_of_exists [OF fin] by blast
  then have "j \<in> set all" using pl by (auto simp: links_of_def)
  then obtain A B where AB: "all = A @ j # B" by (meson split_list)
  then have sub: "set A \<subseteq> dom (perfect_links u)" "set B \<subseteq> dom (perfect_links u)" using all by (auto simp: links_of_def)
  have u2: "?u2 = update_link j (\<lambda>_. snd r) u"
    unfolding update_link_twice by (rule update_link_cong [OF pl]) (simp add: r_def PL_SendAcks_def PL_CleanAcks_def False Let_def)
  have "dom (perfect_links ?u2) = dom (perfect_links u)" by (simp only: dom_update_link)
  with sub(2) have B: "set B \<subseteq> dom (perfect_links ?u2)" by simp
  have b1: "budget 0 ?u1" and b2: "budget 0 ?u2" by (rule keep [OF b], simp)+
  have "node_step inbox (start_node (with_manager a u)) [] (?N (A_links all) u)"
    using nd_acks_turn [of "start_node (with_manager a u)" all inbox] assms(1) all by simp
  then have "runs inbox (start_node (with_manager a u)) [] (?N (A_links all) u)" using b by (intro run_one) simp_all
  then have to_j: "runs inbox (start_node (with_manager a u)) [] (?N (A_links (j # B)) u)"
    using acks_pass [OF sub(1) b] run_silent unfolding AB by blast
  have "node_step inbox (?N (A_links (j # B)) u) (fst r) (?N (A_clean j B) u)"
    by (rule ack_at [of sendto strong now oa od]) (use pl oa False in \<open>auto simp: r_def PL_SendAcks_def\<close>)
  note sent = run_silent [OF to_j run_one [OF _ this]]
  have "node_step inbox (?N (A_clean j B) u) [] (?N (A_erase j ?rm B) ?u1)"
    by (rule ack_at [of sendto strong now oa od]) (use pl in \<open>simp_all add: Let_def\<close>)
  note cleaned = run_step [OF sent _ this]
  have "node_step inbox (?N (A_erase j ?rm B) ?u1) [] (?N (A_links B) ?u2)"
    by (rule ack_at [of sendto strong now oa od]) (use pl in simp_all)
  note erased = run_step [OF cleaned _ this]
  have "runs inbox (?N (A_links B) ?u2) [] (?N (A_links []) ?u2)"
    using acks_pass [OF B b2, where a = a and B = "[]"] by simp
  moreover have "?N (A_links []) ?u2 = start_node (with_manager a ?u2)" by (simp add: start_node_def)
  ultimately show ?thesis using run_trans [OF erased, of "[]"] b b1 unfolding u2 by simp
qed

lemma acks_alone:
  assumes "Manager_SendAcks sendto strong now links oa od (app_manager a) = (out, m)" and "distinct links"
    and oa: "\<And>j pl. perfect_links (app_manager a) j = Some pl \<Longrightarrow> set (oa j) = acks_to_send pl"
    and fin: "finite (dom (perfect_links (app_manager a)))" and b: "budget 0 (app_manager a)"
  shows "runs inbox (start_node a) out (start_node (with_manager a m))"
proof (cases "on (app_manager a)")
  case False
  with assms(1) have "out = []" "with_manager a m = a" by (simp_all add: Manager_SendAcks_def)
  then show ?thesis by (simp add: run_refl)
next
  case True
  let ?m0 = "app_manager a"
  let ?f = "\<lambda>i (out, m). case perfect_links m i of None \<Rightarrow> (out, m)
    | Some pl \<Rightarrow> (let r = PL_SendAcks sendto strong now (oa i) (od i) pl in (out @ fst r, update_link i (\<lambda>_. snd r) m))"
  have "runs inbox (start_node a) out (start_node (with_manager a m))"
    if "fold ?f links (out1, u) = (out, m)" "distinct links" "runs inbox (start_node a) out1 (start_node (with_manager a u))"
      "\<forall>j \<in> set links. perfect_links u j = perfect_links ?m0 j" "on u" "finite (dom (perfect_links u))" "budget 0 u" for links out1 u
    using that
  proof (induction links arbitrary: out1 u)
    case (Cons i links)
    show ?case
    proof (cases "perfect_links u i")
      case None
      with Cons show ?thesis by simp
    next
      case (Some pl)
      let ?r = "PL_SendAcks sendto strong now (oa i) (od i) pl"
      have "set (oa i) = acks_to_send pl" using oa Some Cons.prems(4) by simp
      from run_trans [OF Cons.prems(3) acks_one [OF Cons.prems(5) Some this Cons.prems(6,7)]]
      have "runs inbox (start_node a) (out1 @ fst ?r) (start_node (with_manager a (update_link i (\<lambda>_. snd ?r) u)))" .
      moreover have "\<forall>j \<in> set links. perfect_links (update_link i (\<lambda>_. snd ?r) u) j = perfect_links ?m0 j"
        using Cons.prems(2,4) by (auto simp: update_link_def)
      moreover have "budget 0 (update_link i (\<lambda>_. snd ?r) u)"
        using Some by (intro keep [OF Cons.prems(7)])
          (simp add: counter_at_def fun_eq_iff update_link_def PL_SendAcks_def PL_CleanAcks_def Let_def)
      ultimately show ?thesis
        using Cons.IH [of "out1 @ fst ?r" "update_link i (\<lambda>_. snd ?r) u"] Cons.prems Some
        unfolding dom_update_link by (simp add: Let_def)
    qed
  qed simp
  moreover have "with_manager a ?m0 = a" by simp
  ultimately show ?thesis using assms(1,2) fin b True run_refl by (auto simp: Manager_SendAcks_def)
qed

end

section \<open>A datagram handled without interruption\<close>

definition hearing_node :: "ufifo app \<Rightarrow> receiving \<Rightarrow> u32 udp_server \<times> ufifo \<Rightarrow> node" where
  "hearing_node a p st = (case p of (w, cs, r) \<Rightarrow> case st of (srv, u) \<Rightarrow>
     (start_node a)\<lparr>nd_at := w, nd_recv_calls := cs, nd_server := srv,
       nd_threads := \<lparr>t_urb = u, t_recv = r, t_del = D_idle, t_send = S_idle\<rparr>\<rparr>)"

lemma wires_links:
  "wires u = wires v \<Longrightarrow> map_option (\<lambda>pl. (pl_target_id pl, pl_target_addr pl, managers pl)) (perfect_links u j) =
     map_option (\<lambda>pl. (pl_target_id pl, pl_target_addr pl, managers pl)) (perfect_links v j)"
  by (simp add: wires_def fun_eq_iff)

lemma wires_finite:
  assumes "wires u = wires v" and "finite (dom (perfect_links v))"
  shows "finite (dom (perfect_links u))"
proof -
  have "j \<in> dom (perfect_links u) \<longleftrightarrow> j \<in> dom (perfect_links v)" for j
    using wires_links [OF assms(1), of j] by (cases "perfect_links u j"; cases "perfect_links v j") auto
  then have "dom (perfect_links u) = dom (perfect_links v)" by blast
  with assms(2) show ?thesis by simp
qed

lemma wires_target:
  assumes "wires u = wires v" and "perfect_links v j = Some pl"
  shows "\<exists>pl'. perfect_links u j = Some pl' \<and> pl_target_id pl' = pl_target_id pl \<and> managers pl' = managers pl"
  using wires_links [OF assms(1), of j] assms(2) by auto

lemma wires_update_link:
  assumes "\<And>pl. pl_target_id (f pl) = pl_target_id pl \<and> pl_target_addr (f pl) = pl_target_addr pl \<and> managers (f pl) = managers pl"
  shows "wires (update_link j f u) = wires u"
  using assms by (auto simp: wires_def update_link_def option.map_comp comp_def fun_eq_iff)

lemma receiving_at:
  assumes "receiving_step now links p st = Inr (p', st')" and "links_of (snd st) links"
  shows "node_step inbox (hearing_node a p st) [] (hearing_node a p' st')"
proof -
  obtain w cs r where p: "p = (w, cs, r)" by (cases p)
  obtain w' cs' r' where p': "p' = (w', cs', r')" by (cases p')
  obtain srv u where st: "st = (srv, u)" by (cases st)
  obtain srv' u' where st': "st' = (srv', u')" by (cases st')
  show ?thesis
    using nd_receive [of now links "hearing_node a p st" w' cs' r' srv' u' inbox] assms
    by (simp add: p p' st st' hearing_node_def start_node_def)
qed

context send_budget
begin

lemma server_at_step:
  assumes "server_step now w (srv, u) = Inr (w', up, srv', u')" and "finite (dom (perfect_links u))" and "budget 0 u"
  shows "runs inbox (hearing_node a (w, [], R_idle) (srv, u)) []
    (hearing_node a (w', [], case up of None \<Rightarrow> R_idle | Some msg \<Rightarrow> R_notify msg) (srv', u'))"
proof -
  obtain links where "links_of u links" using links_of_exists [OF assms(2)] by blast
  then show ?thesis using assms(1) by (intro run_one receiving_at [of now links]) (use assms(3) in \<open>simp_all add: receiving_step_def hearing_node_def\<close>)
qed

lemma NotifyInternal_alone:
  assumes "vt_NotifyInternal ufifo_vt msg u = Inr u'" and fin: "finite (dom (perfect_links u))" and b: "budget (6 + n) u"
  shows "runs inbox (hearing_node a (w, [], R_notify msg) (srv, u)) [] (hearing_node a (w, [], R_idle) (srv, u')) \<and> budget n u'"
proof -
  have run: "(calls_next receiver_sends receiver_step)\<^sup>*\<^sup>* (([], R_notify msg), u) (([], R_idle), u')" and "budget n u'"
    using caller_alone [of receiver_step R_idle 6 "R_notify msg" u u' receiver_sends n] receiver_alone [of msg u] assms(1)
      sends_step(1) receiver_links fin b by auto
  from run have "runs inbox (hearing_node a (w, [], R_notify msg) (srv, u)) [] (hearing_node a (w, [], R_idle) (srv, u'))"
  proof (rule caller_node)
    fix links p u p' u' assume l: "links_of u links" "budget 0 u" "link_by_link receiver_sends receiver_step links p u = Inr (p', u')"
    show "runs inbox (hearing_node a (w, p) (srv, u)) [] (hearing_node a (w, p') (srv, u'))"
    proof (cases "p = ([], R_idle)")
      case True
      with l(3) show ?thesis by (auto simp: run_refl)
    next
      case False
      have "budget 0 (nd_urb (hearing_node a (w, p) (srv, u)))" using l(2) by (simp add: hearing_node_def split: prod.split)
      with False l show ?thesis by (intro run_one receiving_at [of _ links]) (simp_all add: receiving_step_def)
    qed
  qed
  with \<open>budget n u'\<close> show ?thesis by blast
qed

lemma managers_alone:
  assumes "fold_result (\<lambda>manager. Broadcast_Notify ufifo_vt tid message) ms u = Inr u'"
    and "finite (dom (perfect_links u))" "perfect_links u j = Some pl" "pl_target_id pl = tid"
    and "budget (6 * length ms + n) u"
  shows "runs inbox (hearing_node a (W_notify j (N_managers message ms) obs bs, [], R_idle) (srv, u)) []
      (hearing_node a (W_notify j (N_stamp message) obs bs, [], R_idle) (srv, u')) \<and>
      wires u' = wires u \<and> budget n u'"
  using assms
proof (induction ms arbitrary: u pl)
  case Nil
  have "server_step 0 (W_notify j (N_managers message []) obs bs) (srv, u) =
      Inr (W_notify j (N_stamp message) obs bs, None, srv, u)" by simp
  from server_at_step [OF this Nil.prems(2) spare_0 [OF Nil.prems(5)]] Nil.prems(1,5) show ?case by simp
next
  case (Cons mg ms)
  have b: "budget (6 + (6 * length ms + n)) u" using Cons.prems(5) by (simp add: ac_simps)
  from Cons.prems(1) obtain u1 where u1: "Broadcast_Notify ufifo_vt tid message u = Inr u1"
    and rest: "fold_result (\<lambda>manager. Broadcast_Notify ufifo_vt tid message) ms u1 = Inr u'" by auto
  let ?at = "\<lambda>ms r u. hearing_node a (W_notify j (N_managers message ms) obs bs, [], r) (srv, u)"
  have "server_step 0 (W_notify j (N_managers message (mg # ms)) obs bs) (srv, u) =
      Inr (W_notify j (N_managers message ms) obs bs, Broadcast_Parse tid (pm_payload message), srv, u)"
    using Cons.prems(3,4) by simp
  note up = server_at_step [OF this Cons.prems(2) spare_0 [OF b]]
  have here: "runs inbox (?at (mg # ms) R_idle u) [] (?at ms R_idle u1) \<and> wires u1 = wires u \<and> budget (6 * length ms + n) u1"
  proof (cases "Broadcast_Parse tid (pm_payload message)")
    case None
    with u1 up spare_all [OF b] show ?thesis by (simp add: Broadcast_Notify_def)
  next
    case (Some bm)
    with u1 have bm: "vt_NotifyInternal ufifo_vt bm u = Inr u1" by (simp add: Broadcast_Notify_def)
    from run_silent [OF up] NotifyInternal_alone [OF bm Cons.prems(2) b]
    have "runs inbox (?at (mg # ms) R_idle u) [] (?at ms R_idle u1) \<and> budget (6 * length ms + n) u1" by (simp add: Some)
    with ufifo_urb.Notify_local(1) [OF bm] show ?thesis by (simp add: local_step_def)
  qed
  obtain pl1 where "perfect_links u1 j = Some pl1" "pl_target_id pl1 = tid"
    using wires_target [of u1 u j pl] here Cons.prems(3,4) by auto
  with Cons.IH [OF rest wires_finite [of u1 u]] here Cons.prems(2)
  have "runs inbox (?at ms R_idle u1) [] (hearing_node a (W_notify j (N_stamp message) obs bs, [], R_idle) (srv, u'))"
    "wires u' = wires u1" "budget n u'" by auto
  with here run_silent show ?case by auto
qed


lemma message_alone:
  fixes u :: ufifo
  assumes "Broadcast_Notify ufifo_vt (pl_target_id pl) message = notify"
    and pl: "perfect_links u j = Some pl" and fin: "finite (dom (perfect_links u))"
    and u1: "u1 = update_link j (\<lambda>pl. pl\<lparr>acks_to_send := insert (pm_seq message) (acks_to_send pl)\<rparr>) u"
    and run: "(if messages_delivered pl (pm_seq message) = None then fold_result (\<lambda>manager. notify) (managers pl) u1 else Inr u1) = Inr u2"
    and u3: "u3 = update_link j (\<lambda>pl. pl\<lparr>messages_delivered := (messages_delivered pl)(pm_seq message \<mapsto> now)\<rparr>) u2"
    and b: "budget (6 * length (managers pl) + n) u"
  shows "runs inbox (hearing_node a (W_notify j (N_ack message) obs bs, [], R_idle) (srv, u)) []
      (hearing_node a (W_loop obs bs, [], R_idle) (srv, u3)) \<and> wires u3 = wires u \<and> budget n u3"
proof -
  let ?at = "\<lambda>w u. hearing_node a (w, [], R_idle) (srv, u)"
  let ?pl = "pl\<lparr>acks_to_send := insert (pm_seq message) (acks_to_send pl)\<rparr>"
  let ?next = "if messages_delivered pl (pm_seq message) = None then N_managers message (managers pl) else N_stamp message"
  have w1: "wires u1 = wires u" unfolding u1 by (rule wires_update_link) simp
  have b1: "budget (6 * length (managers pl) + n) u1" unfolding u1 by (rule keep [OF b]) simp
  note fin1 = wires_finite [OF w1 fin]
  have pl1: "perfect_links u1 j = Some ?pl" using pl by (simp add: u1)
  have "server_step now (W_notify j (N_ack message) obs bs) (srv, u) = Inr (W_notify j (N_look message) obs bs, None, srv, u1)"
    using pl by (simp add: u1)
  from server_at_step [OF this fin spare_0 [OF b]]
  have ack: "runs inbox (?at (W_notify j (N_ack message) obs bs) u) [] (?at (W_notify j (N_look message) obs bs) u1)" by simp
  have "server_step now (W_notify j (N_look message) obs bs) (srv, u1) = Inr (W_notify j ?next obs bs, None, srv, u1)"
    using pl1 by simp
  from server_at_step [OF this fin1 spare_0 [OF b1]] have "runs inbox (?at (W_notify j (N_look message) obs bs) u1) [] (?at (W_notify j ?next obs bs) u1)"
    by simp
  note looked = run_silent [OF ack this]
  have "runs inbox (?at (W_notify j ?next obs bs) u1) [] (?at (W_notify j (N_stamp message) obs bs) u2) \<and>
      wires u2 = wires u1 \<and> budget n u2"
  proof (cases "messages_delivered pl (pm_seq message) = None")
    case True
    with managers_alone [of "pl_target_id pl" message "managers pl" u1 u2 j ?pl n] run assms(1) fin1 pl1 b1
    show ?thesis by simp
  next
    case False
    with run have "u2 = u1" by simp
    with False spare_all [OF b1] show ?thesis by (auto simp: run_refl)
  qed
  then have through: "runs inbox (?at (W_notify j ?next obs bs) u1) [] (?at (W_notify j (N_stamp message) obs bs) u2)"
    and w2: "wires u2 = wires u1" and b2: "budget n u2" by blast+
  obtain pl2 where pl2: "perfect_links u2 j = Some pl2" using wires_target [OF w2 pl1] by blast
  have "server_step now (W_notify j (N_stamp message) obs bs) (srv, u2) = Inr (W_loop obs bs, None, srv, u3)"
    using pl2 by (simp add: u3)
  from server_at_step [OF this wires_finite [OF w2 fin1] spare_0 [OF b2]]
  have "runs inbox (?at (W_notify j (N_stamp message) obs bs) u2) [] (?at (W_loop obs bs) u3)" by simp
  with looked through run_silent have "runs inbox (?at (W_notify j (N_ack message) obs bs) u) [] (?at (W_loop obs bs) u3)" by blast
  moreover have "wires u3 = wires u2" unfolding u3 by (rule wires_update_link) simp
  moreover have "budget n u3" unfolding u3 by (rule keep [OF b2]) simp
  ultimately show ?thesis using w1 w2 by simp
qed

lemma link_notify_alone:
  assumes "link_notify now j bs u = Inr u'" and fin: "finite (dom (perfect_links u))"
    and one: "\<And>pl. perfect_links u j = Some pl \<Longrightarrow> length (managers pl) \<le> 1" and b: "budget (6 + n) u"
  shows "runs inbox (hearing_node a (W_loop (j # obs) bs, [], R_idle) (srv, u)) []
      (hearing_node a (W_loop obs bs, [], R_idle) (srv, u')) \<and> wires u' = wires u \<and> budget n u'"
proof -
  obtain pl where pl: "perfect_links u j = Some pl"
    using assms(1) by (auto simp: link_notify_def PL_Notify_def split: option.splits)
  let ?at = "\<lambda>w u. hearing_node a (w, [], R_idle) (srv, u)"
  let ?w = "case Notify_begin bs of None \<Rightarrow> W_loop obs bs | Some p \<Rightarrow> W_notify j p obs bs"
  have "server_step now (W_loop (j # obs) bs) (srv, u) = Inr (?w, None, srv, u)" using pl by simp
  from server_at_step [OF this fin spare_0 [OF b]] have enter: "runs inbox (?at (W_loop (j # obs) bs) u) [] (?at ?w u)" by simp
  show ?thesis
  proof (cases rule: option_packet_cases [of "PL_Parse bs"])
    case 1
    with assms(1) pl enter spare_all [OF b] show ?thesis by (simp add: Notify_begin_def link_notify_def PL_Notify_def)
  next
    case (2 t)
    with assms(1) pl have u': "u' = update_link j (\<lambda>pl. pl\<lparr>messages_to_send := (messages_to_send pl)(t := None)\<rparr>) u"
      by (simp add: link_notify_def PL_Notify_def)
    have "server_step now (W_notify j (N_unqueue t) obs bs) (srv, u) = Inr (W_loop obs bs, None, srv, u')"
      using pl by (simp add: u')
    from server_at_step [OF this fin spare_0 [OF b]] have "runs inbox (?at (W_notify j (N_unqueue t) obs bs) u) [] (?at (W_loop obs bs) u')"
      by simp
    moreover have "wires u' = wires u" unfolding u' by (rule wires_update_link) simp
    moreover have "budget n u'" unfolding u' by (rule keep [OF spare_all [OF b]]) simp
    ultimately show ?thesis using enter run_silent 2 by (auto simp: Notify_begin_def)
  next
    case (3 message)
    let ?u1 = "update_link j (\<lambda>pl. pl\<lparr>acks_to_send := insert (pm_seq message) (acks_to_send pl)\<rparr>) u"
    from assms(1) pl 3 obtain u2 where
      "(if messages_delivered pl (pm_seq message) = None
        then fold_result (\<lambda>manager. Broadcast_Notify ufifo_vt (pl_target_id pl) message) (managers pl) ?u1 else Inr ?u1) = Inr u2"
      "u' = update_link j (\<lambda>pl. pl\<lparr>messages_delivered := (messages_delivered pl)(pm_seq message \<mapsto> now)\<rparr>) u2"
      by (auto simp: link_notify_def PL_Notify_def Let_def)
    moreover have "budget (6 * length (managers pl) + n) u"
      using one [OF pl] b spare_all [of 6 n u] by (cases "managers pl") auto
    ultimately show ?thesis using message_alone [OF refl pl fin refl] enter run_silent 3 by (simp add: Notify_begin_def)
  qed
qed

lemma observers_alone:
  assumes "fold_result (\<lambda>j. link_notify now j bs) obs u = Inr u'" and "finite (dom (perfect_links u))"
    and "\<And>j pl. perfect_links u j = Some pl \<Longrightarrow> length (managers pl) \<le> 1" and "budget (6 * length obs + n) u"
  shows "runs inbox (hearing_node a (W_loop obs bs, [], R_idle) (srv, u)) []
      (hearing_node a (W_wait, [], R_idle) (srv, u'))"
  using assms
proof (induction obs arbitrary: u)
  case Nil
  have "server_step now (W_loop [] bs) (srv, u) = Inr (W_wait, None, srv, u)" by simp
  from server_at_step [OF this Nil.prems(2) spare_0 [OF Nil.prems(4)]] Nil.prems(1) show ?case by simp
next
  case (Cons j obs)
  then obtain u1 where u1: "link_notify now j bs u = Inr u1" and rest: "fold_result (\<lambda>j. link_notify now j bs) obs u1 = Inr u'" by auto
  have mine: "length (managers pl) \<le> 1" if "perfect_links u j = Some pl" for pl using Cons.prems(3) that by blast
  have "budget (6 + (6 * length obs + n)) u" using Cons.prems(4) by (simp add: ac_simps)
  from link_notify_alone [OF u1 Cons.prems(2) mine this, where inbox = inbox and a = a and obs = obs and srv = srv]
  have one: "runs inbox (hearing_node a (W_loop (j # obs) bs, [], R_idle) (srv, u)) [] (hearing_node a (W_loop obs bs, [], R_idle) (srv, u1))"
    and w: "wires u1 = wires u" and b: "budget (6 * length obs + n) u1" by blast+
  have "length (managers pl) \<le> 1" if "perfect_links u1 i = Some pl" for i pl
    using wires_target [OF w [symmetric] that] Cons.prems(3) by fastforce
  from run_silent [OF one Cons.IH [OF rest wires_finite [OF w Cons.prems(2)] this b]] show ?case .
qed

lemma Receive_alone:
  assumes run: "UDPServer_Receive (link_notify now) (Some (bs, src)) (app_server a, app_manager a) = Inr (srv, m)"
    and dg: "(src, bs) \<in> inbox" and fin: "finite (dom (perfect_links (app_manager a)))"
    and one: "\<And>j pl. perfect_links (app_manager a) j = Some pl \<Longrightarrow> length (managers pl) \<le> 1"
    and b: "budget (6 * length (observers_at (app_server a) src)) (app_manager a)"
  shows "runs inbox (start_node a) [] (start_node (a\<lparr>app_server := srv, app_manager := m\<rparr>))"
proof (cases "srv_on (app_server a) \<and> bs \<noteq> []")
  case False
  with run have "srv = app_server a" "m = app_manager a" by (auto simp: UDPServer_Receive_def Let_def split: if_splits)
  then have "a\<lparr>app_server := srv, app_manager := m\<rparr> = a" by simp
  then show ?thesis by (simp add: run_refl)
next
  case True
  let ?bs = "take kMaxSendSize bs" and ?obs = "observers_at (app_server a) src"
  let ?srv = "(app_server a)\<lparr>observers := (observers (app_server a))(src \<mapsto> ?obs)\<rparr>"
  let ?at = "\<lambda>w srv u. hearing_node a (w, [], R_idle) (srv, u)"
  from run True have srv: "srv = ?srv" and loop: "fold_result (\<lambda>j. link_notify now j ?bs) ?obs (app_manager a) = Inr m"
    by (auto simp: UDPServer_Receive_def UDPServer_NotifyAll_def Let_def split: if_splits)
  have "node_step inbox (start_node a) [] (?at (W_observers ?bs src) (app_server a) (app_manager a))"
    using nd_recvfrom [of "start_node a" src bs inbox] True dg by (simp add: hearing_node_def start_node_def)
  note received = run_one [OF _ this]
  have "server_step now (W_observers ?bs src) (app_server a, app_manager a) = Inr (W_loop ?obs ?bs, None, ?srv, app_manager a)"
    by (simp add: Let_def)
  from server_at_step [OF this fin spare_0 [OF b]]
  have "runs inbox (?at (W_observers ?bs src) (app_server a) (app_manager a)) [] (?at (W_loop ?obs ?bs) ?srv (app_manager a))" by simp
  note handled = run_silent [OF received run_silent [OF this observers_alone [where n = 0, OF loop fin one, unfolded add_0_right, OF _ b]]]
  have "?at W_wait ?srv m = start_node (a\<lparr>app_server := srv, app_manager := m\<rparr>)" by (simp add: hearing_node_def start_node_def srv)
  with handled spare_0 [OF b] show ?thesis by simp
qed

end

section \<open>The system of whole steps\<close>

definition at_rest :: "sys \<Rightarrow> tsys" where
  "at_rest s = \<lparr>nodes = \<lambda>q. start_node (procs s q), tnet = net s\<rparr>"

lemma node_step_inbox: "node_step inbox n out n' \<Longrightarrow> inbox \<subseteq> inbox' \<Longrightarrow> node_step inbox' n out n'"
proof (induction rule: node_step.induct)
  case (nd_recvfrom src bs)
  then show ?case using node_step.nd_recvfrom [of n src bs inbox'] by blast
qed (blast intro: node_step.intros)+

lemma temit_set_node [simp]:
  "set_node q n' (temit src out (set_node q n s)) = temit src out (set_node q n' s)"
  "temit src out' (temit src out s) = temit src (out @ out') s" "temit src [] s = s"
proof -
  have "{(src, dst, bs) |bs dst. (bs, dst) \<in> set out} \<union> {(src, dst, bs) |bs dst. (bs, dst) \<in> set out'} =
      {(src, dst, bs) |bs dst. (bs, dst) \<in> set (out @ out')}" by auto
  then show "temit src out' (temit src out s) = temit src (out @ out') s" by (simp add: temit_def Un_assoc)
qed (simp_all add: set_node_def temit_def)

text \<open>A step of the system before which all processes satisfy a condition.\<close>

definition guarded_step :: "(ufifo \<Rightarrow> bool) \<Rightarrow> host list \<Rightarrow> tsys \<Rightarrow> tsys \<Rightarrow> bool" where
  "guarded_step guard hs s s' \<longleftrightarrow> tsys_step hs s s' \<and> (\<forall>q \<in> ids_of hs. guard (urb_at s q))"

lemma guarded_step_True: "guarded_step (\<lambda>u. True) = tsys_step"
  by (simp add: guarded_step_def fun_eq_iff)

lemma node_runs_system:
  assumes "node_runs guard {(src, bs). (src, host_addr h, bs) \<in> tnet s} (nodes s (h_id h)) out n" and "h \<in> set hs"
    and others: "\<And>q. q \<in> ids_of hs \<Longrightarrow> q \<noteq> h_id h \<Longrightarrow> guard (urb_at s q)"
  shows "(guarded_step guard hs)\<^sup>*\<^sup>* s (temit (host_addr h) out (set_node (h_id h) n s))"
  using assms(1)
proof (induction "nodes s (h_id h)" out n rule: node_runs.induct)
  case nr_refl
  then show ?case by (simp add: set_node_def)
next
  case (nr_step out n1 out' n2)
  let ?s = "temit (host_addr h) out (set_node (h_id h) n1 s)"
  have "node_step {(src, bs). (src, host_addr h, bs) \<in> tnet ?s} (nodes ?s (h_id h)) out' n2"
    by (simp, rule node_step_inbox [OF nr_step(4)]) (auto simp: temit_def)
  from tsys_node [OF assms(2) this] nr_step(3) others
  have "guarded_step guard hs ?s (temit (host_addr h) (out @ out') (set_node (h_id h) n2 s))"
    by (auto simp: guarded_step_def)
  with nr_step(2) show ?case by (rule rtranclp.rtrancl_into_rtrancl)
qed

lemma at_rest_proc: "at_rest (set_proc q a s) = set_node q (start_node a) (at_rest s)"
  by (auto simp: at_rest_def set_proc_def set_node_def fun_eq_iff)

lemma at_rest_emit: "at_rest (emit src out s) = temit src out (at_rest s)"
  by (simp add: at_rest_def emit_def temit_def)

text \<open>Every whole step is a run of statements between states in which all threads rest.\<close>

definition numbers_needed :: "'a urb_scheme \<Rightarrow> nat" where
  "numbers_needed m = 12 + 11 * card (pending_for_delivery m)"

context send_budget
begin

lemma less: "budget n u \<Longrightarrow> k \<le> n \<Longrightarrow> budget k u"
  using spare_all [of "n - k" k u] by simp

lemma whole_step_runs:
  assumes "sys_step hs s s'" and inv: "sys_inv hs s"
    and budget: "\<And>q. q \<in> ids_of hs \<Longrightarrow> budget (numbers_needed (mgr s q)) (mgr s q)"
  shows "(guarded_step (budget 0) hs)\<^sup>*\<^sup>* (at_rest s) (at_rest s')"
proof -
  have node: "(guarded_step (budget 0) hs)\<^sup>*\<^sup>* (at_rest s) (at_rest (emit (host_addr h) out (set_proc (h_id h) a s)))"
    if "h \<in> set hs" "runs {(src, bs). (src, host_addr h, bs) \<in> net s} (start_node (procs s (h_id h))) out (start_node a)" for h out a
  proof -
    have "budget 0 (urb_at (at_rest s) q)" if "q \<in> ids_of hs" for q
      using spare_0 [OF budget [OF that]] by (simp add: at_rest_def)
    with node_runs_system [of "budget 0" h "at_rest s" out "start_node a" hs] that
    show ?thesis by (simp add: at_rest_proc at_rest_emit) (simp add: at_rest_def)
  qed
  have silent: "emit src [] t = t" for src t by (simp add: emit_def)
  have same: "set_proc q (procs s q) s = s" for q by (simp add: set_proc_def)
  have wired: "wired hs q (procs s q)" if "q \<in> ids_of hs" for q by (rule sys_inv_proc(1) [OF inv that])
  then have fin: "finite (dom (perfect_links (mgr s q)))" if "q \<in> ids_of hs" for q using that by (simp add: wired_def)
  have b: "budget k (mgr s (h_id h))" if "h \<in> set hs" "k \<le> numbers_needed (mgr s (h_id h))" for h k
    using less [OF budget] that by simp
  from assms(1) show ?thesis
  proof cases
    case (sys_send h q msg m')
    with node [OF sys_send(2) Send_alone] fin b [OF sys_send(2), of 5] show ?thesis by (simp add: silent numbers_needed_def)
  next
    case (sys_deliver h q after_pop ids m')
    then have "length ids = card (pending_for_delivery (mgr s q))" by (metis distinct_card)
    with sys_deliver node [OF sys_deliver(2) DeliverPending_alone] fin b [OF sys_deliver(2), of "Suc (11 * length ids)"]
    show ?thesis by (simp add: silent numbers_needed_def)
  next
    case (sys_messages h q sendto links ord out)
    with node [OF sys_messages(2) messages_alone] fin b [OF sys_messages(2), of 0] show ?thesis by (simp add: same)
  next
    case (sys_acks h q sendto strong now links oa od out m')
    with node [OF sys_acks(2) acks_alone [OF _ sys_acks(5)]] fin b [OF sys_acks(2), of 0] show ?thesis by simp
  next
    case (sys_receive h q src bs now srv' m')
    obtain h' where "h' \<in> set hs" "src = host_addr h'" using inv sys_receive(4) unfolding sys_inv_def net_ok_def by blast
    then have obs: "6 * length (observers_at (app_server (procs s q)) src) \<le> 6"
      using wired [of q] sys_receive(2,3) by (simp add: wired_def)
    have "length (managers pl) \<le> 1" if "perfect_links (mgr s q) j = Some pl" for j pl
      using wired [of q] sys_receive(2,3) that by (simp add: wired_def)
    moreover have "budget (6 * length (observers_at (app_server (procs s q)) src)) (mgr s q)"
      using b [OF sys_receive(2)] sys_receive(3) obs by (simp add: numbers_needed_def)
    ultimately show ?thesis
      using node [OF sys_receive(2) Receive_alone] sys_receive fin by (simp add: silent)
  qed
qed

end

lemma at_rest_init: "sys_init hs s \<Longrightarrow> hosts_ok hs \<Longrightarrow> tsys_init hs (at_rest s)"
  unfolding sys_init_def tsys_init_def at_rest_def by auto

lemma reachable_at_rest:
  assumes "reachable (sys_init hs) (sys_step hs) s" and "hosts_ok hs"
  shows "reachable (tsys_init hs) (tsys_step hs) (at_rest s)"
  using assms(1)
proof (induction rule: reachable.induct)
  case (reachable_init s)
  with at_rest_init assms(2) show ?case by (blast intro: reachable.intros)
next
  case (reachable_step s t)
  from no_budget.whole_step_runs [OF reachable_step.hyps(2) reachable_sys_inv [OF reachable_step.hyps(1) assms(2)]]
  have "(tsys_step hs)\<^sup>*\<^sup>* (at_rest s) (at_rest t)" by (simp add: guarded_step_True)
  with reachable_step.IH show ?case by (rule reachable_steps)
qed

end
