(* ===== verification/Thread_Links.thy ===== *)
theory Thread_Links
  imports Thread_System
begin

text \<open>
  The two ends of a link under every interleaving of statements: a message that a process knows is on
  its way to a peer until the peer has counted it. In contrast to whole steps, a message can be
  acknowledged while the peer is still handling it, and a number can be taken long before the
  message is inserted under it.
\<close>

section \<open>Kinds of steps\<close>

definition call_list :: "node \<Rightarrow> pl_call list" where
  "call_list n = nd_recv_calls n @ nd_del_calls n @ nd_send_calls n"

text \<open>A message that the receiving thread has been handed and that it has not counted yet.\<close>

fun unheard :: "receiver_at \<Rightarrow> bcast_message set" where
  "unheard (R_notify msg) = {msg}"
| "unheard (R_read_pending msg) = {msg}"
| "unheard (R_read_delivered msg b) = {msg}"
| "unheard (R_ack msg b) = {msg}"
| "unheard r = {}"

text \<open>
  A step of a process is a call on a link, the copy of the links for a broadcast, another step inside
  the broadcast classes, a step of the loop of the server, or one of the sending threads.
\<close>

lemma sends_none_keeps:
  assumes "threads_step after_pop t t'" and "t_recv t = t_recv t' \<or> receiver_sends (t_recv t) = None"
    and "t_del t = t_del t' \<or> deliverer_sends (t_del t) = None" and "t_send t = t_send t' \<or> sender_sends (t_send t) = None"
  shows "broadcasting t \<subseteq> broadcasting t'"
  using assms(2-4) by (auto simp: broadcasting_def)

lemma broadcast_leaves:
  "receiver_sends r = Some (msg, r') \<Longrightarrow> receiver_sends r' = None \<and> unheard r' = unheard r"
  "deliverer_sends d = Some (msg, d') \<Longrightarrow> deliverer_sends d' = None \<and> limbo d' = limbo d"
  "sender_sends s = Some (msg, s') \<Longrightarrow> sender_sends s' = None"
  by ((cases r; auto), (cases d; auto), (cases s; auto))

lemma node_step_kinds:
  assumes "node_step inbox n out n'"
  obtains (call) c cs A B where "out = []" "PL_Send_step c (nd_urb n) = Inr (cs, nd_urb n')" "call_list n = A @ c # B"
      "call_list n' = A @ cs @ B" "nd_threads n' = (nd_threads n)\<lparr>t_urb := nd_urb n'\<rparr>" "nd_at n' = nd_at n"
  | (broadcast) msg links A B where "out = []" "nd_urb n' = nd_urb n" "call_list n = A @ B" "links_of (nd_urb n) links"
      "call_list n' = A @ map (\<lambda>j. Take_number j (Broadcast_Serialize msg)) links @ B" "nd_at n' = nd_at n"
      "t_known (nd_threads n') = t_known (nd_threads n)" "broadcasting (nd_threads n) \<subseteq> insert msg (broadcasting (nd_threads n'))"
      "unheard (t_recv (nd_threads n')) = unheard (t_recv (nd_threads n))"
  | (thread) after_pop where "out = []" "threads_step after_pop (nd_threads n) (nd_threads n')" "reads_front after_pop"
      "perfect_links (nd_urb n') = perfect_links (nd_urb n)" "call_list n' = call_list n" "nd_at n' = nd_at n"
      "broadcasting (nd_threads n) \<subseteq> broadcasting (nd_threads n')"
  | (serve) now up where "out = []" "t_recv (nd_threads n) = R_idle"
      "server_step now (nd_at n) (nd_server n, nd_urb n) = Inr (nd_at n', up, nd_server n', nd_urb n')"
      "nd_threads n' = (nd_threads n)\<lparr>t_recv := (case up of None \<Rightarrow> R_idle | Some msg \<Rightarrow> R_notify msg), t_urb := nd_urb n'\<rparr>"
      "call_list n' = call_list n"
  | (recvfrom) src bs where "out = []" "(src, bs) \<in> inbox" "nd_at n' = W_observers (take kMaxSendSize bs) src" "nd_at n = W_wait"
      "nd_threads n' = nd_threads n" "call_list n' = call_list n"
  | (ack) sendto strong now oa od where "acks_step sendto strong now oa od (nd_acks n) (nd_urb n) = Inr (out, nd_acks n', nd_urb n')"
      "nd_threads n' = (nd_threads n)\<lparr>t_urb := nd_urb n'\<rparr>" "call_list n' = call_list n" "nd_at n' = nd_at n"
      "\<And>j links pl. nd_acks n = A_links (j # links) \<Longrightarrow> perfect_links (nd_urb n) j = Some pl \<Longrightarrow> set oa = acks_to_send pl"
  | (message) sendto ord where "messages_step sendto ord (nd_msgs n) (nd_urb n) = Inr (out, nd_msgs n')"
      "nd_threads n' = nd_threads n" "call_list n' = call_list n" "nd_at n' = nd_at n"
  | (other) "out = []" "nd_threads n' = nd_threads n" "call_list n' = call_list n" "nd_at n' = nd_at n"
  using assms
proof cases
  case (nd_recvfrom src bs)
  then show ?thesis by (intro recvfrom) (simp_all add: call_list_def)
next
  case (nd_receive now links w cs r srv u)
  from nd_receive(3) show ?thesis
  proof (cases rule: receiving_cases)
    case inside
    show ?thesis
    proof (rule link_by_link_cases [OF inside(4)], goal_cases)
      case 1
      show ?case using sends_step(1) by blast
    next
      case (2 c cs1 cs2)
      then show ?case
        by (intro call [of c cs2 "[]" "cs1 @ nd_del_calls n @ nd_send_calls n"]) (simp_all add: nd_receive inside call_list_def)
    next
      case (3 msg)
      then show ?case using broadcast_leaves(1) [OF 3(2)] nd_receive inside
        by (intro broadcast [of "[]" "nd_del_calls n @ nd_send_calls n" links msg])
          (auto simp: call_list_def t_known_def broadcasting_def)
    next
      case 4
      then show ?case using t_receive [OF 4(4), of Inr] receiver_links [OF 4(4,2)] nd_receive inside
        by (intro thread [of Inr]) (auto simp: call_list_def broadcasting_def reads_front_Inr)
    qed
  next
    case server
    then show ?thesis using nd_receive by (intro serve [of now None]) (simp_all add: call_list_def)
  next
    case (up msg)
    then show ?thesis using nd_receive by (intro serve [of now "Some msg"]) (simp_all add: call_list_def)
  qed
next
  case (nd_turn ids)
  then show ?thesis using t_turn [of "nd_threads n" ids Inr]
    by (intro thread [of Inr]) (auto simp: call_list_def broadcasting_def reads_front_Inr)
next
  case (nd_deliver after_pop links cs d u)
  show ?thesis
  proof (rule link_by_link_cases [OF nd_deliver(3)], goal_cases)
    case 1
    show ?case using sends_step(2) by blast
  next
    case (2 c cs1 cs2)
    then show ?case
      by (intro call [of c cs2 "nd_recv_calls n" "cs1 @ nd_send_calls n"]) (simp_all add: nd_deliver call_list_def)
  next
    case (3 msg)
    then show ?case using broadcast_leaves(2) [OF 3(2)] nd_deliver
      by (intro broadcast [of "nd_recv_calls n" "nd_send_calls n" links msg])
        (auto simp: call_list_def t_known_def broadcasting_def)
  next
    case 4
    then show ?case using t_deliver [OF 4(4)] deliverer_links [OF 4(4,2)] nd_deliver
      by (intro thread [of after_pop]) (auto simp: call_list_def broadcasting_def)
  qed
next
  case (nd_call msg s u)
  then show ?thesis using t_call [of "nd_threads n" msg s u Inr]
    by (intro thread [of Inr]) (auto simp: call_list_def broadcasting_def reads_front_Inr sender_begin_def)
next
  case (nd_send links cs s u)
  show ?thesis
  proof (rule link_by_link_cases [OF nd_send(3)], goal_cases)
    case 1
    show ?case using sends_step(3) by blast
  next
    case (2 c cs1 cs2)
    then show ?case
      by (intro call [of c cs2 "nd_recv_calls n @ nd_del_calls n" cs1]) (simp_all add: nd_send call_list_def)
  next
    case (3 msg)
    then show ?case using broadcast_leaves(3) [OF 3(2)] nd_send
      by (intro broadcast [of "nd_recv_calls n @ nd_del_calls n" "[]" links msg])
        (auto simp: call_list_def t_known_def broadcasting_def)
  next
    case 4
    then show ?case using t_sender [OF 4(4), of Inr] sender_links [OF 4(4,2)] nd_send
      by (intro thread [of Inr]) (auto simp: call_list_def broadcasting_def reads_front_Inr)
  qed
next
  case (nd_ack sendto strong now oa od a u)
  then show ?thesis by (intro ack [of sendto strong now oa od]) (simp_all add: call_list_def)
next
  case (nd_message sendto ord links)
  then show ?thesis by (intro message [of sendto ord]) (simp_all add: call_list_def)
next
  case nd_stop
  then show ?thesis
    using t_switch [of Inr "nd_threads n" "deliver_thread (nd_urb n)" "send_thread (nd_urb n)" "ack_thread (nd_urb n)" False]
    by (intro thread [of Inr]) (auto simp: call_list_def broadcasting_def reads_front_Inr)
qed (intro other; simp add: call_list_def)+

section \<open>The threads\<close>

text \<open>A message that becomes known is about to be broadcast.\<close>

lemma new_known_broadcast:
  assumes inv: "threads_inv t" and step: "threads_step after_pop t t'"
  shows "t_known t' \<subseteq> t_known t \<union> bm_id ` broadcasting t'"
proof -
  have ok: "t_delivery_ok t" and quiet: "\<not> deliver_to_upper_layer (t_urb t)"
    using inv by (simp_all add: threads_inv_def t_delivery_ok_def)
  from step show ?thesis
  proof cases
    case (t_receive r u)
    have "known u \<subseteq> known (t_urb t) \<union> bm_id ` {m. \<exists>q. receiver_sends r = Some (m, q)}"
      by (rule step_rule [OF t_receive(2)]) (use quiet in \<open>cases "t_recv t"; auto simp: step_simps known_def\<close>)
    with t_receive(1) show ?thesis by (auto simp: t_known_def broadcasting_def)
  next
    case (t_deliver d u)
    have "t_known (t\<lparr>t_del := d, t_urb := u\<rparr>) \<subseteq> t_known t \<union> bm_id ` {m. \<exists>q. deliverer_sends d = Some (m, q)}"
      by (rule step_rule [OF t_deliver(2)], use ok in \<open>cases "(after_pop, t_del t, t_urb t)" rule: deliverer_step.cases\<close>)
        (auto simp: t_delivery_ok_def t_known_def known_def good_id_Insert step_simps Let_def split: list.splits sum.split)
    with t_deliver(1) show ?thesis by (auto simp: broadcasting_def)
  next
    case (t_sender s u)
    have "known u \<subseteq> known (t_urb t) \<union> bm_id ` {m. \<exists>q. sender_sends s = Some (m, q)}"
      by (rule step_rule [OF t_sender(2)]) (cases "t_send t"; auto simp: step_simps known_def)
    with t_sender(1) show ?thesis by (auto simp: t_known_def broadcasting_def)
  qed (auto simp: t_known_def known_def sender_begin_def)
qed

lemma heard_threads_step:
  assumes inv: "threads_inv t" and step: "threads_step after_pop t t'" and h: "heard (t_urb t) j i"
  shows "heard (t_urb t') j i"
proof -
  have ok: "t_delivery_ok t" and quiet: "\<not> deliver_to_upper_layer (t_urb t)"
    using inv by (simp_all add: threads_inv_def t_delivery_ok_def)
  from step show ?thesis
  proof cases
    case (t_receive r u)
    have "heard u j i"
      by (rule step_rule [OF t_receive(2)]) (use quiet h in \<open>cases "t_recv t"; auto simp: step_simps heard_def acks_of_def\<close>)
    with t_receive(1) show ?thesis by simp
  next
    case (t_deliver d u)
    have "heard u j i"
      by (rule step_rule [OF t_deliver(2)], use ok h in \<open>cases "(after_pop, t_del t, t_urb t)" rule: deliverer_step.cases\<close>)
        (auto simp: t_delivery_ok_def t_known_def good_id_Insert step_simps heard_def acks_of_def Let_def
          split: list.splits sum.split option.splits)
    with t_deliver(1) show ?thesis by simp
  next
    case (t_sender s u)
    with sender_frame [OF t_sender(2)] h show ?thesis by (simp add: heard_def acks_of_def)
  qed (use h in \<open>auto simp: heard_def acks_of_def sender_begin_def\<close>)
qed

text \<open>A message leaves the hand of the receiver only when it is counted.\<close>

lemma unheard_threads_step:
  assumes inv: "threads_inv t" and step: "threads_step after_pop t t'" and m: "m \<in> unheard (t_recv t)"
  shows "m \<in> unheard (t_recv t') \<or> heard (t_urb t') (bm_sender m) (bm_id m)"
proof -
  have quiet: "\<not> deliver_to_upper_layer (t_urb t)" and good: "\<forall>m \<in> hearing (t_recv t). good_id (bm_id m)"
    using inv by (auto simp: threads_inv_def t_delivery_ok_def t_honest_def)
  from step show ?thesis
  proof cases
    case (t_receive r u)
    have "m \<in> unheard r \<or> heard u (bm_sender m) (bm_id m)"
      by (rule step_rule [OF t_receive(2)])
        (use quiet good m in \<open>cases "t_recv t"; auto simp: step_simps heard_def acks_of_def good_id_Contains\<close>)
    with t_receive(1) show ?thesis by simp
  qed (use m in auto)
qed

text \<open>What has been acknowledged is known, or about to be.\<close>

fun about_to_know :: "receiver_at \<Rightarrow> msg_id set" where
  "about_to_know (R_pend msg) = {bm_id msg}"
| "about_to_know r = {}"

fun seen_pending :: "receiver_at \<Rightarrow> msg_id set" where
  "seen_pending (R_read_delivered msg b) = (if b then {} else {bm_id msg})"
| "seen_pending (R_ack msg b) = (if b then {} else {bm_id msg})"
| "seen_pending r = {}"

definition t_acked :: "threads \<Rightarrow> bool" where
  "t_acked t \<longleftrightarrow> (\<forall>i. acks_of (t_urb t) i \<noteq> {} \<longrightarrow> i \<in> t_known t \<union> about_to_know (t_recv t)) \<and>
     seen_pending (t_recv t) \<subseteq> t_known t"

lemma t_acked_step:
  assumes inv: "threads_inv t" and ok: "t_acked t" and step: "threads_step after_pop t t'"
  shows "t_acked t'"
proof -
  note grow = threads_step_effect(1) [OF inv step]
  have del: "t_delivery_ok t" and quiet: "\<not> deliver_to_upper_layer (t_urb t)"
    using inv by (simp_all add: threads_inv_def t_delivery_ok_def)
  from step show ?thesis
  proof cases
    case (t_receive r u)
    have "t_acked (t\<lparr>t_recv := r, t_urb := u\<rparr>)"
      by (rule step_rule [OF t_receive(2)])
        (use quiet ok in \<open>cases "t_recv t"; auto simp: step_simps t_acked_def t_known_def known_def acks_of_def split: if_splits\<close>)
    with t_receive(1) show ?thesis by simp
  next
    case (t_deliver d u)
    then have "acks_of (t_urb t') i \<subseteq> acks_of (t_urb t) i" for i using deliverer_acks_less by simp
    with ok grow t_deliver(1) show ?thesis unfolding t_acked_def by fastforce
  next
    case (t_sender s u)
    with sender_frame [OF t_sender(2)] ok grow show ?thesis unfolding t_acked_def by (auto simp: acks_of_def)
  qed (use ok in \<open>auto simp: t_acked_def t_known_def known_def acks_of_def sender_begin_def\<close>)
qed

interpretation thread_acks: invariant threads_started threads_next "\<lambda>t. threads_inv t \<and> t_acked t"
proof unfold_locales
  fix t assume st: "threads_started t"
  then have "acks_of (t_urb t) i = {}" for i
    unfolding threads_started_def ufifo_started_def using urb_fresh_Adds [OF urb_fresh_UFIFO_init]
    by (auto simp: acks_of_def urb_fresh_def)
  with st have "t_acked t" by (simp add: t_acked_def threads_started_def)
  with threads_started_inv [OF st] show "threads_inv t \<and> t_acked t" by blast
next
  fix t t' assume "threads_inv t \<and> t_acked t" "threads_next t t'"
  with thread_runs.inv_step t_acked_step show "threads_inv t' \<and> t_acked t'" unfolding threads_next_def by blast
qed


section \<open>The numbers of a link\<close>

text \<open>The numbers that have been taken on the link to \<open>k\<close> for messages that are not inserted yet.\<close>

fun insert_number :: "u32 \<Rightarrow> pl_call \<Rightarrow> u32 list" where
  "insert_number k (Take_number j bs) = []"
| "insert_number k (Insert_message j t bs) = (if j = k then [t] else [])"

definition numbers :: "u32 \<Rightarrow> pl_call list \<Rightarrow> u32 list" where
  "numbers k cs = concat (map (insert_number k) cs)"

lemma numbers_simps [simp]:
  "numbers k [] = []" "numbers k (c # cs) = insert_number k c @ numbers k cs" "numbers k (cs @ cs') = numbers k cs @ numbers k cs'"
  "numbers k (map (\<lambda>j. Take_number j bs) links) = []"
  by (induction links) (simp_all add: numbers_def)

text \<open>
  \<open>P\<close> are the packets that have been sent over the link, \<open>ns\<close> the numbers taken, \<open>c\<close> the counter and
  \<open>q\<close> the messages to send: no number is used twice.
\<close>

definition link_numbers :: "packet set \<Rightarrow> u32 list \<Rightarrow> u32 \<Rightarrow> (u32 \<rightharpoonup> bytes) \<Rightarrow> bool" where
  "link_numbers P ns c q \<longleftrightarrow> distinct ns \<and> (\<forall>t \<in> set ns \<union> dom q. t < c) \<and> set ns \<inter> dom q = {} \<and>
     (\<forall>m. Msg m \<in> P \<longrightarrow> pm_seq m < c \<and> pm_seq m \<notin> set ns \<and> q (pm_seq m) \<in> {None, Some (pm_payload m)}) \<and>
     (\<forall>m m'. Msg m \<in> P \<longrightarrow> Msg m' \<in> P \<longrightarrow> pm_seq m = pm_seq m' \<longrightarrow> m = m')"

lemma link_numbers_take:
  assumes "link_numbers P (A @ B) c q" and "c \<noteq> - 1"
  shows "link_numbers P (A @ c # B) (c + 1) q"
proof -
  have less: "t < c + 1" if "t < c \<or> t = c" for t using that u32_less_succ [OF assms(2), of t] by auto
  from assms(1) show ?thesis unfolding link_numbers_def by (auto intro: less)
qed

lemma link_numbers_insert:
  assumes "link_numbers P (A @ t # B) c q"
  shows "link_numbers P (A @ B) c (q(t \<mapsto> bs))" "q t = None"
  using assms unfolding link_numbers_def by auto

lemma link_numbers_remove: "link_numbers P ns c q \<Longrightarrow> link_numbers P ns c (q(t := None))"
  unfolding link_numbers_def by auto

lemma link_numbers_emit:
  assumes ok: "link_numbers P ns c q" and new: "\<And>m. Msg m \<in> P' \<Longrightarrow> q (pm_seq m) = Some (pm_payload m)"
  shows "link_numbers (P \<union> P') ns c q"
proof -
  have "m = m'" if "Msg m \<in> P \<union> P'" "Msg m' \<in> P \<union> P'" "pm_seq m = pm_seq m'" for m m'
  proof (cases "Msg m \<in> P' \<or> Msg m' \<in> P'")
    case True
    then have "q (pm_seq m) \<noteq> None" using new [of m] new [of m'] that(3) by auto
    moreover have "q (pm_seq m) \<in> {None, Some (pm_payload m)}" "q (pm_seq m') \<in> {None, Some (pm_payload m')}"
      using that(1,2) ok new unfolding link_numbers_def by blast+
    ultimately show ?thesis using that(3) by auto
  qed (use that ok in \<open>auto simp: link_numbers_def\<close>)
  moreover have "pm_seq m < c \<and> pm_seq m \<notin> set ns \<and> q (pm_seq m) \<in> {None, Some (pm_payload m)}" if "Msg m \<in> P \<union> P'" for m
    using that ok new unfolding link_numbers_def by blast
  ultimately show ?thesis using ok unfolding link_numbers_def by blast
qed

section \<open>The two ends of a link\<close>

text \<open>The sending end: a message \<open>i\<close> is on its way out to \<open>k\<close>.\<close>

definition out_ok :: "u32 \<Rightarrow> machine \<Rightarrow> packet set \<Rightarrow> node \<Rightarrow> bool" where
  "out_ok k addr P n \<longleftrightarrow> (\<forall>pl. perfect_links (nd_urb n) k = Some pl \<longrightarrow> pl_target_addr pl = addr \<and>
     link_numbers P (numbers k (call_list n)) (pl_n_messages_sent pl) (messages_to_send pl))"

definition underway :: "u32 \<Rightarrow> node \<Rightarrow> msg_id \<Rightarrow> bool" where
  "underway k n i \<longleftrightarrow> i \<in> bm_id ` broadcasting (nd_threads n) \<or>
     (\<exists>c \<in> set (call_list n). call_link c = k \<and> carries (call_bytes c) i) \<or>
     (\<exists>pl p. perfect_links (nd_urb n) k = Some pl \<and> p \<in> ran (messages_to_send pl) \<and> carries p i)"

text \<open>The receiving end: a message from \<open>j\<close> is being handled, is handled or counted.\<close>

fun handling :: "u32 \<Rightarrow> server_at \<Rightarrow> msg_id set" where
  "handling j (W_notify j' (N_look m) obs bs) = {i. j' = j \<and> carries (pm_payload m) i}"
| "handling j (W_notify j' (N_managers m ms) obs bs) = {i. j' = j \<and> carries (pm_payload m) i}"
| "handling j w = {}"

definition heeds :: "u32 \<Rightarrow> node \<Rightarrow> msg_id \<Rightarrow> bool" where
  "heeds j n i \<longleftrightarrow> heard (nd_urb n) j i \<or> i \<in> handling j (nd_at n)"

definition heeded :: "u32 \<Rightarrow> packet set \<Rightarrow> node \<Rightarrow> u32 \<Rightarrow> bool" where
  "heeded j P n t \<longleftrightarrow> (\<exists>m. Msg m \<in> P \<and> pm_seq m = t \<and> (\<forall>i. carries (pm_payload m) i \<longrightarrow> heeds j n i))"

definition taken_in :: "u32 \<Rightarrow> packet set \<Rightarrow> node \<Rightarrow> u32 \<Rightarrow> bool" where
  "taken_in j P n t \<longleftrightarrow> (\<exists>m. Msg m \<in> P \<and> pm_seq m = t \<and> (\<forall>i. carries (pm_payload m) i \<longrightarrow> heard (nd_urb n) j i))"

fun stage_ok :: "u32 \<Rightarrow> node \<Rightarrow> server_at \<Rightarrow> bool" where
  "stage_ok j n (W_notify j' (N_stamp m) obs bs) \<longleftrightarrow>
     (j' = j \<longrightarrow> (\<forall>i. carries (pm_payload m) i \<longrightarrow> heard (nd_urb n) j i))"
| "stage_ok j n (W_notify j' (N_managers m []) obs bs) \<longleftrightarrow>
     (j' = j \<longrightarrow> (\<forall>i. carries (pm_payload m) i \<longrightarrow> heard (nd_urb n) j i \<or>
        (\<exists>bm \<in> unheard (t_recv (nd_threads n)). bm_sender bm = j \<and> bm_id bm = i)))"
| "stage_ok j n w \<longleftrightarrow> True"

definition in_ok :: "u32 \<Rightarrow> packet set \<Rightarrow> packet set \<Rightarrow> node \<Rightarrow> bool" where
  "in_ok j P Q n \<longleftrightarrow> (\<forall>t. Ack t \<in> Q \<longrightarrow> heeded j P n t) \<and>
     (\<forall>pl. perfect_links (nd_urb n) j = Some pl \<longrightarrow> (\<forall>t \<in> acks_to_send pl. heeded j P n t) \<and>
        (\<forall>t \<in> dom (messages_delivered pl). taken_in j P n t)) \<and> stage_ok j n (nd_at n)"

text \<open>What the receiving thread holds has come from the peer.\<close>

definition parses_in :: "packet set \<Rightarrow> bytes \<Rightarrow> bool" where
  "parses_in P bs \<longleftrightarrow> (\<forall>pkt. PL_Parse bs = Some pkt \<longrightarrow> pkt \<in> P)"

fun from_peer :: "machine \<Rightarrow> u32 \<Rightarrow> packet set \<Rightarrow> server_at \<Rightarrow> bool" where
  "from_peer a j P W_wait \<longleftrightarrow> True"
| "from_peer a j P (W_observers bs addr) \<longleftrightarrow> (addr = a \<longrightarrow> parses_in P bs)"
| "from_peer a j P (W_loop obs bs) \<longleftrightarrow> (j \<in> set obs \<longrightarrow> parses_in P bs)"
| "from_peer a j P (W_notify j' p obs bs) \<longleftrightarrow> (j \<in> insert j' (set obs) \<longrightarrow> parses_in P bs) \<and>
     (j' = j \<longrightarrow> (\<forall>m. notify_message p = Some m \<longrightarrow> Msg m \<in> P) \<and> (\<forall>t. p = N_unqueue t \<longrightarrow> Ack t \<in> P))"

definition arriving :: "dgram list \<Rightarrow> machine \<Rightarrow> packet set" where
  "arriving out addr = {pkt. \<exists>bs. (bs, addr) \<in> set out \<and> PL_Parse (take 14 bs) = Some pkt}"

lemma arriving_Nil [simp]: "arriving [] addr = {}"
  by (simp add: arriving_def)

definition numbers_left :: "'a manager_scheme \<Rightarrow> bool" where
  "numbers_left m \<longleftrightarrow> (\<forall>pl \<in> ran (perfect_links m). pl_n_messages_sent pl \<noteq> - 1)"

section \<open>A step of the sending end\<close>

lemma underwayI:
  "i \<in> bm_id ` broadcasting (nd_threads n) \<Longrightarrow> underway k n i"
  "c \<in> set (call_list n) \<Longrightarrow> call_link c = k \<Longrightarrow> carries (call_bytes c) i \<Longrightarrow> underway k n i"
  "perfect_links (nd_urb n) k = Some pl \<Longrightarrow> messages_to_send pl t = Some p \<Longrightarrow> carries p i \<Longrightarrow> underway k n i"
  by (auto simp: underway_def ran_def)

text \<open>The sending side of the links is the same.\<close>

definition same_out :: "'a manager_scheme \<Rightarrow> 'a manager_scheme \<Rightarrow> bool" where
  "same_out u u' \<longleftrightarrow> (\<forall>k. map_option (\<lambda>pl. (out_side pl, pl_target_addr pl)) (perfect_links u' k) =
     map_option (\<lambda>pl. (out_side pl, pl_target_addr pl)) (perfect_links u k))"

lemma same_outD: "same_out u u' \<Longrightarrow> perfect_links u' k = Some pl' \<Longrightarrow> \<exists>pl. perfect_links u k = Some pl \<and>
    pl_n_messages_sent pl' = pl_n_messages_sent pl \<and> messages_to_send pl' = messages_to_send pl \<and> pl_target_addr pl' = pl_target_addr pl"
  "same_out u u' \<Longrightarrow> perfect_links u k = Some pl \<Longrightarrow> \<exists>pl'. perfect_links u' k = Some pl' \<and>
    pl_n_messages_sent pl' = pl_n_messages_sent pl \<and> messages_to_send pl' = messages_to_send pl \<and> pl_target_addr pl' = pl_target_addr pl"
  unfolding same_out_def out_side_def by (drule spec [of _ k]; cases "perfect_links u k"; cases "perfect_links u' k"; simp)+

lemma same_out_refl [simp]: "perfect_links u' = perfect_links u \<Longrightarrow> same_out u u'"
  by (simp add: same_out_def)

lemma same_out_update_link:
  assumes "\<And>pl. out_side (f pl) = out_side pl \<and> pl_target_addr (f pl) = pl_target_addr pl"
  shows "same_out u (update_link j f u)"
  using assms by (simp add: same_out_def update_link_def option.map_comp comp_def)

lemma out_same:
  assumes ok: "out_ok k addr P n" and links: "same_out (nd_urb n) (nd_urb n')"
    and calls: "numbers k (call_list n') = numbers k (call_list n)" "set (call_list n) \<subseteq> set (call_list n')"
    and sends: "broadcasting (nd_threads n) \<subseteq> broadcasting (nd_threads n')"
  shows "out_ok k addr P n' \<and> (\<forall>i. underway k n i \<longrightarrow> underway k n' i)"
proof -
  have "out_ok k addr P n'" using ok same_outD(1) [OF links] calls(1) unfolding out_ok_def by fastforce
  moreover have "underway k n' i" if "underway k n i" for i
    using that calls(2) sends same_outD(2) [OF links, of k] unfolding underway_def by (metis image_mono subset_iff)
  ultimately show ?thesis by blast
qed

lemma out_call:
  assumes ok: "out_ok k addr P n" and left: "numbers_left (nd_urb n)"
    and step: "PL_Send_step c (nd_urb n) = Inr (cs, nd_urb n')"
    and calls: "call_list n = A @ c # B" "call_list n' = A @ cs @ B"
    and thr: "broadcasting (nd_threads n') = broadcasting (nd_threads n)"
  shows "out_ok k addr P n' \<and> (\<forall>i. underway k n i \<longrightarrow> underway k n' i)"
proof (cases c)
  case (Take_number j bs)
  with step obtain pl where pl: "perfect_links (nd_urb n) j = Some pl" and cs: "cs = [Insert_message j (pl_n_messages_sent pl) bs]"
    and u': "nd_urb n' = update_link j (\<lambda>pl. pl\<lparr>pl_n_messages_sent := pl_n_messages_sent pl + 1\<rparr>) (nd_urb n)" by auto
  have "pl_n_messages_sent pl \<noteq> - 1" using left pl by (auto simp: numbers_left_def ran_def)
  then have "out_ok k addr P n'"
    using ok pl link_numbers_take [of P "numbers k A" "numbers k B" "pl_n_messages_sent pl"]
    by (cases "j = k") (auto simp: out_ok_def u' calls cs Take_number)
  moreover have "underway k n' i" if "underway k n i" for i
    using that pl by (auto simp: underway_def u' calls cs Take_number thr)
  ultimately show ?thesis by blast
next
  case (Insert_message j t bs)
  with step obtain pl where pl: "perfect_links (nd_urb n) j = Some pl" and cs: "cs = []"
    and u': "nd_urb n' = update_link j (\<lambda>pl. pl\<lparr>messages_to_send := (if messages_to_send pl t = None
        then (messages_to_send pl)(t \<mapsto> bs) else messages_to_send pl)\<rparr>) (nd_urb n)" by auto
  show ?thesis
  proof (cases "j = k")
    case True
    have lk: "link_numbers P (numbers k A @ t # numbers k B) (pl_n_messages_sent pl) (messages_to_send pl)" "pl_target_addr pl = addr"
      using ok pl by (auto simp: out_ok_def calls Insert_message True)
    have pl': "perfect_links (nd_urb n') k = Some (pl\<lparr>messages_to_send := (messages_to_send pl)(t \<mapsto> bs)\<rparr>)"
      using pl link_numbers_insert(2) [OF lk(1)] by (simp add: u' True)
    have "out_ok k addr P n'" using link_numbers_insert(1) [OF lk(1)] lk(2) by (simp add: out_ok_def pl' calls cs)
    moreover have "underway k n' i" if "underway k n i" for i
    proof -
      from that consider (bc) "i \<in> bm_id ` broadcasting (nd_threads n)"
        | (call) c' where "c' \<in> set A \<union> set B" "call_link c' = k" "carries (call_bytes c') i" | (this) "carries bs i"
        | (queue) t' p where "messages_to_send pl t' = Some p" "carries p i"
        using pl by (auto simp: underway_def calls Insert_message True ran_def)
      then show ?thesis
      proof cases
        case bc
        then show ?thesis by (intro underwayI(1)) (simp add: thr)
      next
        case call
        then show ?thesis by (intro underwayI(2) [of c']) (auto simp: calls cs)
      next
        case this
        then show ?thesis by (intro underwayI(3) [OF pl', of t bs]) simp_all
      next
        case queue
        moreover from this link_numbers_insert(2) [OF lk(1)] have "t' \<noteq> t" by auto
        ultimately show ?thesis by (intro underwayI(3) [OF pl', of t' p]) simp_all
      qed
    qed
    ultimately show ?thesis by blast
  next
    case False
    then show ?thesis using ok by (auto simp: out_ok_def underway_def u' calls cs Insert_message thr)
  qed
qed

text \<open>What a link sends is what it holds.\<close>

lemma out_emit:
  assumes ok: "out_ok k addr P n" and same: "nd_urb n' = nd_urb n" "call_list n' = call_list n" "nd_threads n' = nd_threads n"
    and out: "messages_step sendto ord ls (nd_urb n) = Inr (out, ls')"
    and here: "\<And>k' pl. perfect_links (nd_urb n) k' = Some pl \<Longrightarrow> pl_target_addr pl = addr \<Longrightarrow> k' = k"
  shows "out_ok k addr (P \<union> arriving out addr) n' \<and> (\<forall>i. underway k n i \<longrightarrow> underway k n' i)"
proof -
  have "messages_to_send pl (pm_seq m) = Some (pm_payload m)"
    if "perfect_links (nd_urb n) k = Some pl" "Msg m \<in> arriving out addr" for pl m
  proof -
    from that(2) obtain bs where bs: "(bs, addr) \<in> set out" "PL_Parse (take 14 bs) = Some (Msg m)" by (auto simp: arriving_def)
    with messages_step_out [OF out bs(1)] that(1) here show ?thesis by auto
  qed
  then have "out_ok k addr (P \<union> arriving out addr) n'"
    using ok link_numbers_emit by (auto simp: out_ok_def same)
  then show ?thesis by (simp add: underway_def same)
qed


lemma only_links_known:
  assumes "only_links u u'"
  shows "known u' = known u" "heard u' = heard u"
proof -
  from assms have u': "u' = u\<lparr>perfect_links := perfect_links u'\<rparr>" by (simp add: only_links_def)
  show "known u' = known u" by (subst u') (simp add: known_def)
  show "heard u' = heard u" by (subst u', rule heard_simps) (simp_all add: acks_of_def fun_eq_iff)
qed

text \<open>The loop of the server only ever takes a message off a queue because of its acknowledgement.\<close>

lemma server_out:
  assumes "server_step now w (srv, u) = Inr (w', up, srv', u')"
  shows "same_out u u' \<or> (\<exists>j t obs bs. w = W_notify j (N_unqueue t) obs bs \<and>
    u' = update_link j (\<lambda>pl. pl\<lparr>messages_to_send := (messages_to_send pl)(t := None)\<rparr>) u)"
proof (cases "(now, w, srv, u)" rule: server_step.cases)
  case (5 now' j p obs bs srv1 u1)
  with assms obtain p' where n: "Notify_step now j p u = Inr (p', up, u')" by (auto split: prod.splits)
  show ?thesis
  proof (cases "(now, j, p, u)" rule: Notify_step.cases)
    case (1 now' j' m u1)
    then show ?thesis using n by (auto intro!: same_out_update_link simp: out_side_def)
  next
    case (5 now' j' m u1)
    then show ?thesis using n by (auto intro!: same_out_update_link simp: out_side_def)
  next
    case (6 now' j' t u1)
    then show ?thesis using n \<open>(now, w, srv, u) = _\<close> by auto
  qed (use n in auto)
next
  case (4 now' j obs bs srv1 u1)
  with assms show ?thesis by auto
qed (use assms in \<open>auto simp: Let_def\<close>)

lemma acks_out: "acks_step sendto strong now oa od a u = Inr (out, a', u') \<Longrightarrow> same_out u u'"
  by (cases "(sendto, strong, now, oa, od, a, u)" rule: acks_step.cases)
    (auto intro!: same_out_update_link simp: Let_def out_side_def split: if_splits)

lemma acks_arriving:
  assumes "acks_step sendto strong now oa od a u = Inr (out, a', u')" and "pkt \<in> arriving out addr"
  shows "\<exists>j links pl t. a = A_links (j # links) \<and> perfect_links u j = Some pl \<and> t \<in> set oa \<and> pl_target_addr pl = addr \<and> pkt = Ack t"
proof -
  from assms(2) obtain bs where bs: "(bs, addr) \<in> set out" "PL_Parse (take 14 bs) = Some pkt" by (auto simp: arriving_def)
  from acks_step_out [OF assms(1) bs(1)] bs(2) show ?thesis by (auto simp: take_ack_packet)
qed

lemma link_numbers_acks:
  "(\<And>m. Msg m \<notin> P') \<Longrightarrow> link_numbers (P \<union> P') ns c q \<longleftrightarrow> link_numbers P ns c q"
  by (simp add: link_numbers_def)

lemma acks_step_less:
  assumes "acks_step sendto strong now oa od a u = Inr (out, a', u')" and "perfect_links u' j = Some pl'"
  shows "\<exists>pl. perfect_links u j = Some pl \<and> acks_to_send pl' \<subseteq> acks_to_send pl \<and>
    dom (messages_delivered pl') \<subseteq> dom (messages_delivered pl)"
  using assms
  by (cases "(sendto, strong, now, oa, od, a, u)" rule: acks_step.cases)
    (auto simp: Let_def fold_forget fold_erase_acks split: if_splits)

text \<open>A step of the process at the sending end; \<open>H\<close> are the messages that the peer heeds.\<close>

lemma out_unqueue:
  assumes ok: "out_ok k addr P n" and u': "nd_urb n' = update_link j (\<lambda>pl. pl\<lparr>messages_to_send := (messages_to_send pl)(t := None)\<rparr>) (nd_urb n)"
    and same: "call_list n' = call_list n" "broadcasting (nd_threads n') = broadcasting (nd_threads n)"
    and acked: "j = k \<Longrightarrow> \<exists>m. Msg m \<in> P \<and> pm_seq m = t \<and> (\<forall>i. carries (pm_payload m) i \<longrightarrow> H i)"
    and i: "underway k n i"
  shows "out_ok k addr P n' \<and> (underway k n' i \<or> H i)"
proof (cases "j = k")
  case False
  then show ?thesis using ok i by (simp add: out_ok_def underway_def u' same)
next
  case True
  have "out_ok k addr P n'" using ok by (auto simp: out_ok_def u' same True intro: link_numbers_remove)
  moreover have "underway k n' i \<or> H i"
  proof -
    obtain m where m: "Msg m \<in> P" "pm_seq m = t" "\<forall>i. carries (pm_payload m) i \<longrightarrow> H i" using acked True by blast
    from i consider (same) "i \<in> bm_id ` broadcasting (nd_threads n) \<or> (\<exists>c \<in> set (call_list n). call_link c = k \<and> carries (call_bytes c) i)"
      | (queue) pl t' p where "perfect_links (nd_urb n) k = Some pl" "messages_to_send pl t' = Some p" "carries p i"
      by (auto simp: underway_def ran_def)
    then show ?thesis
    proof cases
      case same
      then show ?thesis by (simp add: underway_def \<open>call_list n' = _\<close> \<open>broadcasting (nd_threads n') = _\<close>) blast
    next
      case queue
      show ?thesis
      proof (cases "t' = t")
        case True
        have "messages_to_send pl (pm_seq m) \<in> {None, Some (pm_payload m)}"
          using ok queue(1) m(1) unfolding out_ok_def link_numbers_def by blast
        with True queue(2,3) m(2,3) show ?thesis by auto
      next
        case False
        then show ?thesis using queue \<open>j = k\<close> by (intro disjI1 underwayI(3)
            [of n' k "pl\<lparr>messages_to_send := (messages_to_send pl)(t := None)\<rparr>" t' p]) (simp_all add: u')
      qed
    qed
  qed
  ultimately show ?thesis by blast
qed

lemma out_step:
  assumes step: "node_step inbox n out n'" and inv: "threads_inv (nd_threads n)"
    and ok: "out_ok k addr P n" and left: "numbers_left (nd_urb n)" and dom: "k \<in> dom (perfect_links (nd_urb n))"
    and here: "\<And>k' pl. perfect_links (nd_urb n) k' = Some pl \<Longrightarrow> pl_target_addr pl = addr \<Longrightarrow> k' = k"
    and "from": "from_peer addr k Q (nd_at n)"
    and acked: "\<And>t. Ack t \<in> Q \<Longrightarrow> \<exists>m. Msg m \<in> P \<and> pm_seq m = t \<and> (\<forall>i. carries (pm_payload m) i \<longrightarrow> H i)"
    and cover: "\<And>i. i \<in> t_known (nd_threads n) \<Longrightarrow> underway k n i \<or> H i"
  shows "out_ok k addr (P \<union> arriving out addr) n' \<and> (\<forall>i \<in> t_known (nd_threads n'). underway k n' i \<or> H i)"
proof -
  have kept: ?thesis if "out_ok k addr (P \<union> arriving out addr) n' \<and> (\<forall>i. underway k n i \<longrightarrow> underway k n' i)"
    "t_known (nd_threads n') = t_known (nd_threads n)"
    using that cover by auto
  have links: "t_known (nd_threads n') = t_known (nd_threads n)"
    if "only_links (nd_urb n) (nd_urb n')" "t_del (nd_threads n') = t_del (nd_threads n)"
    using only_links_known(1) [OF that(1)] that(2) by (simp add: t_known_def)
  from step show ?thesis
  proof (cases rule: node_step_kinds)
    case (call c cs A B)
    have "t_del (nd_threads n') = t_del (nd_threads n)" "broadcasting (nd_threads n') = broadcasting (nd_threads n)"
      by (subst call(5), simp add: broadcasting_def)+
    with out_call [OF ok left call(2-4)] links [OF PL_Send_step_only_links [OF call(2)]] show ?thesis
      by (intro kept) (simp_all add: call(1))
  next
    case (broadcast msg links A B)
    let ?c = "Take_number k (Broadcast_Serialize msg)"
    have c: "?c \<in> set (call_list n')" using dom broadcast(4) by (auto simp: links_of_def broadcast(5))
    have "underway k n' i" if "underway k n i" for i
    proof (cases "i = bm_id msg")
      case True
      then show ?thesis by (intro underwayI(2) [OF c]) simp_all
    next
      case False
      with that broadcast(8) show ?thesis unfolding underway_def broadcast(2,3,5) by auto
    qed
    moreover have "out_ok k addr P n'" using ok by (simp add: out_ok_def broadcast(2,3,5))
    ultimately show ?thesis using broadcast(1,7) by (intro kept) simp_all
  next
    case (thread after_pop)
    have same: "out_ok k addr P n' \<and> (\<forall>i. underway k n i \<longrightarrow> underway k n' i)"
      by (rule out_same [OF ok]) (use thread in simp_all)
    have "underway k n' i \<or> H i" if "i \<in> t_known (nd_threads n')" for i
      using new_known_broadcast [OF inv thread(2)] that cover same underwayI(1) by blast
    with same show ?thesis by (simp add: thread(1))
  next
    case (serve now up)
    have thr: "t_del (nd_threads n') = t_del (nd_threads n)" "broadcasting (nd_threads n') = broadcasting (nd_threads n)"
      using serve(2) by (subst serve(4), simp add: broadcasting_def split: option.split)+
    have known: "t_known (nd_threads n') = t_known (nd_threads n)"
      using links server_step_handed [OF serve(3)] thr(1) by blast
    from server_out [OF serve(3)] show ?thesis
    proof (elim disjE exE conjE)
      assume "same_out (nd_urb n) (nd_urb n')"
      with serve(5) thr(2) have "out_ok k addr P n' \<and> (\<forall>i. underway k n i \<longrightarrow> underway k n' i)"
        by (intro out_same [OF ok]) simp_all
      then show ?thesis using known by (intro kept) (simp_all add: serve(1))
    next
      fix j t obs bs
      assume at: "nd_at n = W_notify j (N_unqueue t) obs bs"
        and u': "nd_urb n' = update_link j (\<lambda>pl. pl\<lparr>messages_to_send := (messages_to_send pl)(t := None)\<rparr>) (nd_urb n)"
      have "j = k \<Longrightarrow> Ack t \<in> Q" using "from" by (simp add: at)
      with out_unqueue [OF ok u' serve(5) thr(2), of H] acked cover known
      have "out_ok k addr P n' \<and> (underway k n' i \<or> H i)" if "underway k n i" for i using that by blast
      moreover have "out_ok k addr P n'" using ok by (auto simp: out_ok_def u' serve(5) intro: link_numbers_remove)
      ultimately show ?thesis using cover known by (auto simp: serve(1))
    qed
  next
    case (recvfrom src bs)
    have "out_ok k addr P n' \<and> (\<forall>i. underway k n i \<longrightarrow> underway k n' i)"
      by (rule out_same [OF ok]) (simp_all add: recvfrom)
    then show ?thesis by (intro kept) (simp_all add: recvfrom)
  next
    case (ack sendto strong now oa od)
    have thr: "t_del (nd_threads n') = t_del (nd_threads n)" "broadcasting (nd_threads n') = broadcasting (nd_threads n)"
      by (subst ack(2), simp add: broadcasting_def)+
    have "out_ok k addr P n' \<and> (\<forall>i. underway k n i \<longrightarrow> underway k n' i)"
      by (rule out_same [OF ok acks_out [OF ack(1)]]) (simp_all add: ack(3) thr(2))
    moreover have "Msg m \<notin> arriving out addr" for m using acks_arriving [OF ack(1)] by blast
    ultimately have "out_ok k addr (P \<union> arriving out addr) n' \<and> (\<forall>i. underway k n i \<longrightarrow> underway k n' i)"
      by (simp add: out_ok_def link_numbers_acks)
    moreover have "only_links (nd_urb n) (nd_urb n')" by (rule quiet_only_links(1) [OF acks_step_quiet [OF ack(1)]])
    ultimately show ?thesis using links thr(1) by (intro kept) simp_all
  next
    case (message sendto ord)
    from out_emit [OF ok _ message(3,2,1) here] message(2) show ?thesis by (intro kept) simp_all
  next
    case other
    have "out_ok k addr P n' \<and> (\<forall>i. underway k n i \<longrightarrow> underway k n' i)"
      by (rule out_same [OF ok]) (simp_all add: other)
    then show ?thesis by (intro kept) (simp_all add: other)
  qed
qed


section \<open>A step of the receiving end\<close>

lemma heeded_mono:
  assumes "\<And>i. heeds j n i \<Longrightarrow> heeds j n' i"
  shows "heeded j P n t \<Longrightarrow> heeded j P n' t"
  using assms unfolding heeded_def by blast

lemma taken_mono:
  assumes "\<And>i. heard (nd_urb n) j i \<Longrightarrow> heard (nd_urb n') j i"
  shows "taken_in j P n t \<Longrightarrow> taken_in j P n' t"
  using assms unfolding taken_in_def by blast

lemma in_change:
  assumes ok: "in_ok j P Q n" and hrd: "\<And>i. heard (nd_urb n) j i \<Longrightarrow> heard (nd_urb n') j i"
    and handle: "\<And>i. i \<in> handling j (nd_at n) \<Longrightarrow> heeds j n' i"
    and links: "\<And>pl'. perfect_links (nd_urb n') j = Some pl' \<Longrightarrow> \<exists>pl. perfect_links (nd_urb n) j = Some pl \<and>
      (\<forall>t \<in> acks_to_send pl' - acks_to_send pl. heeded j P n' t) \<and>
      (\<forall>t \<in> dom (messages_delivered pl') - dom (messages_delivered pl). taken_in j P n' t)"
    and stage: "stage_ok j n' (nd_at n')" and Q: "\<And>t. Ack t \<in> Q' \<Longrightarrow> Ack t \<in> Q \<or> heeded j P n t"
  shows "in_ok j P Q' n' \<and> (\<forall>i. heeds j n i \<longrightarrow> heeds j n' i)"
proof -
  have mono: "heeds j n' i" if "heeds j n i" for i using that hrd handle unfolding heeds_def by blast
  note m1 = heeded_mono [of j n n', OF mono] and m2 = taken_mono [of n j n', OF hrd]
  have "heeded j P n' t" if "Ack t \<in> Q'" for t using Q [OF that] ok m1 unfolding in_ok_def by blast
  moreover have "(\<forall>t \<in> acks_to_send pl'. heeded j P n' t) \<and> (\<forall>t \<in> dom (messages_delivered pl'). taken_in j P n' t)"
    if pl': "perfect_links (nd_urb n') j = Some pl'" for pl'
  proof -
    obtain pl where "perfect_links (nd_urb n) j = Some pl"
      "\<forall>t \<in> acks_to_send pl' - acks_to_send pl. heeded j P n' t"
      "\<forall>t \<in> dom (messages_delivered pl') - dom (messages_delivered pl). taken_in j P n' t"
      using links [OF pl'] by blast
    moreover from this ok have "\<forall>t \<in> acks_to_send pl. heeded j P n t" "\<forall>t \<in> dom (messages_delivered pl). taken_in j P n t"
      unfolding in_ok_def by blast+
    ultimately show ?thesis using m1 m2 by (meson DiffI)
  qed
  ultimately have "in_ok j P Q' n'" using stage by (simp add: in_ok_def)
  with mono show ?thesis by simp
qed

text \<open>The position of the server stays.\<close>

lemma in_stay:
  assumes ok: "in_ok j P Q n" and hrd: "\<And>i. heard (nd_urb n) j i \<Longrightarrow> heard (nd_urb n') j i"
    and at: "nd_at n' = nd_at n"
    and links: "\<And>pl'. perfect_links (nd_urb n') j = Some pl' \<Longrightarrow> \<exists>pl. perfect_links (nd_urb n) j = Some pl \<and>
      acks_to_send pl' \<subseteq> acks_to_send pl \<and> dom (messages_delivered pl') \<subseteq> dom (messages_delivered pl)"
    and recv: "\<And>m. m \<in> unheard (t_recv (nd_threads n)) \<Longrightarrow> m \<in> unheard (t_recv (nd_threads n')) \<or>
      heard (nd_urb n') (bm_sender m) (bm_id m)"
    and Q: "\<And>t. Ack t \<in> Q' \<Longrightarrow> Ack t \<in> Q \<or> heeded j P n t"
  shows "in_ok j P Q' n' \<and> (\<forall>i. heeds j n i \<longrightarrow> heeds j n' i)"
proof (rule in_change [OF ok hrd _ _ _ Q])
  show "i \<in> handling j (nd_at n) \<Longrightarrow> heeds j n' i" for i by (simp add: heeds_def at)
  show "\<exists>pl. perfect_links (nd_urb n) j = Some pl \<and> (\<forall>t \<in> acks_to_send pl' - acks_to_send pl. heeded j P n' t) \<and>
      (\<forall>t \<in> dom (messages_delivered pl') - dom (messages_delivered pl). taken_in j P n' t)"
    if "perfect_links (nd_urb n') j = Some pl'" for pl'
    using links [OF that] by blast
  have st: "stage_ok j n (nd_at n)" using ok by (simp add: in_ok_def)
  have "heard (nd_urb n') j i \<or> (\<exists>bm \<in> unheard (t_recv (nd_threads n')). bm_sender bm = j \<and> bm_id bm = i)"
    if "heard (nd_urb n) j i \<or> (\<exists>bm \<in> unheard (t_recv (nd_threads n)). bm_sender bm = j \<and> bm_id bm = i)" for i
    using that hrd recv by metis
  with st hrd show "stage_ok j n' (nd_at n')"
    unfolding at by (cases "(j, n, nd_at n)" rule: stage_ok.cases) simp_all
qed

lemma carries_parsed:
  assumes "carries p i"
  shows "\<exists>bm. Broadcast_Parse j p = Some bm \<and> bm_id bm = i \<and> bm_sender bm = j"
proof -
  obtain bm where bm: "Broadcast_Parse j p = Some bm" "bm_id bm = i" using carries_sender [OF assms] by blast
  then show ?thesis using Broadcast_Serialize_Parse(2) [OF bm(1)] by blast
qed

text \<open>The thread of the server inside \<^verbatim>\<open>Notify\<close>.\<close>

lemma Notify_step_away: "Notify_step now j' p u = Inr (p', up, u') \<Longrightarrow> j' \<noteq> j \<Longrightarrow> perfect_links u' j = perfect_links u j"
  by (cases "(now, j', p, u)" rule: Notify_step.cases) auto

lemma Notify_look:
  assumes "Notify_step now j (N_look m) u = Inr (p', up, u')"
  obtains pl where "perfect_links u j = Some pl" "up = None" "u' = u"
    "p' = Some (if messages_delivered pl (pm_seq m) = None then N_managers m (managers pl) else N_stamp m)"
  using assms by auto

lemma Notify_managers:
  assumes "Notify_step now j (N_managers m (mg # ms)) u = Inr (p', up, u')"
  obtains pl where "perfect_links u j = Some pl" "p' = Some (N_managers m ms)"
    "up = Broadcast_Parse (pl_target_id pl) (pm_payload m)" "u' = u"
  using assms by auto

lemma away_stage:
  "j' \<noteq> j \<Longrightarrow> stage_ok j n (W_notify j' p obs bs)" "stage_ok j n (W_loop obs bs)"
  "j' \<noteq> j \<Longrightarrow> handling j (W_notify j' p obs bs) = {}"
proof -
  assume "j' \<noteq> j"
  then show "stage_ok j n (W_notify j' p obs bs)" by (cases "(j, n, W_notify j' p obs bs)" rule: stage_ok.cases) auto
  show "handling j (W_notify j' p obs bs) = {}" using \<open>j' \<noteq> j\<close> by (cases p) auto
qed simp

lemma in_notify:
  assumes ok: "in_ok j P Q n" and at: "nd_at n = W_notify j' p obs bs" and "from": "from_peer a j P (nd_at n)"
    and uniq: "\<And>m m'. Msg m \<in> P \<Longrightarrow> Msg m' \<in> P \<Longrightarrow> pm_seq m = pm_seq m' \<Longrightarrow> m = m'"
    and mgrs: "\<And>pl. perfect_links (nd_urb n) j = Some pl \<Longrightarrow> managers pl \<noteq> [] \<and> pl_target_id pl = j"
    and idle: "t_recv (nd_threads n) = R_idle"
    and step: "Notify_step now j' p (nd_urb n) = Inr (p', up, nd_urb n')"
    and at': "nd_at n' = (case p' of None \<Rightarrow> W_loop obs bs | Some p' \<Rightarrow> W_notify j' p' obs bs)"
    and thr: "t_recv (nd_threads n') = (case up of None \<Rightarrow> R_idle | Some msg \<Rightarrow> R_notify msg)"
  shows "(in_ok j P Q n' \<and> (\<forall>i. heeds j n i \<longrightarrow> heeds j n' i)) \<and> from_peer a j P (nd_at n')"
proof -
  have hrd: "heard (nd_urb n') = heard (nd_urb n)"
    using Notify_step_handed [OF step] only_links_known(2) [of "nd_urb n" "nd_urb n'"] by blast
  have stage: "stage_ok j n (nd_at n)" using ok by (simp add: in_ok_def)
  have away: ?thesis if "j' \<noteq> j"
  proof -
    note links = Notify_step_away [OF step that]
    have "stage_ok j n' (nd_at n')" "handling j (nd_at n) = {}"
      using away_stage that by (simp_all add: at at' split: option.split)
    moreover have "from_peer a j P (nd_at n')" using "from" that at at' by (auto split: option.split)
    moreover have "in_ok j P Q n' \<and> (\<forall>i. heeds j n i \<longrightarrow> heeds j n' i)"
    proof (rule in_change [OF ok])
      fix pl' assume "perfect_links (nd_urb n') j = Some pl'"
      with links show "\<exists>pl. perfect_links (nd_urb n) j = Some pl \<and> (\<forall>t \<in> acks_to_send pl' - acks_to_send pl. heeded j P n' t) \<and>
          (\<forall>t \<in> dom (messages_delivered pl') - dom (messages_delivered pl). taken_in j P n' t)"
        by (intro exI [of _ pl']) simp
    qed (use calculation in \<open>simp_all add: hrd\<close>)
    ultimately show ?thesis by blast
  qed
  show ?thesis
  proof (cases "j' = j")
    case True
    note at = at [unfolded True] and at' = at' [unfolded True] and step = step [unfolded True]
    show ?thesis
    proof (cases p)
      case (N_ack m)
      with step obtain pl where pl: "perfect_links (nd_urb n) j = Some pl" and n': "p' = Some (N_look m)" "up = None"
        and u': "nd_urb n' = update_link j (\<lambda>pl. pl\<lparr>acks_to_send := insert (pm_seq m) (acks_to_send pl)\<rparr>) (nd_urb n)" by auto
      have here: "nd_at n' = W_notify j (N_look m) obs bs" using at' n' by simp
      have "Msg m \<in> P" using "from" by (simp add: at N_ack)
      moreover have "heeds j n' i" if "carries (pm_payload m) i" for i using that by (simp add: heeds_def here)
      ultimately have "heeded j P n' (pm_seq m)" unfolding heeded_def by blast
      then have "in_ok j P Q n' \<and> (\<forall>i. heeds j n i \<longrightarrow> heeds j n' i)"
        using pl by (intro in_change [OF ok]) (auto simp: hrd at N_ack here u')
      then show ?thesis using "from" by (simp add: at N_ack here)
    next
      case (N_look m)
      obtain pl where pl: "perfect_links (nd_urb n) j = Some pl" and n': "up = None" "nd_urb n' = nd_urb n"
        "p' = Some (if messages_delivered pl (pm_seq m) = None then N_managers m (managers pl) else N_stamp m)"
        by (rule Notify_look [OF step [unfolded N_look]])
      have m: "Msg m \<in> P" using "from" by (simp add: at N_look)
      show ?thesis
      proof (cases "messages_delivered pl (pm_seq m) = None")
        case True
        have here: "nd_at n' = W_notify j (N_managers m (managers pl)) obs bs" using at' n' True by simp
        obtain mg ms where "managers pl = mg # ms" using mgrs [OF pl] by (cases "managers pl") auto
        then have "in_ok j P Q n' \<and> (\<forall>i. heeds j n i \<longrightarrow> heeds j n' i)"
          by (intro in_change [OF ok]) (auto simp: hrd at N_look here n'(2) heeds_def)
        then show ?thesis using "from" by (simp add: at N_look here)
      next
        case False
        have here: "nd_at n' = W_notify j (N_stamp m) obs bs" using at' n' False by simp
        have "taken_in j P n (pm_seq m)" using ok pl False by (auto simp: in_ok_def)
        then have "\<forall>i. carries (pm_payload m) i \<longrightarrow> heard (nd_urb n) j i" using uniq [OF _ m] by (auto simp: taken_in_def)
        then have "in_ok j P Q n' \<and> (\<forall>i. heeds j n i \<longrightarrow> heeds j n' i)"
          by (intro in_change [OF ok]) (auto simp: hrd at N_look here n'(2) heeds_def)
        then show ?thesis using "from" by (simp add: at N_look here)
      qed
    next
      case (N_managers m ms)
      show ?thesis
      proof (cases ms)
        case Nil
        with step N_managers have n': "p' = Some (N_stamp m)" "up = None" "nd_urb n' = nd_urb n" by auto
        have here: "nd_at n' = W_notify j (N_stamp m) obs bs" using at' n' by simp
        have "\<forall>i. carries (pm_payload m) i \<longrightarrow> heard (nd_urb n) j i" using stage by (simp add: at N_managers Nil idle)
        then have "in_ok j P Q n' \<and> (\<forall>i. heeds j n i \<longrightarrow> heeds j n' i)"
          by (intro in_change [OF ok]) (auto simp: hrd at N_managers here n'(3) heeds_def)
        then show ?thesis using "from" by (simp add: at N_managers here)
      next
        case (Cons mg ms')
        obtain pl where pl: "perfect_links (nd_urb n) j = Some pl" and n': "p' = Some (N_managers m ms')"
          "up = Broadcast_Parse (pl_target_id pl) (pm_payload m)" "nd_urb n' = nd_urb n"
          by (rule Notify_managers [OF step [unfolded N_managers Cons]])
        have here: "nd_at n' = W_notify j (N_managers m ms') obs bs" using at' n' by simp
        have "\<exists>bm \<in> unheard (t_recv (nd_threads n')). bm_sender bm = j \<and> bm_id bm = i" if "carries (pm_payload m) i" for i
          using carries_parsed [OF that, of j] mgrs [OF pl] by (auto simp: thr n'(2))
        then have "stage_ok j n' (nd_at n')" by (cases ms') (auto simp: here)
        then have "in_ok j P Q n' \<and> (\<forall>i. heeds j n i \<longrightarrow> heeds j n' i)"
          by (intro in_change [OF ok]) (auto simp: hrd at N_managers here n'(3) heeds_def)
        then show ?thesis using "from" by (simp add: at N_managers here)
      qed
    next
      case (N_stamp m)
      with step obtain pl where pl: "perfect_links (nd_urb n) j = Some pl" and n': "p' = None" "up = None"
        and u': "nd_urb n' = update_link j (\<lambda>pl. pl\<lparr>messages_delivered := (messages_delivered pl)(pm_seq m \<mapsto> now)\<rparr>) (nd_urb n)" by auto
      have here: "nd_at n' = W_loop obs bs" using at' n' by simp
      have "Msg m \<in> P" using "from" by (simp add: at N_stamp)
      moreover have "\<forall>i. carries (pm_payload m) i \<longrightarrow> heard (nd_urb n') j i" using stage by (simp add: at N_stamp hrd)
      ultimately have "taken_in j P n' (pm_seq m)" unfolding taken_in_def by blast
      then have "in_ok j P Q n' \<and> (\<forall>i. heeds j n i \<longrightarrow> heeds j n' i)"
        using pl by (intro in_change [OF ok]) (auto simp: hrd at N_stamp here u' split: if_splits)
      then show ?thesis using "from" by (simp add: at N_stamp here)
    next
      case (N_unqueue t)
      with step obtain pl where pl: "perfect_links (nd_urb n) j = Some pl" and n': "p' = None" "up = None"
        and u': "nd_urb n' = update_link j (\<lambda>pl. pl\<lparr>messages_to_send := (messages_to_send pl)(t := None)\<rparr>) (nd_urb n)" by auto
      have here: "nd_at n' = W_loop obs bs" using at' n' by simp
      have "in_ok j P Q n' \<and> (\<forall>i. heeds j n i \<longrightarrow> heeds j n' i)"
        using pl by (intro in_change [OF ok]) (auto simp: hrd at N_unqueue here u')
      then show ?thesis using "from" by (simp add: at N_unqueue here)
    qed
  qed (rule away)
qed


text \<open>The position of the server outside \<^verbatim>\<open>Notify\<close>.\<close>

lemma in_loop:
  assumes ok: "in_ok j P Q n" and urb: "nd_urb n' = nd_urb n" and "from": "from_peer a j P (nd_at n')"
    and at: "handling j (nd_at n) = {}" "stage_ok j n' (nd_at n')"
  shows "(in_ok j P Q n' \<and> (\<forall>i. heeds j n i \<longrightarrow> heeds j n' i)) \<and> from_peer a j P (nd_at n')"
proof -
  have "in_ok j P Q n' \<and> (\<forall>i. heeds j n i \<longrightarrow> heeds j n' i)"
    by (rule in_change [OF ok]) (use at in \<open>simp_all add: urb\<close>)
  with "from" show ?thesis by blast
qed

lemma in_serve:
  assumes ok: "in_ok j P Q n" and "from": "from_peer a j P (nd_at n)"
    and uniq: "\<And>m m'. Msg m \<in> P \<Longrightarrow> Msg m' \<in> P \<Longrightarrow> pm_seq m = pm_seq m' \<Longrightarrow> m = m'"
    and obs: "\<And>bs addr. nd_at n = W_observers bs addr \<Longrightarrow> j \<in> set (observers_at (nd_server n) addr) \<Longrightarrow> addr = a"
    and mgrs: "\<And>pl. perfect_links (nd_urb n) j = Some pl \<Longrightarrow> managers pl \<noteq> [] \<and> pl_target_id pl = j"
    and idle: "t_recv (nd_threads n) = R_idle"
    and step: "server_step now (nd_at n) (nd_server n, nd_urb n) = Inr (nd_at n', up, nd_server n', nd_urb n')"
    and thr: "t_recv (nd_threads n') = (case up of None \<Rightarrow> R_idle | Some msg \<Rightarrow> R_notify msg)"
  shows "(in_ok j P Q n' \<and> (\<forall>i. heeds j n i \<longrightarrow> heeds j n' i)) \<and> from_peer a j P (nd_at n')"
proof (cases "nd_at n")
  case W_wait
  with step have "nd_urb n' = nd_urb n" "nd_at n' = W_wait" by simp_all
  with W_wait show ?thesis by (intro in_loop [OF ok]) simp_all
next
  case (W_observers bs addr)
  with step have n': "nd_urb n' = nd_urb n" "nd_at n' = W_loop (observers_at (nd_server n) addr) bs" by (simp_all add: Let_def)
  have "from_peer a j P (nd_at n')" using obs [OF W_observers] "from" by (simp add: n'(2) W_observers)
  then show ?thesis using n' W_observers by (intro in_loop [OF ok]) simp_all
next
  case (W_loop os bs)
  show ?thesis
  proof (cases os)
    case Nil
    with W_loop step have "nd_urb n' = nd_urb n" "nd_at n' = W_wait" by simp_all
    with W_loop show ?thesis by (intro in_loop [OF ok]) simp_all
  next
    case (Cons j' os')
    from step have "nd_urb n = nd_urb n' \<and>
        (case Notify_begin bs of None \<Rightarrow> W_loop os' bs | Some p \<Rightarrow> W_notify j' p os' bs) = nd_at n'"
      unfolding W_loop Cons server_step.simps at_link_eq sum.inject prod.inject by blast
    then have n': "nd_urb n' = nd_urb n"
      "nd_at n' = (case Notify_begin bs of None \<Rightarrow> W_loop os' bs | Some p \<Rightarrow> W_notify j' p os' bs)" by simp_all
    have loop: "j = j' \<or> j \<in> set os' \<Longrightarrow> parses_in P bs" using "from" by (auto simp: W_loop Cons)
    have pos: "from_peer a j P (nd_at n') \<and> stage_ok j n' (nd_at n')"
    proof (cases "Notify_begin bs")
      case None
      then show ?thesis using loop by (simp add: n'(2))
    next
      case (Some p)
      then consider (msg) m where "p = N_ack m" "PL_Parse bs = Some (Msg m)" | (ack) t where "p = N_unqueue t" "PL_Parse bs = Some (Ack t)"
        by (auto simp: Notify_begin_def split: option.splits packet.splits)
      then show ?thesis using loop by cases (auto simp: n'(2) Some parses_in_def)
    qed
    show ?thesis by (rule in_loop [OF ok n'(1)]) (use pos in \<open>simp_all add: W_loop\<close>)
  qed
next
  case (W_notify j' p os bs)
  with step obtain p' where n: "Notify_step now j' p (nd_urb n) = Inr (p', up, nd_urb n')"
    and at': "nd_at n' = (case p' of None \<Rightarrow> W_loop os bs | Some p' \<Rightarrow> W_notify j' p' os bs)"
    by (auto split: prod.splits)
  show ?thesis by (rule in_notify [OF ok W_notify "from" uniq mgrs idle n at' thr])
qed

lemma PL_Send_step_receivers:
  assumes "PL_Send_step c u = Inr (cs, u')" and "perfect_links u' j = Some pl'"
  shows "\<exists>pl. perfect_links u j = Some pl \<and> acks_to_send pl' \<subseteq> acks_to_send pl \<and>
    dom (messages_delivered pl') \<subseteq> dom (messages_delivered pl)"
  using assms by (cases c) (auto split: if_splits)

lemma in_step:
  assumes step: "node_step inbox n out n'" and inv: "threads_inv (nd_threads n)"
    and ok: "in_ok j P Q n" and "from": "from_peer a j P (nd_at n)"
    and uniq: "\<And>m m'. Msg m \<in> P \<Longrightarrow> Msg m' \<in> P \<Longrightarrow> pm_seq m = pm_seq m' \<Longrightarrow> m = m'"
    and inbox: "\<And>bs. (a, bs) \<in> inbox \<Longrightarrow> parses_in P (take 14 bs)"
    and obs: "\<And>bs addr. nd_at n = W_observers bs addr \<Longrightarrow> j \<in> set (observers_at (nd_server n) addr) \<Longrightarrow> addr = a"
    and mgrs: "\<And>pl. perfect_links (nd_urb n) j = Some pl \<Longrightarrow> managers pl \<noteq> [] \<and> pl_target_id pl = j"
    and here: "\<And>k' pl. perfect_links (nd_urb n) k' = Some pl \<Longrightarrow> pl_target_addr pl = a \<Longrightarrow> k' = j"
  shows "(in_ok j P (Q \<union> arriving out a) n' \<and> (\<forall>i. heeds j n i \<longrightarrow> heeds j n' i)) \<and> from_peer a j P (nd_at n')"
proof -
  have stay: ?thesis
    if "\<And>i. heard (nd_urb n) j i \<Longrightarrow> heard (nd_urb n') j i" "nd_at n' = nd_at n"
      "\<And>pl'. perfect_links (nd_urb n') j = Some pl' \<Longrightarrow> \<exists>pl. perfect_links (nd_urb n) j = Some pl \<and>
        acks_to_send pl' \<subseteq> acks_to_send pl \<and> dom (messages_delivered pl') \<subseteq> dom (messages_delivered pl)"
      "\<And>m. m \<in> unheard (t_recv (nd_threads n)) \<Longrightarrow> m \<in> unheard (t_recv (nd_threads n')) \<or> heard (nd_urb n') (bm_sender m) (bm_id m)"
      "\<And>t. Ack t \<in> arriving out a \<Longrightarrow> heeded j P n t"
    using in_stay [OF ok, of n' "Q \<union> arriving out a"] that "from" by simp blast
  from step show ?thesis
  proof (cases rule: node_step_kinds)
    case (call c cs A B)
    have "t_recv (nd_threads n') = t_recv (nd_threads n)" by (subst call(5)) simp
    then show ?thesis
      using PL_Send_step_receivers [OF call(2)] only_links_known(2) [OF PL_Send_step_only_links [OF call(2)]]
      by (intro stay) (simp_all add: call(1,6))
  next
    case (broadcast msg links A B)
    then show ?thesis by (intro stay) simp_all
  next
    case (thread after_pop)
    show ?thesis
      by (rule stay [OF heard_threads_step [OF inv thread(2)] _ _ unheard_threads_step [OF inv thread(2)]])
        (use thread(1,4,6) in simp_all)
  next
    case (serve now up)
    have thr: "t_recv (nd_threads n') = (case up of None \<Rightarrow> R_idle | Some msg \<Rightarrow> R_notify msg)" by (subst serve(4)) simp
    show ?thesis
      unfolding serve(1) arriving_Nil Un_empty_right
      by (rule in_serve [OF ok "from" _ _ _ serve(2,3) thr]) (use uniq obs mgrs in blast)+
  next
    case (recvfrom src bs)
    have "from_peer a j P (nd_at n')" using inbox recvfrom(2) by (auto simp: recvfrom(3))
    with in_loop [OF ok, of n' a] recvfrom show ?thesis by simp
  next
    case (ack sendto strong now oa od)
    have "perfect_links (nd_urb n') j = Some pl' \<Longrightarrow> \<exists>pl. perfect_links (nd_urb n) j = Some pl \<and>
        acks_to_send pl' \<subseteq> acks_to_send pl \<and> dom (messages_delivered pl') \<subseteq> dom (messages_delivered pl)" for pl'
      using acks_step_less [OF ack(1)] by blast
    moreover have "heeded j P n t" if sent: "Ack t \<in> arriving out a" for t
    proof -
      obtain j' links pl where a: "nd_acks n = A_links (j' # links)" "perfect_links (nd_urb n) j' = Some pl" "t \<in> set oa" "pl_target_addr pl = a"
        using acks_arriving [OF ack(1) sent] by auto
      with here have "j' = j" by blast
      with a ack(5) [OF a(1,2)] ok show ?thesis by (simp add: in_ok_def)
    qed
    moreover have "heard (nd_urb n') = heard (nd_urb n)"
      using only_links_known(2) [OF quiet_only_links(1) [OF acks_step_quiet [OF ack(1)]]] .
    moreover have "t_recv (nd_threads n') = t_recv (nd_threads n)" by (subst ack(2)) simp
    ultimately show ?thesis by (intro stay) (simp_all add: ack(4))
  next
    case (message sendto ord)
    have "Ack t \<notin> arriving out a" for t
    proof
      assume "Ack t \<in> arriving out a"
      then obtain bs where bs: "(bs, a) \<in> set out" "PL_Parse (take 14 bs) = Some (Ack t)" by (auto simp: arriving_def)
      from messages_step_out [OF message(1) bs(1)] bs(2) show False by auto
    qed
    with message show ?thesis by (intro stay) simp_all
  next
    case other
    then show ?thesis by (intro stay) simp_all
  qed
qed

end
