(* ===== verification/Thread_Agreement.thy ===== *)
theory Thread_Agreement
  imports Thread_Links System_Agreement
begin

text \<open>
  Agreement under every interleaving of statements: the invariant of all links of the system, and
  what follows for a majority whose threads have come to rest.
\<close>

section \<open>All links\<close>

definition flying :: "tsys \<Rightarrow> host \<Rightarrow> host \<Rightarrow> packet set" where
  "flying s hj hk = {pkt. \<exists>bs. (host_addr hj, host_addr hk, bs) \<in> tnet s \<and> PL_Parse (take 14 bs) = Some pkt}"

definition link_ok :: "tsys \<Rightarrow> host \<Rightarrow> host \<Rightarrow> bool" where
  "link_ok s hj hk \<longleftrightarrow> out_ok (h_id hk) (host_addr hk) (flying s hj hk) (nodes s (h_id hj)) \<and>
     (\<forall>i \<in> t_known (thr s (h_id hj)). underway (h_id hk) (nodes s (h_id hj)) i \<or> heeds (h_id hj) (nodes s (h_id hk)) i) \<and>
     in_ok (h_id hj) (flying s hj hk) (flying s hk hj) (nodes s (h_id hk)) \<and>
     from_peer (host_addr hj) (h_id hj) (flying s hj hk) (nd_at (nodes s (h_id hk)))"

definition links_ok :: "host list \<Rightarrow> tsys \<Rightarrow> bool" where
  "links_ok hs s \<longleftrightarrow> (\<forall>hj \<in> set hs. \<forall>hk \<in> set hs. h_id hj \<noteq> h_id hk \<longrightarrow> link_ok s hj hk)"

text \<open>A step before which no counter of a link is about to wrap around.\<close>

definition tsys_next :: "host list \<Rightarrow> tsys \<Rightarrow> tsys \<Rightarrow> bool" where
  "tsys_next hs s s' \<longleftrightarrow> tsys_step hs s s' \<and> (\<forall>q \<in> ids_of hs. numbers_left (urb_at s q))"

lemma in_ok_more: "in_ok j P Q n \<Longrightarrow> P \<subseteq> P' \<Longrightarrow> in_ok j P' Q n"
  unfolding in_ok_def heeded_def taken_in_def by blast

lemma from_peer_more: "from_peer a j P w \<Longrightarrow> P \<subseteq> P' \<Longrightarrow> from_peer a j P' w"
  by (cases w) (auto simp: parses_in_def)

lemma flying_temit:
  assumes hs: "hosts_ok hs" and h: "h \<in> set hs" "hj \<in> set hs"
  shows "flying (temit (host_addr h) out s) hj hk =
    (if h = hj then flying s hj hk \<union> arriving out (host_addr hk) else flying s hj hk)"
  using hosts_ok_same(2) [OF hs h] by (auto simp: flying_def temit_def arriving_def)

lemma flying_set_node [simp]: "flying (set_node q n s) hj hk = flying s hj hk"
  by (simp add: flying_def)

lemma link_address:
  assumes inv: "tsys_inv hs s" and hs: "hosts_ok hs" and links: "links_ok hs s" and h: "hj \<in> set hs" "hk \<in> set hs"
    and pl: "perfect_links (urb_at s (h_id hj)) k' = Some pl" "pl_target_addr pl = host_addr hk"
  shows "k' = h_id hk"
proof -
  have "wired hs (h_id hj) (app_of (nodes s (h_id hj)))" using node_ok_facts(4) [OF inv] h(1) by simp
  then have "k' \<in> ids_of hs - {h_id hj}" using pl(1) by (auto simp: wired_def app_of_def)
  then obtain h' where h': "h' \<in> set hs" "k' = h_id h'" "h_id hj \<noteq> h_id h'" by auto
  then have "out_ok (h_id h') (host_addr h') (flying s hj h') (nodes s (h_id hj))"
    using links h(1) by (simp add: links_ok_def link_ok_def)
  with pl h'(2) have "host_addr h' = host_addr hk" by (simp add: out_ok_def)
  with hosts_ok_same(2) [OF hs h'(1) h(2)] h'(2) show ?thesis by simp
qed

lemma link_exists:
  assumes "tsys_inv hs s" and "hj \<in> set hs" "hk \<in> set hs" "h_id hj \<noteq> h_id hk"
  shows "h_id hk \<in> dom (perfect_links (urb_at s (h_id hj)))"
  using node_ok_facts(4) [OF assms(1), of "h_id hj"] assms(2-4) by (simp add: wired_def app_of_def)

lemma link_sender_step:
  assumes inv: "tsys_inv hs s" and hs: "hosts_ok hs" and links: "links_ok hs s" and left: "numbers_left (urb_at s (h_id hj))"
    and h: "hj \<in> set hs" "hk \<in> set hs" "h_id hj \<noteq> h_id hk"
    and step: "node_step inbox (nodes s (h_id hj)) out n"
  shows "link_ok (temit (host_addr hj) out (set_node (h_id hj) n s)) hj hk"
proof -
  let ?j = "h_id hj" and ?k = "h_id hk" and ?P = "flying s hj hk" and ?Q = "flying s hk hj"
  let ?P' = "?P \<union> arriving out (host_addr hk)"
  have ok: "link_ok s hj hk" "link_ok s hk hj" using links h by (auto simp: links_ok_def)
  have ne: "hk \<noteq> hj" using h(3) by auto
  have thr: "threads_inv (nd_threads (nodes s ?j))" using node_ok_facts(2) [OF inv] h(1) by simp
  have "out_ok ?k (host_addr hk) ?P' n \<and> (\<forall>i \<in> t_known (nd_threads n). underway ?k n i \<or> heeds ?j (nodes s ?k) i)"
  proof (rule out_step [OF step thr _ left link_exists [OF inv h] _ _, where Q = ?Q])
    show "out_ok ?k (host_addr hk) ?P (nodes s ?j)" "from_peer (host_addr hk) ?k ?Q (nd_at (nodes s ?j))"
      using ok by (simp_all add: link_ok_def)
    show "perfect_links (urb_at s ?j) k' = Some pl \<Longrightarrow> pl_target_addr pl = host_addr hk \<Longrightarrow> k' = ?k" for k' pl
      using link_address [OF inv hs links h(1,2)] .
    show "\<exists>m. Msg m \<in> ?P \<and> pm_seq m = t \<and> (\<forall>i. carries (pm_payload m) i \<longrightarrow> heeds ?j (nodes s ?k) i)" if "Ack t \<in> ?Q" for t
      using ok(1) that unfolding link_ok_def in_ok_def heeded_def by blast
    show "i \<in> t_known (nd_threads (nodes s ?j)) \<Longrightarrow> underway ?k (nodes s ?j) i \<or> heeds ?j (nodes s ?k) i" for i
      using ok(1) by (simp add: link_ok_def)
  qed
  moreover have "in_ok ?j ?P' ?Q (nodes s ?k)" "from_peer (host_addr hj) ?j ?P' (nd_at (nodes s ?k))"
    using ok(1) in_ok_more from_peer_more by (auto simp: link_ok_def)
  ultimately show ?thesis
    using h(3) ne by (simp add: link_ok_def flying_temit [OF hs h(1,1)] flying_temit [OF hs h(1,2)])
qed

lemma link_receiver_step:
  assumes inv: "tsys_inv hs s" and hs: "hosts_ok hs" and links: "links_ok hs s"
    and h: "hj \<in> set hs" "hk \<in> set hs" "h_id hj \<noteq> h_id hk"
    and step: "node_step {(src, bs). (src, host_addr hk, bs) \<in> tnet s} (nodes s (h_id hk)) out n"
  shows "link_ok (temit (host_addr hk) out (set_node (h_id hk) n s)) hj hk"
proof -
  let ?j = "h_id hj" and ?k = "h_id hk" and ?P = "flying s hj hk" and ?Q = "flying s hk hj"
  have ok: "link_ok s hj hk" using links h by (auto simp: links_ok_def)
  have ne: "hk \<noteq> hj" using h(3) by auto
  have k: "?k \<in> ids_of hs" using h(2) by simp
  note f = node_ok_facts [OF inv k]
  obtain pl where "perfect_links (urb_at s ?j) ?k = Some pl" using link_exists [OF inv h] by blast
  with ok have uniq: "Msg m \<in> ?P \<Longrightarrow> Msg m' \<in> ?P \<Longrightarrow> pm_seq m = pm_seq m' \<Longrightarrow> m = m'" for m m'
    unfolding link_ok_def out_ok_def link_numbers_def by blast
  have "(in_ok ?j ?P (?Q \<union> arriving out (host_addr hj)) n \<and> (\<forall>i. heeds ?j (nodes s ?k) i \<longrightarrow> heeds ?j n i)) \<and>
      from_peer (host_addr hj) ?j ?P (nd_at n)"
  proof (rule in_step [OF step f(2) _ _ uniq])
    show "in_ok ?j ?P ?Q (nodes s ?k)" "from_peer (host_addr hj) ?j ?P (nd_at (nodes s ?k))"
      using ok by (simp_all add: link_ok_def)
    show "(host_addr hj, bs) \<in> {(src, bs). (src, host_addr hk, bs) \<in> tnet s} \<Longrightarrow> parses_in ?P (take 14 bs)" for bs
      by (auto simp: parses_in_def flying_def)
    show "addr = host_addr hj" if "nd_at (nodes s ?k) = W_observers bs addr" "?j \<in> set (observers_at (nd_server (nodes s ?k)) addr)" for bs addr
    proof -
      note here = that
      obtain h' where h': "h' \<in> set hs" "addr = host_addr h'" using f(9) by (auto simp: here(1))
      then have "?j = h_id h'" using f(4) here(2) by (auto simp: wired_def app_of_def split: if_splits)
      then show ?thesis using hosts_ok_same(1) [OF hs h(1) h'(1)] h'(2) by simp
    qed
    show "perfect_links (urb_at s ?k) ?j = Some pl \<Longrightarrow> managers pl \<noteq> [] \<and> pl_target_id pl = ?j" for pl
      using f(4) by (simp add: wired_def app_of_def)
    show "perfect_links (urb_at s ?k) k' = Some pl \<Longrightarrow> pl_target_addr pl = host_addr hj \<Longrightarrow> k' = ?j" for k' pl
      using link_address [OF inv hs links h(2,1)] .
  qed
  then show ?thesis
    using ok h(3) ne by (auto simp: link_ok_def flying_temit [OF hs h(2,1)] flying_temit [OF hs h(2,2)])
qed

lemma links_ok_step:
  assumes inv: "tsys_inv hs s" and hs: "hosts_ok hs" and links: "links_ok hs s" and step: "tsys_next hs s s'"
  shows "links_ok hs s'"
proof -
  from step obtain h out n where h: "h \<in> set hs" and n: "node_step {(src, bs). (src, host_addr h, bs) \<in> tnet s} (nodes s (h_id h)) out n"
    and s': "s' = temit (host_addr h) out (set_node (h_id h) n s)" and left: "numbers_left (urb_at s (h_id h))"
    unfolding tsys_next_def by (auto elim!: tsys_step.cases)
  have "link_ok s' hj hk" if hh: "hj \<in> set hs" "hk \<in> set hs" "h_id hj \<noteq> h_id hk" for hj hk
  proof -
    consider "h = hj" | "h = hk" | "h \<noteq> hj" "h \<noteq> hk" by blast
    then show ?thesis
    proof cases
      case 1
      with link_sender_step [OF inv hs links _ hh] n left s' show ?thesis by blast
    next
      case 2
      with link_receiver_step [OF inv hs links hh] n s' show ?thesis by blast
    next
      case 3
      then have "h_id h \<noteq> h_id hj" "h_id h \<noteq> h_id hk" using hosts_ok_same(1) [OF hs h] hh by auto
      with links hh 3 show ?thesis
        by (simp add: s' links_ok_def link_ok_def flying_temit [OF hs h hh(1)] flying_temit [OF hs h hh(2)])
    qed
  qed
  then show ?thesis by (simp add: links_ok_def)
qed

lemma links_ok_init:
  assumes init: "tsys_init hs s"
  shows "links_ok hs s"
  unfolding links_ok_def
proof (intro ballI impI)
  fix hj hk assume h: "hj \<in> set hs" "hk \<in> set hs" and ne: "h_id hj \<noteq> h_id hk"
  have hs: "hosts_ok hs" and empty: "flying s h h' = {}" for h h' using init by (auto simp: flying_def tsys_init_def)
  have fresh: "perfect_links (urb_at s (h_id h)) (h_id h') = Some (PL_Subscribe This_Manager (link_to (h_id h) h')) \<and>
      t_known (thr s (h_id h)) = {} \<and> call_list (nodes s (h_id h)) = [] \<and> nd_at (nodes s (h_id h)) = W_wait"
    if "h \<in> set hs" "h' \<in> set hs" "h_id h' \<noteq> h_id h" for h h'
  proof -
    from init that(1) obtain a os p n where a: "nodes s (h_id h) = start_node a" "parsed p" "p_hosts p = hs" "p_id p = h_id h"
      "os_can_open os (p_output_path p)" and built: "FIFO_setup os p = Inr (n, a)"
      unfolding tsys_init_def by blast
    have d: "distinct (map h_id (p_hosts p))" "p_id p \<in> h_id ` set (p_hosts p)"
      using hs that(1) a by (simp_all add: hosts_ok_def)
    show ?thesis
      using FIFO_setup_wiring [OF built a(2) d] fifo_manager_running(2) [OF a(5) built a(2)] that a dset.abs_emp
      by (simp add: urb_fresh_def known_def t_known_def start_node_def call_list_def)
  qed
  from fresh [OF h ne [symmetric]] fresh [OF h(2,1) ne] empty
  show "link_ok s hj hk"
    by (simp add: link_ok_def out_ok_def in_ok_def link_numbers_def PL_Subscribe_def link_to_def)
qed

text \<open>The states that are reached without a counter of a link about to wrap around.\<close>

lemma reachable_next:
  assumes "reachable (tsys_init hs) (tsys_next hs) s"
  shows "reachable (tsys_init hs) (tsys_step hs) s" "links_ok hs s"
proof -
  from assms have "reachable (tsys_init hs) (tsys_step hs) s \<and> links_ok hs s"
  proof (induction rule: reachable.induct)
    case (reachable_init s)
    then show ?case using links_ok_init by (blast intro: reachable.intros)
  next
    case (reachable_step s t)
    with reachable_tsys(1,2) [of hs s] links_ok_step [of hs s t] show ?case
      unfolding tsys_next_def by (blast intro: reachable.intros)
  qed
  then show "reachable (tsys_init hs) (tsys_step hs) s" "links_ok hs s" by blast+
qed

section \<open>A majority at rest\<close>

text \<open>
  The processes \<open>C\<close> have settled: their threads are between two operations, no message between two of
  them waits for an acknowledgement, and what a majority has seen is delivered.
\<close>

definition tsettled :: "u32 set \<Rightarrow> tsys \<Rightarrow> bool" where
  "tsettled C s \<longleftrightarrow>
     (\<forall>k \<in> C. t_recv (thr s k) = R_idle \<and> t_del (thr s k) = D_idle \<and> t_send (thr s k) = S_idle \<and>
        nd_at (nodes s k) = W_wait \<and> calls (nodes s k) = {}) \<and>
     (\<forall>j \<in> C. \<forall>k \<in> C. \<forall>pl. perfect_links (urb_at s j) k = Some pl \<longrightarrow> messages_to_send pl = Map.empty) \<and>
     (\<forall>k \<in> C. \<forall>i \<in> pending_for_delivery (urb_at s k). majority_seen (urb_at s k) i \<longrightarrow>
        DeliveredSet_Contains (delivered (urb_at s k)) i)"

lemma tsettled_heard:
  assumes links: "links_ok hs s" and inv: "tsys_inv hs s" and C: "majority hs C" and settled: "tsettled C s"
    and jk: "j \<in> C" "k \<in> C" "j \<noteq> k" and i: "i \<in> t_known (thr s j)"
  shows "heard (urb_at s k) j i"
proof -
  from C jk obtain hj hk where h: "hj \<in> set hs" "j = h_id hj" "hk \<in> set hs" "k = h_id hk"
    unfolding majority_def by blast
  have rest: "t_recv (thr s j) = R_idle" "t_del (thr s j) = D_idle" "t_send (thr s j) = S_idle" "calls (nodes s j) = {}"
    "nd_at (nodes s k) = W_wait" "\<And>pl. perfect_links (urb_at s j) k = Some pl \<Longrightarrow> messages_to_send pl = Map.empty"
    using settled jk unfolding tsettled_def by blast+
  have "set (call_list (nodes s j)) = {}" using rest(4) by (simp add: call_list_def calls_def)
  moreover have "broadcasting (thr s j) = {}" using rest(1-3) by (simp add: broadcasting_def)
  ultimately have "\<not> underway k (nodes s j) i" using rest(6) by (auto simp: underway_def)
  moreover have "underway k (nodes s j) i \<or> heeds j (nodes s k) i"
    using links h jk(3) i unfolding links_ok_def link_ok_def by blast
  ultimately show ?thesis using rest(5) by (simp add: heeds_def)
qed

lemma tsettled_delivered:
  assumes reach: "reachable (tsys_init hs) (tsys_next hs) s"
    and C: "majority hs C" and settled: "tsettled C s" and c: "c \<in> C" "i \<in> t_known (thr s c)" and k: "k \<in> C"
  shows "i \<in> marked (thr s k)"
proof -
  note r = reachable_next [OF reach] and t = reachable_tsys [OF reachable_next(1) [OF reach]]
  note hrd = tsettled_heard [OF r(2) t(2) C settled]
  have ids: "j \<in> ids_of hs" if "j \<in> C" for j using C that by (auto simp: majority_def)
  have rest: "t_recv (thr s j) = R_idle" "t_del (thr s j) = D_idle" if "j \<in> C" for j
    using settled that unfolding tsettled_def by blast+
  have known: "i \<in> t_known (thr s j)" if "j \<in> C" for j
  proof (cases "j = c")
    case False
    from hrd [OF c(1) that not_sym [OF False] c(2)] thread_acks.reachable_inv [OF t(3) [OF ids [OF that]]] rest [OF that]
    show ?thesis by (auto simp: heard_def t_acked_def t_known_def known_def)
  qed (use c(2) in simp)
  show ?thesis
  proof (rule ccontr)
    assume not: "i \<notin> marked (thr s k)"
    have "C - {k} \<subseteq> acks_of (urb_at s k) i" using hrd [OF _ k _ known] not by (auto simp: heard_def)
    moreover have "finite (acks_of (urb_at s k) i)" by simp
    ultimately have "card (C - {k}) \<le> card (acks_of (urb_at s k) i)" by (rule card_mono [rotated])
    moreover have "card (C - {k}) = card C - 1" using k by simp
    moreover have "unat (n_processes (urb_at s k)) = length hs"
      using node_ok_facts(4) [OF t(2) ids [OF k]] t(1) by (simp add: wired_def app_of_def hosts_ok_def unat_of_nat)
    ultimately have "majority_seen (urb_at s k) i" using C unfolding majority_def by linarith
    moreover have "i \<in> pending_for_delivery (urb_at s k)" using known [OF k] not rest [OF k] by (simp add: t_known_def known_def)
    ultimately have "DeliveredSet_Contains (delivered (urb_at s k)) i" using settled k by (auto simp: tsettled_def)
    moreover have "good_id i"
      using node_ok_facts(2) [OF t(2) ids [OF k]] known [OF k] by (auto simp: threads_inv_def t_delivery_ok_def)
    ultimately show False using not by (simp add: good_id_Contains)
  qed
qed

end
