(* ===== verification/Thread_System_Properties.thy ===== *)
theory Thread_System_Properties
  imports Thread_Alone Thread_Agreement System_Runs
begin

text \<open>
  The properties of the system whose threads interleave statement by statement: the safety promises
  of uniform FIFO broadcast, and its relation to the system of whole steps.
\<close>

section \<open>What is in a log\<close>

lemma threads_logged_iff:
  assumes "reachable threads_started threads_next t"
  shows "deliver_line a s \<in> set (lg_lines (mgr_logger (t_urb t))) \<longleftrightarrow>
    0 < s \<and> (\<forall>r. 0 < r \<and> r \<le> s \<longrightarrow> Msg_Id r a \<in> marked t \<and> Msg_Id r a \<notin> due (t_del t))"
proof -
  have log: "t_log_ok t" using thread_runs.reachable_inv [OF assms] by (simp add: threads_inv_def)
  then have order: "ufifo.log_in_order (t_urb t)" by (simp add: t_log_ok_def)
  have "0 < s" if "deliver_line a s \<in> set (lg_lines (mgr_logger (t_urb t)))"
  proof -
    from that have "deliver_line a s \<in> set (author_lines a (mgr_logger (t_urb t)))" by (simp add: author_lines_def)
    with order show ?thesis by (auto simp: ufifo.log_in_order_def)
  qed
  moreover have "deliver_line a s \<in> set (lg_lines (mgr_logger (t_urb t))) \<longleftrightarrow>
      (\<forall>r. 0 < r \<and> r \<le> s \<longrightarrow> Msg_Id r a \<in> marked t \<and> Msg_Id r a \<notin> due (t_del t))" if "0 < s"
    using log ufifo.logged_iff_prefix [OF order that, of a] by (simp add: t_log_ok_def)
  ultimately show ?thesis by blast
qed

section \<open>Numbers that last\<close>

text \<open>
  A whole operation takes a bounded quantity of numbers from the counters of the links. As long as the
  processes know few messages, no counter is about to wrap around before any of its statements.
\<close>

definition enough_numbers :: "host list \<Rightarrow> sys \<Rightarrow> bool" where
  "enough_numbers hs s \<longleftrightarrow> (\<forall>q \<in> ids_of hs. 12 * card (known (mgr s q)) + 14 < 2 ^ 32)"

lemma enough_numbers_before:
  assumes inv: "sys_inv hs s" "sys_inv hs t" and step: "sys_step hs s t" and enough: "enough_numbers hs t"
  shows "enough_numbers hs s"
  unfolding enough_numbers_def
proof
  fix q assume q: "q \<in> ids_of hs"
  have "card (known (mgr s q)) \<le> card (known (mgr t q))"
    by (rule card_mono [OF known_broadcasts(1) [OF inv(2) q] sys_step_grows(1) [OF inv(1) step]])
  with enough q show "12 * card (known (mgr s q)) + 14 < 2 ^ 32" unfolding enough_numbers_def by fastforce
qed

lemma enough_numbers_for:
  assumes inv: "sys_inv hs s" and ex: "exchange_inv hs s" and enough: "enough_numbers hs s" and q: "q \<in> ids_of hs"
  shows "numbers_for (numbers_needed (mgr s q)) (mgr s q)"
  unfolding numbers_for_def
proof (intro allI impI)
  let ?m = "mgr s q"
  fix j c assume "counter_at ?m j = Some c"
  then obtain pl where pl: "perfect_links ?m j = Some pl" "c = pl_n_messages_sent pl" by (auto simp: counter_at_def)
  then have "j \<in> ids_of hs - {q}" using sys_inv_proc(1) [OF inv q] by (auto simp: wired_def)
  with q obtain hq hj where h: "hq \<in> set hs" "q = h_id hq" "hj \<in> set hs" "j = h_id hj" "h_id hq \<noteq> h_id hj" by auto
  with ex have "send_ok s hq hj" unfolding exchange_inv_def by blast
  then have c: "unat c = card (known ?m) + 1" using pl h by (simp add: send_ok_def link_sends_def)
  have "card (pending_for_delivery ?m) \<le> card (known ?m)"
    by (rule card_mono [OF known_broadcasts(1) [OF inv q]]) (auto simp: known_def)
  moreover have "12 * card (known ?m) + 14 < 2 ^ 32" using enough q unfolding enough_numbers_def by blast
  ultimately show "unat c + numbers_needed ?m + 1 < 2 ^ 32" unfolding c numbers_needed_def by linarith
qed

lemma numbers_for_left:
  assumes "numbers_for 0 u"
  shows "numbers_left u"
proof -
  have "pl_n_messages_sent pl \<noteq> - 1" if "perfect_links u j = Some pl" for j pl
  proof
    assume "pl_n_messages_sent pl = - 1"
    with that have "counter_at u j = Some (- 1)" by (simp add: counter_at_def)
    with assms have "unat (- 1 :: u32) + 0 + 1 < 2 ^ 32" unfolding numbers_for_def by blast
    then show False by (simp add: unsigned_minus_1_eq_mask mask_eq_exp_minus_1)
  qed
  then show ?thesis by (auto simp: numbers_left_def ran_def)
qed

lemma guarded_next: "guarded_step (numbers_for 0) hs s t \<Longrightarrow> tsys_next hs s t"
  unfolding guarded_step_def tsys_next_def using numbers_for_left by blast

lemma reachable_at_rest_next:
  assumes "reachable (sys_init hs) (sys_step hs) s" and hs: "hosts_ok hs" and "enough_numbers hs s"
  shows "reachable (tsys_init hs) (tsys_next hs) (at_rest s)"
  using assms(1,3)
proof (induction rule: reachable.induct)
  case (reachable_init s)
  with at_rest_init hs show ?case by (blast intro: reachable.intros)
next
  case (reachable_step s t)
  note inv = reachable_sys_inv [OF reachable_step.hyps(1) hs]
  have "sys_inv hs t" by (rule reachable_sys_inv [OF reachable.reachable_step [OF reachable_step.hyps] hs])
  note enough = enough_numbers_before [OF inv this reachable_step.hyps(2) reachable_step.prems]
  have "few hs s" using enough by (auto simp: few_def enough_numbers_def)
  note ex = reachable_exchange [OF reachable_step.hyps(1) hs this]
  have "(guarded_step (numbers_for 0) hs)\<^sup>*\<^sup>* (at_rest s) (at_rest t)"
    by (rule number_budget.whole_step_runs [OF reachable_step.hyps(2) inv enough_numbers_for [OF inv ex enough]])
  then have "(tsys_next hs)\<^sup>*\<^sup>* (at_rest s) (at_rest t)" by (rule rtranclp_mono [THEN predicate2D, rotated]) (blast intro: guarded_next)
  with reachable_step.IH [OF enough] show ?case by (rule reachable_steps)
qed

section \<open>Agreement\<close>

abbreviation log_at :: "tsys \<Rightarrow> u32 \<Rightarrow> string set" where
  "log_at s q \<equiv> set (lg_lines (mgr_logger (urb_at s q)))"

lemma tsettled_logged:
  assumes reach: "reachable (tsys_init hs) (tsys_next hs) s" and C: "majority hs C" and settled: "tsettled C s"
    and n: "0 < n" and known: "\<And>r. 0 < r \<Longrightarrow> r \<le> n \<Longrightarrow> \<exists>c \<in> C. Msg_Id r a \<in> t_known (thr s c)" and k: "k \<in> C"
  shows "deliver_line a n \<in> log_at s k"
proof -
  have "k \<in> ids_of hs" using C k by (auto simp: majority_def)
  note run = reachable_tsys(3) [OF reachable_next(1) [OF reach] this]
  have "due (t_del (thr s k)) = {}" using settled k by (simp add: tsettled_def)
  moreover have "Msg_Id r a \<in> marked (thr s k)" if "0 < r" "r \<le> n" for r
    using known [OF that] tsettled_delivered [OF reach C settled _ _ k] by blast
  ultimately show ?thesis using n unfolding threads_logged_iff [OF run] by blast
qed

section \<open>Properties\<close>

text \<open>
  C8: Whole steps are runs of statements. A step of the system in which each method is one step - a
  call of \<^verbatim>\<open>Send\<close>, a turn of one of the threads, or the handling of a datagram - is a run of the
  system of statements, from the state in which all threads rest to the state in which they rest
  again. So every reachable state of the system of whole steps is reached by statements, and what
  holds under every interleaving of statements holds there.
\<close>

theorem whole_steps_are_runs:
  assumes "reachable (sys_init hs) (sys_step hs) s" and "hosts_ok hs" and "sys_step hs s s'"
  shows "(tsys_step hs)\<^sup>*\<^sup>* (at_rest s) (at_rest s') \<and> reachable (tsys_init hs) (tsys_step hs) (at_rest s')"
proof -
  from no_budget.whole_step_runs [OF assms(3) reachable_sys_inv [OF assms(1,2)]]
  have "(tsys_step hs)\<^sup>*\<^sup>* (at_rest s) (at_rest s')" by (simp add: guarded_step_True)
  with reachable_steps [OF reachable_at_rest [OF assms(1,2)]] show ?thesis by blast
qed

lemma ex_start_reachable: "reachable (sys_init ex_peers) (sys_step ex_peers) ex_start"
  using ex_start_init by (rule reachable.reachable_init)

lemma ex_send: "sys_step ex_peers ex_start ex_sent"
  unfolding ex_sent_def
  by (rule sys_send [of "ex_peer 1" _ _ "''''"])
    (use ex_sent_step ex_start_fresh [of 1] in \<open>simp_all add: ex_peers_def ex_peer_def urb_fresh_def\<close>)

theorem whole_steps_are_runs_witness:
  "(tsys_step ex_peers)\<^sup>*\<^sup>* (at_rest ex_start) (at_rest ex_sent) \<and> bc_n_messages_sent (urb_at (at_rest ex_sent) 1) = 2"
  using whole_steps_are_runs [OF ex_start_reachable ex_peers_ok(1) ex_send] ex_sent_healthy(2)
  by (simp add: at_rest_def start_node_def)

text \<open>
  C6: No creation, and a quorum behind every delivery, under every interleaving. Whenever a line
  \<^verbatim>\<open>d a n\<close> is in the log of a process, in whatever way the threads of all processes interleave
  statement by statement, the author \<open>a\<close> is one of the hosts and has logged \<^verbatim>\<open>b n\<close>, and more than half of
  the processes know the message.
\<close>

theorem delivery_backed:
  assumes "reachable (tsys_init hs) (tsys_step hs) s" and "q \<in> ids_of hs"
    and "deliver_line a n \<in> set (lg_lines (mgr_logger (urb_at s q)))"
  shows "a \<in> ids_of hs \<and> broadcast_line n \<in> set (lg_lines (mgr_logger (urb_at s a))) \<and>
    length hs div 2 < card {j \<in> ids_of hs. Msg_Id n a \<in> t_known (thr s j)}"
proof -
  note r = reachable_tsys [OF assms(1)]
  have "Msg_Id n a \<in> marked (thr s q)"
    using assms(3) unfolding threads_logged_iff [OF r(3) [OF assms(2)]] by blast
  moreover have "Msg_Id n a \<in> t_known (thr s q)" using calculation by (simp add: t_known_def known_def)
  moreover note f = node_ok_facts [OF r(2) assms(2)]
  ultimately have a: "a \<in> tknowers hs s (Msg_Id n a)" and "length hs div 2 < card (tknowers hs s (Msg_Id n a))"
    using f(1) f(6) [of "Msg_Id n a"] by (auto simp: node_ok_def)
  then have "a \<in> ids_of hs" "Msg_Id n a \<in> t_known (thr s a)" by (auto simp: tknowers_def)
  with known_logged [OF r(3), of a "Msg_Id n a"] node_ok_facts(3) [OF r(2), of a] \<open>length hs div 2 < _\<close>
  show ?thesis by (simp add: tknowers_def)
qed

text \<open>The states of \<open>ex_settled\<close> are reached by statements as well.\<close>

lemma ex_settled_statements:
  obtains s where "reachable (tsys_init ex_peers) (tsys_step ex_peers) s"
    "deliver_line 1 1 \<in> set (lg_lines (mgr_logger (urb_at s 1)))"
proof -
  obtain s where s: "reachable (sys_init ex_peers) (sys_step ex_peers) s" "broadcasts ex_peers s + 1 < 2 ^ 32"
    "settled {1, 2} s" "broadcast_line 1 \<in> log_of s 1" "deliver_line 1 1 \<in> log_of s 1"
    by (rule ex_settled)
  show ?thesis
    by (rule that [OF reachable_at_rest [OF s(1) ex_peers_ok(1)]]) (use s(5) in \<open>simp add: at_rest_def start_node_def\<close>)
qed

theorem delivery_backed_witness:
  "\<exists>s. deliver_line 1 1 \<in> set (lg_lines (mgr_logger (urb_at s 1))) \<and>
     broadcast_line 1 \<in> set (lg_lines (mgr_logger (urb_at s 1))) \<and>
     1 < card {j \<in> {1, 2, 3}. Msg_Id 1 1 \<in> t_known (thr s j)}"
proof -
  obtain s where s: "reachable (tsys_init ex_peers) (tsys_step ex_peers) s"
    "deliver_line 1 1 \<in> set (lg_lines (mgr_logger (urb_at s 1)))"
    by (rule ex_settled_statements)
  have "1 \<in> ids_of ex_peers" "length ex_peers div 2 = 1" using ex_peers_ok(2) by (simp_all add: ex_peers_def)
  with delivery_backed [OF s(1) _ s(2)] s(2) show ?thesis unfolding ex_peers_ok(2) by auto
qed

text \<open>
  C7: FIFO order without duplication under every interleaving. In every reachable state of the system of
  statements, also in the middle of operations, the delivery lines of each author in the log of each
  process are \<^verbatim>\<open>d a 1\<close>, \<^verbatim>\<open>d a 2\<close>, up to some number.
\<close>

theorem statements_fifo_order:
  assumes "reachable (tsys_init hs) (tsys_step hs) s" and "q \<in> ids_of hs"
  shows "\<exists>k. filter (\<lambda>x. x \<in> range (deliver_line a)) (lg_lines (mgr_logger (urb_at s q))) =
    map (\<lambda>j. deliver_line a (of_nat j)) [1 ..< Suc k]"
proof -
  have "t_log_ok (thr s q)"
    using thread_runs.reachable_inv [OF reachable_tsys(3) [OF assms]] by (simp add: threads_inv_def)
  then show ?thesis by (intro ufifo.in_order_lines) (simp add: t_log_ok_def)
qed

theorem statements_fifo_order_witness:
  "\<exists>s k. filter (\<lambda>x. x \<in> range (deliver_line 1)) (lg_lines (mgr_logger (urb_at s 1))) =
     map (\<lambda>j. deliver_line 1 (of_nat j)) [1 ..< Suc k] \<and> 0 < k"
proof -
  obtain s where s: "reachable (tsys_init ex_peers) (tsys_step ex_peers) s"
    "deliver_line 1 1 \<in> set (lg_lines (mgr_logger (urb_at s 1)))"
    by (rule ex_settled_statements)
  have "1 \<in> ids_of ex_peers" using ex_peers_ok(2) by simp
  from statements_fifo_order [OF s(1) this, of 1] obtain k where
    k: "filter (\<lambda>x. x \<in> range (deliver_line 1)) (lg_lines (mgr_logger (urb_at s 1))) =
      map (\<lambda>j. deliver_line 1 (of_nat j)) [1 ..< Suc k]" by blast
  have "deliver_line 1 1 \<in> set (filter (\<lambda>x. x \<in> range (deliver_line 1)) (lg_lines (mgr_logger (urb_at s 1))))"
    using s(2) by simp
  then have "0 < k" unfolding k by (cases k) simp_all
  with k show ?thesis by blast
qed

text \<open>
  C4: Uniform agreement under every interleaving. In every state that is reached by statements, before
  each of which no counter of a link is about to wrap around, in which a majority \<open>C\<close> has come to
  rest - their threads are between two operations, nothing is queued between two of them, and what a
  majority has acknowledged is delivered - each message delivered by any process, wherever its own
  threads are and whether or not it has crashed since, is in the logs of all of \<open>C\<close>.
\<close>

theorem statements_uniform_agreement:
  assumes "reachable (tsys_init hs) (tsys_next hs) s" and "majority hs C" and "tsettled C s"
    and "q \<in> ids_of hs" and "deliver_line a n \<in> log_at s q" and "k \<in> C"
  shows "deliver_line a n \<in> log_at s k"
proof (rule tsettled_logged [OF assms(1-3) _ _ assms(6)])
  note r = reachable_tsys [OF reachable_next(1) [OF assms(1)]]
  note logged = assms(5) [unfolded threads_logged_iff [OF r(3) [OF assms(4)]]]
  then show "0 < n" by blast
  fix r assume "0 < r" "r \<le> n"
  with logged have "Msg_Id r a \<in> marked (thr s q)" by blast
  then have "length hs div 2 < card (tknowers hs s (Msg_Id r a))"
    using node_ok_facts(1) [OF r(2) assms(4)] unfolding node_ok_def by blast
  with majority_meets [OF assms(2), of "tknowers hs s (Msg_Id r a)"]
  show "\<exists>c \<in> C. Msg_Id r a \<in> t_known (thr s c)" by (auto simp: tknowers_def)
qed

text \<open>The first two processes of the example at rest.\<close>

lemma ex_rest:
  obtains s where "reachable (tsys_init ex_peers) (tsys_next ex_peers) s" "tsettled {1, 2} s"
    "own_pending_for_broadcast (urb_at s 1) = []" "broadcast_line 1 \<in> log_at s 1" "deliver_line 1 1 \<in> log_at s 1"
proof -
  obtain s where s: "reachable (sys_init ex_peers) (sys_step ex_peers) s" "broadcasts ex_peers s = 1"
    "settled {1, 2} s" "broadcast_line 1 \<in> log_of s 1" "deliver_line 1 1 \<in> log_of s 1"
    by (rule ex_settled_once)
  note inv = reachable_sys_inv [OF s(1) ex_peers_ok(1)]
  have few: "enough_numbers ex_peers s"
    unfolding enough_numbers_def using known_broadcasts(2) [OF inv] s(2) by fastforce
  then have "few ex_peers s" by (auto simp: few_def enough_numbers_def)
  note ex = reachable_exchange [OF s(1) ex_peers_ok(1) this]
  have "tsettled {1, 2} (at_rest s)"
    using s(3) unfolding tsettled_def settled_def by (simp add: at_rest_def calls_def)
  moreover have "own_pending_for_broadcast (mgr s 1) = []"
    by (rule settled_queue [OF ex inv ex_peers_ok(1,3) s(3)]) simp
  ultimately show ?thesis
    using that [OF reachable_at_rest_next [OF s(1) ex_peers_ok(1) few]] s(4,5) by (simp add: at_rest_def)
qed

theorem statements_uniform_agreement_witness:
  "\<exists>s. deliver_line 1 1 \<in> log_at s 1 \<and> deliver_line 1 1 \<in> log_at s 2"
proof -
  obtain s where s: "reachable (tsys_init ex_peers) (tsys_next ex_peers) s" "tsettled {1, 2} s" "deliver_line 1 1 \<in> log_at s 1"
    by (rule ex_rest)
  have "deliver_line 1 1 \<in> log_at s 2"
    by (rule statements_uniform_agreement [OF s(1) ex_peers_ok(3) s(2) _ s(3)]) (use ex_peers_ok(2) in simp_all)
  with s(3) show ?thesis by blast
qed

text \<open>
  C5: Validity under every interleaving. In such a state each message whose broadcast is logged by a
  process of \<open>C\<close> with an empty queue is in the logs of all of \<open>C\<close>.
\<close>

theorem statements_validity:
  assumes "reachable (tsys_init hs) (tsys_next hs) s" and "majority hs C" and "tsettled C s"
    and "c \<in> C" and "broadcast_line n \<in> log_at s c" and "own_pending_for_broadcast (urb_at s c) = []" and "k \<in> C"
  shows "deliver_line c n \<in> log_at s k"
proof (rule tsettled_logged [OF assms(1-3) _ _ assms(7)])
  note r = reachable_tsys [OF reachable_next(1) [OF assms(1)]]
  have c: "c \<in> ids_of hs" using assms(2,4) by (auto simp: majority_def)
  note log = thread_log.reachable_inv [OF r(3) [OF c]]
  have idle: "t_del (thr s c) = D_idle" "t_send (thr s c) = S_idle" using assms(3,4) unfolding tsettled_def by blast+
  have "broadcast_line n \<in> set (own_lines (mgr_logger (urb_at s c)))" using assms(5) by (auto simp: own_lines_def)
  with log idle have n: "0 < n" "n < bc_n_messages_sent (urb_at s c)" by (auto simp: t_logged_def)
  then show "0 < n" by blast
  have "t_own_ok (thr s c)" using log by (simp add: threads_inv_def)
  then have own: "{i \<in> t_known (thr s c). id_author i = c} = {i. id_author i = c \<and> 0 < id_seq i \<and> id_seq i < bc_n_messages_sent (urb_at s c)}"
    using node_ok_facts(3) [OF r(2) c] idle assms(6) by (simp add: t_own_ok_def own_places_def)
  fix r assume "0 < r" "r \<le> n"
  with n(2) have "Msg_Id r c \<in> {i \<in> t_known (thr s c). id_author i = c}" unfolding own by simp
  then have "Msg_Id r c \<in> t_known (thr s c)" by blast
  with assms(4) show "\<exists>c' \<in> C. Msg_Id r c \<in> t_known (thr s c')" by blast
qed

theorem statements_validity_witness:
  "\<exists>s. broadcast_line 1 \<in> log_at s 1 \<and> deliver_line 1 1 \<in> log_at s 2"
proof -
  obtain s where s: "reachable (tsys_init ex_peers) (tsys_next ex_peers) s" "tsettled {1, 2} s"
    "own_pending_for_broadcast (urb_at s 1) = []" "broadcast_line 1 \<in> log_at s 1"
    by (rule ex_rest)
  have "deliver_line 1 1 \<in> log_at s 2"
    by (rule statements_validity [OF s(1) ex_peers_ok(3) s(2) _ s(4,3)]) simp_all
  with s(4) show ?thesis by blast
qed

end
