(* ===== verification/Spec2Isabelle.thy ===== *)
theory Spec2Isabelle
  imports System_Liveness Driver_Threads Thread_Properties Lock_Shutdown Signal_Handling
    Thread_System_Properties
begin

text \<open>
  \<^bold>\<open>A verification of the uniform FIFO broadcast program\<close>

  The program is one process of a distributed system. It reads a hosts file and a config file,
  opens a UDP socket, and either sends messages to one receiver over perfect links or broadcasts
  messages to all hosts with uniform reliable FIFO broadcast. What it broadcasts and delivers is
  written to a log, one line \<^verbatim>\<open>b n\<close> or \<^verbatim>\<open>d author n\<close> each.

  \<^bold>\<open>Parts of the program and their theories\<close>
  (sources are below \<^verbatim>\<open>src/src/src\<close>, in \<^verbatim>\<open>src\<close> and \<^verbatim>\<open>include\<close>)

  \<^item> \<open>DA_Prelude\<close>: failures as a sum type (\<open>result\<close>: overrun of a buffer, use of a dangling
    reference, \<^verbatim>\<open>std::terminate\<close>, exit, thrown exceptions), ordered sets as sorted lists, bytes
    and numbers as text, reachability, and the shared interfaces: \<open>byte_codec\<close>,
    \<open>canonical_codec\<close>, \<open>set_impl\<close>, \<open>invariant\<close>.
  \<^item> \<open>Output_Logger\<close> (\<^verbatim>\<open>logger\<close>): the log file as lines in memory and files on disk.
  \<^item> \<open>UDP\<close> (\<^verbatim>\<open>udp_server\<close>, \<^verbatim>\<open>udp_client\<close>): addresses, the observer table, receiving, sending.
  \<^item> \<open>Perfect_Link\<close> (\<^verbatim>\<open>perfect_link\<close>): packets, one link with its queue, acknowledgements and
    delivered messages, the manager with its two sender turns, and \<^verbatim>\<open>BasicManager\<close>. Clients of a
    link are the locale \<open>link_client\<close>.
  \<^item> \<open>Broadcast\<close> (\<^verbatim>\<open>broadcast\<close>, \<^verbatim>\<open>best_effort_broadcast\<close>): message identifiers, the wire format,
    the base class with its virtual methods as a record \<open>vtable\<close>, best-effort broadcast. What
    the links need of a broadcast class is the locale \<open>broadcast_layer\<close>.
  \<^item> \<open>Delivered_Set\<close> (\<^verbatim>\<open>DeliveredSet\<close>): identifiers compacted to a low-water mark per author.
  \<^item> \<open>Uniform_Reliable_Broadcast\<close> (\<^verbatim>\<open>uniform_reliable_broadcast\<close>): echoes, majorities and the window
    of own messages; classes derived from it are the locale \<open>urb_class\<close>.
  \<^item> \<open>FIFO_Broadcast\<close> (\<^verbatim>\<open>fifo_broadcast\<close>): the reliable and the uniform variant, both interpretations
    of the locale \<open>fifo_layer\<close>; \<open>Broadcast_Log\<close>: the lines of own messages in a log.
  \<^item> \<open>Config_Parser\<close> (\<^verbatim>\<open>parser\<close>): command line, hosts file, config file. \<open>Console_Info\<close>
    (\<^verbatim>\<open>info_display\<close>): what is printed of them.
  \<^item> \<open>Process_Drivers\<close> (\<^verbatim>\<open>drivers\<close>, \<^verbatim>\<open>main\<close>): set-up, sending and shutdown of both modes, the signal
    handler and \<^verbatim>\<open>main\<close>; both ways to add links are the locale \<open>adds_links\<close>.
    \<open>Program_Outcomes\<close>: how the program can end and what it becomes. \<open>Driver_Threads\<close>: the FIFO driver
    while the other threads of the process run.
  \<^item> \<open>Signal_Handling\<close> (\<^verbatim>\<open>drivers\<close>, \<^verbatim>\<open>main\<close>): the FIFO driver statement by statement, and the handler
    after any of them.
  \<^item> \<open>URB_Threads\<close>: \<^verbatim>\<open>NotifyInternal\<close>, \<^verbatim>\<open>DeliverPending\<close> and \<^verbatim>\<open>Send\<close> statement by statement, as the three
    threads of a process run them. \<open>Thread_Invariants\<close>, \<open>Thread_Safety\<close>: their interleavings and
    the invariants; \<open>Thread_Runs\<close>: schedules, the end of the deliverer, executions;
    \<open>Thread_Properties\<close>: what holds under every interleaving.
  \<^item> \<open>Process_Threads\<close>: a whole process statement by statement: also \<^verbatim>\<open>NotifyAll\<close>, \<^verbatim>\<open>PerfectLink::Notify\<close>,
    the loop of \<^verbatim>\<open>SendInternal\<close> over the links and the two sending threads (record \<open>node\<close>, steps
    \<open>node_step\<close>). \<open>Thread_System\<close>: the system of such processes (\<open>tsys_step\<close>) and its invariant;
    \<open>Thread_Alone\<close>: threads that are not interrupted, and the numbers they take from the counters
    (locale \<open>send_budget\<close>); \<open>Thread_Links\<close>, \<open>Thread_Agreement\<close>: what each statement does to the two
    ends of a link, and what a majority at rest has; \<open>Thread_System_Properties\<close>: what holds.
  \<^item> \<open>Shared_Data\<close> (\<^verbatim>\<open>shared.hpp\<close>): the mutexes, threads as sequences of locking events, and a
    discipline that excludes deadlock and leaves data races only where a thread may read without a
    mutex. \<open>Lock_Traces\<close>: the events of every function that uses a mutex, accesses through references
    included; \<open>Lock_Properties\<close>: the program as a whole, with the handler. \<open>Lock_Shutdown\<close>: the loops of the
    threads with their switches, and how the handler ends them.
  \<^item> \<open>Distributed_System\<close>: the processes that \<^verbatim>\<open>FIFOBroadcast\<close> sets up for the hosts of one hosts
    file, and a network. \<open>Link_Moves\<close>, \<open>Link_Exchange\<close>: what each step does to the two ends
    of a link. \<open>System_Agreement\<close>, \<open>System_Progress\<close>, \<open>System_Properties\<close>: the promises of
    uniform FIFO broadcast for the system as a whole. \<open>System_Runs\<close>, \<open>System_Liveness\<close>: infinite
    runs, fairness of threads and network, and what eventually happens.

  \<^bold>\<open>State and operations\<close>

  Classes are records, and a derived class extends the record of its base class; each method is
  one function from state to state, or to a \<open>result\<close> when it can fail, with the guards and early
  returns of the source. Virtual calls go through the \<open>vtable\<close> of the object's class. Numbers
  are words of the width the source uses, so counters wrap as they do there. The turns of the
  threads (\<^verbatim>\<open>SendMessages\<close>, \<^verbatim>\<open>SendAcks\<close>, \<^verbatim>\<open>DeliverPending\<close>, \<^verbatim>\<open>Receive\<close>) are single functions.

  Three views of concurrency stand beside each other. In \<open>Distributed_System\<close> a method is one step.
  In \<open>URB_Threads\<close> and \<open>Process_Threads\<close> a step is one section of the source that holds a mutex, one
  access to an atomic variable, or one call that writes the log. These steps are tied to the
  methods: a method is a run of them (\<open>threads_alone\<close>), and a run of whole steps of the system is a run
  of statements (\<open>whole_steps_are_runs\<close>), so what holds in the system of statements holds in both;
  and the threads of each process in the system run as in \<open>URB_Threads\<close> (locale \<open>simulation\<close>). In
  \<open>Shared_Data\<close> a step is a single operation on a mutex, on the value it guards, on the log or on a
  thread; the values are left out there, and tests of the source are arguments.

  Parameters are what the sources do not determine: the answers of the operating system and
  the C library (records \<open>os\<close> and \<open>libc\<close>), the files, the clock, whether a datagram can be
  sent, the build option \<^verbatim>\<open>PERFECT_LINKS_STRONG\<close>, the iteration order of hash containers, and
  \<open>after_pop\<close>: what is read through the reference that \<^verbatim>\<open>DeliverPending\<close> keeps to a queue element
  it has popped. The positive results about runs assume that this read still finds the message, if it
  returns (\<open>reads_front\<close>); \<open>URB_DeliverPending_progress\<close> does not. Whether \<^verbatim>\<open>freeaddrinfo\<close> returns from the
  uninitialised pointer it is given for an unknown host name is a parameter too.

  A step of the system (\<open>sys_step\<close>) is a send, a turn of a thread, or the arrival of a datagram
  at one process. Datagrams stay in the network once they are sent, so a datagram may arrive
  never, late, several times and in any order; a crashed process is one that takes no more steps.

  \<^bold>\<open>What is shown\<close>

  \<^item> System of statements: no creation, a quorum behind every delivery, and FIFO order without
    duplication in every reachable state, in whatever way the threads of all processes interleave;
    uniform agreement when a majority has come to rest, and validity for what has left its queue.
  \<^item> System of whole steps: uniform agreement in every reachable state. In every run that is fair to
    the threads of the correct processes and in which the network does not lose a repeated datagram
    for ever, with a correct majority, what a correct process holds as pending or delivered, its own
    messages from the moment they leave the queue included, and what any process delivers is
    eventually delivered by all correct ones.
    From every reachable state a majority can finish alone, shown with a measure of the
    work left (\<open>System_Progress\<close>).
  \<^item> Threads of a process, under every interleaving of statements: the order and completeness of the
    log, the majority at the moment of delivery, each own message in exactly one place, a window
    exceeded by at most one; the deliverer ends after \<^verbatim>\<open>Stop\<close>.
  \<^item> Synchronisation: every function keeps the locking discipline, with one exception, the read of
    the popped message; no deadlock; that read is the only race on a guarded value; the handler, unless
    it interrupts a critical section, clears the switches, shuts the socket down and so ends all
    threads; and what the handler does after every statement of the FIFO driver.
  \<^item> Classes: the FIFO classes log the delivered (or heard) prefix of every author in order; a turn of
    \<^verbatim>\<open>DeliverPending\<close> delivers exactly what a majority has; links retransmit until acknowledged,
    acknowledge, and hand over each message once, unless they forget it. (The lemmas on the window
    in \<open>Uniform_Reliable_Broadcast\<close> take methods as whole steps; the bound for threads is \<open>threads_window\<close>.)
  \<^item> Data: \<open>DeliveredSet\<close> refines a set and compacts; the packet formats and the hosts and config
    files are read back as written; relaying stays within its buffer.
  \<^item> Program: the accepted command lines, the topology that the set-up builds, and the outcome of
    both drivers and of \<^verbatim>\<open>main\<close>, as a function of their input; the FIFO driver also while the other
    threads run.
  \<^item> Limits of the code, also as theorems: a link forgets after nine seconds, the queue of own
    messages is pushed to while a popped element is read, trailing arguments are ignored, an unknown
    host name leads to the use of an uninitialised pointer, identifiers 1, 1, 3 are accepted, payloads above one byte overrun the send buffer, \<^verbatim>\<open>Send\<close> can lose its
    wake-up, a message can stay pending for ever, the signal handler can hang, an early message on
    a perfect link is lost, the log is written by two threads without a mutex.

  \<^bold>\<open>Bounds\<close>

  The loops of the model iterate over a finite container or a counter. Fuel occurs only in
  \<open>run_thread\<close>, which runs one thread alone; six, five and eleven per message are enough for the
  three threads (\<open>threads_alone\<close>). Results over runs exclude the wrap-around of the 32-bit message
  counter (a process sends only while its counter is not the largest number), and those on
  exchanges of links require that the number of messages broadcast in the system stays below
  2^32, as the counters of the links count all relayed messages. Agreement for statements holds for
  runs in which no counter of a link is about to wrap around (\<open>tsys_next\<close>); runs of whole steps in
  which the processes know few messages are such runs (\<open>reachable_at_rest_next\<close>). Progress is stated for queued
  payloads of at most one byte, since longer ones overrun the buffer of \<^verbatim>\<open>SendInternal\<close>; the driver
  sends empty ones.

  \<^bold>\<open>Not modelled\<close>

  \<^item> Liveness for statements: that a majority comes to rest is shown for whole steps. For statements
    a message can stay in the queue for ever, as \<^verbatim>\<open>Send\<close> can lose its wake-up (\<open>Send_lost_wakeup\<close>).
  \<^item> Two writes to the log at the same time: a write is one step, although no mutex protects it.
  \<^item> \<^verbatim>\<open>WaitForever\<close>, debug output, the banners of the drivers.
  \<^item> A link that is replaced by a later one with the same identifier, which leaves a dangling
    observer in the server; the theorems on set-up assume distinct identifiers.
  \<^item> A signal that is delivered to another thread than the main one.
  \<^item> \<^verbatim>\<open>front()\<close> on the empty queue in \<^verbatim>\<open>DeliverPending\<close>, which is undefined: the reference is not read
    then, and the call is taken to have no effect.
  \<^item> The sends of the perfect-links driver between steps of the other threads: \<open>PL_driver_outcome\<close> is
    about the uninterrupted driver.
\<close>

end
